(* ===== verification/Prelude.thy ===== *)
theory Prelude
  imports Main "HOL-Library.Word"
begin

text \<open>
  Shared vocabulary of the development.

  \<^item> The outcome of running kernel code: \<open>Ok\<close> of a value, \<open>Panic\<close> with the
    message given to \<open>panic()\<close>, or \<open>Blocked\<close> when the running thread spins on a
    lock or sleeps on a channel and only another thread can let it go on; it carries the
    state that the other threads find.
  \<^item> The kernel monad: state passing over such outcomes, so that a panic or a block
    ends the whole call chain as it does in the kernel.
  \<^item> Weakest preconditions over it. \<open>wp m Q s\<close> is total: \<open>m\<close> run from \<open>s\<close>
    neither panics nor blocks and its result satisfies \<open>Q\<close>. \<open>wlp m Q B s\<close> only says that
    if \<open>m\<close> returns then \<open>Q\<close> holds, and if it blocks then \<open>B\<close> holds.
  \<^item> Frame conditions: the locale \<open>discipline\<close> lifts a transitive relation on states through the
    monad, for statements of what a call can change at most.
  \<^item> Searching a fixed-size table for its first slot of some kind, the loop that
    \<open>filealloc\<close>, \<open>fdalloc\<close>, \<open>allocproc\<close>, \<open>iget\<close> and others share, and
    the interface of a table whose free slots are taken in that order.
  \<^item> Little-endian encoding of \<open>ushort\<close> and \<open>uint\<close> values in byte arrays.
\<close>

named_theorems wp_simps \<open>weakest preconditions of the monad's building blocks\<close>
named_theorems run_simps \<open>running the monad's building blocks on a state\<close>
named_theorems inv_intros \<open>operations that change the state only as a discipline allows\<close>

type_synonym byte = "8 word"
type_synonym uint = "32 word"

subsection \<open>Outcomes and the kernel monad\<close>

datatype ('s, 'r) outcome = Ok 'r | Panic string | Blocked 's

type_synonym ('s, 'a) kop = "'s \<Rightarrow> ('s, 'a \<times> 's) outcome"

definition ret :: "'a \<Rightarrow> ('s, 'a) kop" where
  "ret x s = Ok (x, s)"

definition bindk :: "('s, 'a) kop \<Rightarrow> ('a \<Rightarrow> ('s, 'b) kop) \<Rightarrow> ('s, 'b) kop" where
  "bindk m f s =
     (case m s of Ok r \<Rightarrow> f (fst r) (snd r) | Panic e \<Rightarrow> Panic e | Blocked t \<Rightarrow> Blocked t)"

definition thenk :: "('s, 'a) kop \<Rightarrow> ('s, 'b) kop \<Rightarrow> ('s, 'b) kop" where
  "thenk m n = bindk m (\<lambda>_. n)"

definition panic :: "string \<Rightarrow> ('s, 'a) kop" where
  "panic e s = Panic e"

definition block :: "('s, 'a) kop" where
  "block s = Blocked s"

definition getk :: "('s \<Rightarrow> 'a) \<Rightarrow> ('s, 'a) kop" where
  "getk f s = Ok (f s, s)"

definition modk :: "('s \<Rightarrow> 's) \<Rightarrow> ('s, unit) kop" where
  "modk f s = Ok ((), f s)"

definition whenk :: "bool \<Rightarrow> ('s, unit) kop \<Rightarrow> ('s, unit) kop" where
  "whenk b m = (if b then m else ret ())"

primrec for_each :: "'a list \<Rightarrow> ('a \<Rightarrow> ('s, unit) kop) \<Rightarrow> ('s, unit) kop" where
  "for_each [] f = ret ()"
| "for_each (x # xs) f = thenk (f x) (for_each xs f)"

definition wp :: "('s, 'a) kop \<Rightarrow> ('a \<Rightarrow> 's \<Rightarrow> bool) \<Rightarrow> 's \<Rightarrow> bool" where
  "wp m Q s = (case m s of Ok r \<Rightarrow> Q (fst r) (snd r) | _ \<Rightarrow> False)"

definition wlp :: "('s, 'a) kop \<Rightarrow> ('a \<Rightarrow> 's \<Rightarrow> bool) \<Rightarrow> ('s \<Rightarrow> bool) \<Rightarrow> 's \<Rightarrow> bool" where
  "wlp m Q B s = (case m s of Ok r \<Rightarrow> Q (fst r) (snd r) | Panic _ \<Rightarrow> True | Blocked t \<Rightarrow> B t)"

text \<open>\<open>steps R B m\<close>: whatever the start, \<open>m\<close> returns only in a state that \<open>R\<close> relates to it and blocks only
  in one that \<open>B\<close> relates to it.\<close>

definition steps :: "('s \<Rightarrow> 's \<Rightarrow> bool) \<Rightarrow> ('s \<Rightarrow> 's \<Rightarrow> bool) \<Rightarrow> ('s, 'a) kop \<Rightarrow> bool" where
  "steps R B m \<longleftrightarrow> (\<forall>s. wlp m (\<lambda>_. R s) (B s) s)"

subsection \<open>Table search\<close>

function find_slot :: "(nat \<Rightarrow> bool) \<Rightarrow> nat \<Rightarrow> nat \<Rightarrow> nat option" where
  "find_slot P i n = (if i < n then (if P i then Some i else find_slot P (Suc i) n) else None)"
  by pat_completeness auto
termination
  by (relation "measure (\<lambda>(P, i, n). n - i)") auto

declare find_slot.simps [simp del]

subsection \<open>Little-endian integers in byte arrays\<close>

definition enc16 :: "nat \<Rightarrow> byte list" where
  "enc16 n = [of_nat n, of_nat (n div 256)]"

definition enc32 :: "nat \<Rightarrow> byte list" where
  "enc32 n = [of_nat n, of_nat (n div 256), of_nat (n div 65536), of_nat (n div 16777216)]"

definition dec16 :: "byte list \<Rightarrow> nat \<Rightarrow> nat" where
  "dec16 bs i = unat (bs ! i) + 256 * unat (bs ! (i + 1))"

definition dec32 :: "byte list \<Rightarrow> nat \<Rightarrow> nat" where
  "dec32 bs i = unat (bs ! i) + 256 * unat (bs ! (i + 1))
     + 65536 * unat (bs ! (i + 2)) + 16777216 * unat (bs ! (i + 3))"

text \<open>\<open>overwrite bs off xs\<close> is \<open>memmove(bs + off, xs, length xs)\<close> on a separate source.\<close>

definition overwrite :: "'a list \<Rightarrow> nat \<Rightarrow> 'a list \<Rightarrow> 'a list" where
  "overwrite bs off xs = take off bs @ xs @ drop (off + length xs) bs"

definition slice :: "'a list \<Rightarrow> nat \<Rightarrow> nat \<Rightarrow> 'a list" where
  "slice bs off n = take n (drop off bs)"

subsection \<open>Lemmas: the monad\<close>

lemma ret_run [run_simps]: "ret x s = Ok (x, s)"
  by (simp add: ret_def)

lemma bindk_run [run_simps]:
  "bindk m f s = (case m s of Ok r \<Rightarrow> f (fst r) (snd r) | Panic e \<Rightarrow> Panic e | Blocked t \<Rightarrow> Blocked t)"
  by (simp add: bindk_def)

lemma thenk_run [run_simps]:
  "thenk m n s = (case m s of Ok r \<Rightarrow> n (snd r) | Panic e \<Rightarrow> Panic e | Blocked t \<Rightarrow> Blocked t)"
  by (simp add: thenk_def bindk_def)

lemma panic_run [run_simps]: "panic e s = Panic e"
  by (simp add: panic_def)

lemma block_run [run_simps]: "block s = Blocked s"
  by (simp add: block_def)

lemma getk_run [run_simps]: "getk f s = Ok (f s, s)"
  by (simp add: getk_def)

lemma modk_run [run_simps]: "modk f s = Ok ((), f s)"
  by (simp add: modk_def)

lemma whenk_run [run_simps]: "whenk b m s = (if b then m s else Ok ((), s))"
  by (simp add: whenk_def ret_def)

lemma bindk_ret [simp]: "bindk (ret x) f = f x"
  by (simp add: fun_eq_iff bindk_def ret_def)

lemma bindk_ret_right [simp]: "bindk m ret = m"
  by (auto simp: fun_eq_iff bindk_def ret_def split: outcome.splits)

lemma bindk_assoc: "bindk (bindk m f) g = bindk m (\<lambda>x. bindk (f x) g)"
  by (auto simp: fun_eq_iff bindk_def split: outcome.splits)

lemma thenk_assoc: "thenk (thenk m n) k = thenk m (thenk n k)"
  by (simp add: thenk_def bindk_assoc)

lemma bindk_Ok: "m s = Ok (x, t) \<Longrightarrow> bindk m f s = f x t"
  by (simp add: bindk_def)

lemma thenk_Ok: "m s = Ok (x, t) \<Longrightarrow> thenk m n s = n t"
  by (simp add: thenk_def bindk_def)

lemma wp_ret [wp_simps]: "wp (ret x) Q s = Q x s"
  by (simp add: wp_def ret_def)

lemma wp_bindk [wp_simps]: "wp (bindk m f) Q s = wp m (\<lambda>x s'. wp (f x) Q s') s"
  by (auto simp: wp_def bindk_def split: outcome.splits)

lemma wp_thenk [wp_simps]: "wp (thenk m n) Q s = wp m (\<lambda>_ s'. wp n Q s') s"
  by (simp add: thenk_def wp_bindk)

lemma wp_panic [wp_simps]: "wp (panic e) Q s = False"
  by (simp add: wp_def panic_def)

lemma wp_block [wp_simps]: "wp block Q s = False"
  by (simp add: wp_def block_def)

lemma wp_getk [wp_simps]: "wp (getk f) Q s = Q (f s) s"
  by (simp add: wp_def getk_def)

lemma wp_modk [wp_simps]: "wp (modk f) Q s = Q () (f s)"
  by (simp add: wp_def modk_def)

lemma wp_whenk [wp_simps]: "wp (whenk b m) Q s = (if b then wp m Q s else Q () s)"
  by (simp add: wp_def whenk_def ret_def)

lemma wp_if [wp_simps]: "wp (if b then m else n) Q s = (if b then wp m Q s else wp n Q s)"
  by simp

lemma wp_Let [wp_simps]: "wp (let x = v in f x) Q s = wp (f v) Q s"
  by simp

lemma wp_case_option [wp_simps]:
  "wp (case v of None \<Rightarrow> m | Some x \<Rightarrow> f x) Q s =
     (case v of None \<Rightarrow> wp m Q s | Some x \<Rightarrow> wp (f x) Q s)"
  by (cases v) auto

lemma wp_case_prod [wp_simps]:
  "wp (case v of (x, y) \<Rightarrow> f x y) Q s = (case v of (x, y) \<Rightarrow> wp (f x y) Q s)"
  by (cases v) auto

lemma wp_mono: "wp m Q s \<Longrightarrow> (\<And>x s'. Q x s' \<Longrightarrow> Q' x s') \<Longrightarrow> wp m Q' s"
  by (auto simp: wp_def split: outcome.splits)

lemma wp_Ok: "m s = Ok (x, s') \<Longrightarrow> wp m Q s = Q x s'"
  by (simp add: wp_def)

lemma wpD: "wp m Q s \<Longrightarrow> \<exists>x s'. m s = Ok (x, s') \<and> Q x s'"
  by (auto simp: wp_def split: outcome.splits)

lemma wp_conj: "wp m Q s \<Longrightarrow> wp m R s \<Longrightarrow> wp m (\<lambda>x s'. Q x s' \<and> R x s') s"
  by (auto simp: wp_def split: outcome.splits)

lemma wlp_ret [wp_simps]: "wlp (ret x) Q B s = Q x s"
  by (simp add: wlp_def ret_def)

lemma wlp_bindk [wp_simps]: "wlp (bindk m f) Q B s = wlp m (\<lambda>x s'. wlp (f x) Q B s') B s"
  by (auto simp: wlp_def bindk_def split: outcome.splits)

lemma wlp_thenk [wp_simps]: "wlp (thenk m n) Q B s = wlp m (\<lambda>_ s'. wlp n Q B s') B s"
  by (simp add: thenk_def wlp_bindk)

lemma wlp_panic [wp_simps]: "wlp (panic e) Q B s"
  by (simp add: wlp_def panic_def)

lemma wlp_block [wp_simps]: "wlp block Q B s = B s"
  by (simp add: wlp_def block_def)

lemma wlp_getk [wp_simps]: "wlp (getk f) Q B s = Q (f s) s"
  by (simp add: wlp_def getk_def)

lemma wlp_modk [wp_simps]: "wlp (modk f) Q B s = Q () (f s)"
  by (simp add: wlp_def modk_def)

lemma wlp_whenk [wp_simps]: "wlp (whenk b m) Q B s = (if b then wlp m Q B s else Q () s)"
  by (simp add: wlp_def whenk_def ret_def)

lemma wlp_mono:
  "wlp m Q B s \<Longrightarrow> (\<And>x s'. Q x s' \<Longrightarrow> Q' x s') \<Longrightarrow> (\<And>s'. B s' \<Longrightarrow> B' s') \<Longrightarrow> wlp m Q' B' s"
  by (auto simp: wlp_def split: outcome.splits)

lemma wp_for_each:
  assumes step: "\<And>x s. x \<in> set xs \<Longrightarrow> I s \<Longrightarrow> wp (f x) (\<lambda>_ s'. I s') s"
    and init: "I s"
  shows "wp (for_each xs f) (\<lambda>_ s'. I s') s"
  using assms
proof (induction xs arbitrary: s)
  case Nil
  then show ?case by (simp add: wp_simps)
next
  case (Cons x xs)
  have "wp (f x) (\<lambda>_ s'. I s') s" using Cons.prems by simp
  then show ?case
    unfolding for_each.simps wp_thenk
    by (rule wp_mono) (rule Cons.IH, use Cons.prems in auto)
qed

lemma for_each_append: "for_each (xs @ ys) f = thenk (for_each xs f) (for_each ys f)"
  by (induction xs) (simp_all add: thenk_def bindk_assoc)

lemma wp_for_upt:
  assumes step: "\<And>k s. k < n \<Longrightarrow> I k s \<Longrightarrow> wp (f k) (\<lambda>_ s'. I (Suc k) s') s"
    and init: "I 0 s"
  shows "wp (for_each [0..<n] f) (\<lambda>_ s'. I n s') s"
  using step
proof (induction n)
  case 0
  then show ?case using init by (simp add: wp_simps)
next
  case (Suc n)
  have "wp (for_each [0..<n] f) (\<lambda>_ s'. I n s') s" using Suc by simp
  then show ?case
    unfolding upt_Suc_append [OF le0] for_each_append wp_thenk
    by (rule wp_mono) (simp add: wp_simps Suc.prems)
qed

subsection \<open>Disciplines\<close>

lemma stepsI: "(\<And>s. wlp m (\<lambda>_. R s) (B s) s) \<Longrightarrow> steps R B m"
  by (simp add: steps_def)

lemma stepsD: "steps R B m \<Longrightarrow> wlp m (\<lambda>_. R s) (B s) s"
  by (simp add: steps_def)

lemma steps_Ok: "steps R B m \<Longrightarrow> m s = Ok (x, t) \<Longrightarrow> R s t"
  using stepsD [of R B m s] by (simp add: wlp_def)

lemma steps_wlp:
  "steps R B m \<Longrightarrow> (\<And>x t. R s t \<Longrightarrow> Q x t) \<Longrightarrow> (\<And>t. B s t \<Longrightarrow> B' t) \<Longrightarrow> wlp m Q B' s"
  by (rule wlp_mono [OF stepsD])

locale discipline =
  fixes R B :: "'s \<Rightarrow> 's \<Rightarrow> bool"
  assumes refl: "R s s"
    and trans: "R s t \<Longrightarrow> R t u \<Longrightarrow> R s u"
    and late: "R s t \<Longrightarrow> B t u \<Longrightarrow> B s u"
begin

lemma steps_ret [inv_intros]: "steps R B (ret x)"
  by (rule stepsI) (simp add: wp_simps refl)

lemma steps_panic [inv_intros]: "steps R B (panic e)"
  by (rule stepsI) (simp add: wp_simps)

lemma steps_getk [inv_intros]: "steps R B (getk f)"
  by (rule stepsI) (simp add: wp_simps refl)

lemma steps_modk: "(\<And>s. R s (f s)) \<Longrightarrow> steps R B (modk f)"
  by (rule stepsI) (simp add: wp_simps)

lemma steps_bindk [inv_intros]:
  assumes "steps R B m" "\<And>x. steps R B (f x)"
  shows "steps R B (bindk m f)"
proof (rule stepsI)
  fix s
  have "wlp (f x) (\<lambda>_. R s) (B s) t" if "R s t" for x t
    by (rule wlp_mono [OF stepsD [OF assms(2)]]) (auto intro: trans late that)
  then show "wlp (bindk m f) (\<lambda>_. R s) (B s) s"
    unfolding wlp_bindk by (rule wlp_mono [OF stepsD [OF assms(1)]])
qed

lemma steps_thenk [inv_intros]: "steps R B m \<Longrightarrow> steps R B n \<Longrightarrow> steps R B (thenk m n)"
  unfolding thenk_def by (rule steps_bindk)

lemma steps_whenk [inv_intros]: "steps R B m \<Longrightarrow> steps R B (whenk b m)"
  by (simp add: whenk_def steps_ret)

lemma steps_for_each [inv_intros]: "(\<And>x. steps R B (f x)) \<Longrightarrow> steps R B (for_each xs f)"
  by (induction xs) (simp_all add: steps_ret steps_thenk)

lemma steps_if [inv_intros]: "steps R B m \<Longrightarrow> steps R B n \<Longrightarrow> steps R B (if b then m else n)"
  by simp

lemma steps_option [inv_intros]:
  "steps R B m \<Longrightarrow> (\<And>x. steps R B (f x)) \<Longrightarrow> steps R B (case r of None \<Rightarrow> m | Some x \<Rightarrow> f x)"
  by (simp split: option.split)

lemma steps_list [inv_intros]:
  "steps R B m \<Longrightarrow> (\<And>x xs. steps R B (f x xs)) \<Longrightarrow> steps R B (case r of [] \<Rightarrow> m | x # xs \<Rightarrow> f x xs)"
  by (simp split: list.split)

lemma steps_prod [inv_intros]: "(\<And>x y. steps R B (f x y)) \<Longrightarrow> steps R B (case r of (x, y) \<Rightarrow> f x y)"
  by (simp split: prod.split)

lemma steps_Let [inv_intros]: "(\<And>x. steps R B (f x)) \<Longrightarrow> steps R B (Let r f)"
  by simp

end

text \<open>A discipline under which code may wait anywhere.\<close>

locale waiting_discipline = discipline +
  assumes spin: "B s s"
begin

lemma steps_block [inv_intros]: "steps R B block"
  by (rule stepsI) (simp add: wp_simps spin)

end

subsection \<open>Lemmas: table search\<close>

lemma find_slot_Some:
  "find_slot P i n = Some k \<Longrightarrow> i \<le> k \<and> k < n \<and> P k \<and> (\<forall>j. i \<le> j \<and> j < k \<longrightarrow> \<not> P j)"
proof (induction P i n rule: find_slot.induct)
  case (1 P i n)
  show ?case
  proof (cases "i < n \<and> \<not> P i")
    case True
    with 1 have IH: "Suc i \<le> k \<and> k < n \<and> P k \<and> (\<forall>j. Suc i \<le> j \<and> j < k \<longrightarrow> \<not> P j)"
      by (simp add: find_slot.simps [of P i n])
    have "\<not> P j" if "i \<le> j" "j < k" for j
      using IH True that by (cases "j = i") auto
    with IH show ?thesis by auto
  next
    case False
    with 1 show ?thesis by (auto simp: find_slot.simps [of P i n] split: if_splits)
  qed
qed

lemma find_slot_None: "find_slot P i n = None \<longleftrightarrow> (\<forall>j. i \<le> j \<and> j < n \<longrightarrow> \<not> P j)"
proof (induction P i n rule: find_slot.induct)
  case (1 P i n)
  show ?case
  proof (cases "i < n \<and> \<not> P i")
    case True
    with 1 have "find_slot P i n = None \<longleftrightarrow> (\<forall>j. Suc i \<le> j \<and> j < n \<longrightarrow> \<not> P j)"
      by (simp add: find_slot.simps [of P i n])
    also have "\<dots> \<longleftrightarrow> (\<forall>j. i \<le> j \<and> j < n \<longrightarrow> \<not> P j)"
      using True by (metis Suc_leI le_antisym less_Suc_eq not_less_eq_eq Suc_le_eq le_eq_less_or_eq)
    finally show ?thesis .
  next
    case False
    then show ?thesis by (auto simp: find_slot.simps [of P i n])
  qed
qed

lemma find_slot_eqI:
  assumes "i \<le> k" "k < n" "P k" "\<And>j. i \<le> j \<Longrightarrow> j < k \<Longrightarrow> \<not> P j"
  shows "find_slot P i n = Some k"
proof (cases "find_slot P i n")
  case None
  then show ?thesis using assms by (auto simp: find_slot_None)
next
  case (Some m)
  from find_slot_Some [OF this] assms have "m = k"
    by (metis linorder_neqE_nat)
  with Some show ?thesis by simp
qed

lemma find_slot_cong:
  "(\<And>j. i \<le> j \<Longrightarrow> j < n \<Longrightarrow> P j = Q j) \<Longrightarrow> find_slot P i n = find_slot Q i n"
proof (induction P i n rule: find_slot.induct)
  case (1 P i n)
  show ?case
    using 1 by (subst (1 2) find_slot.simps) auto
qed

lemma find_Some_set: "List.find P xs = Some x \<Longrightarrow> x \<in> set xs \<and> P x"
  by (induction xs) (auto split: if_splits)

subsection \<open>Lemmas: words\<close>

lemma unat_lt32: "unat a < 4294967296" for a :: uint
  using unsigned_less [where ?'a = nat, of a] by simp

lemma unat_lt8: "unat a < 256" for a :: byte
  using unsigned_less [where ?'a = nat, of a] by simp

lemma unat_of_nat32: "n < 4294967296 \<Longrightarrow> unat (of_nat n :: uint) = n"
  by (simp add: unat_of_nat)

subsection \<open>Lemmas: byte arrays\<close>

lemma length_enc [simp]: "length (enc16 n) = 2" "length (enc32 n) = 4"
  by (simp_all add: enc16_def enc32_def)

lemma dec16_enc16: "n < 65536 \<Longrightarrow> dec16 (enc16 n) 0 = n"
  by (simp add: dec16_def enc16_def unat_of_nat)

lemma dec32_enc32: "n < 4294967296 \<Longrightarrow> dec32 (enc32 n) 0 = n"
proof -
  assume n: "n < 4294967296"
  have d: "n div 65536 = n div 256 div 256" "n div 16777216 = n div 256 div 256 div 256"
    by (simp_all add: div_mult2_eq [symmetric])
  have "n div 16777216 < 256" using n by (simp add: less_mult_imp_div_less)
  then have "dec32 (enc32 n) 0 = n mod 256 + 256 * (n div 256 mod 256)
    + 65536 * (n div 256 div 256 mod 256) + 16777216 * (n div 256 div 256 div 256)"
    by (simp add: dec32_def enc32_def unat_of_nat d)
  moreover have "256 * (n div 256) + n mod 256 = n"
    "256 * (n div 256 div 256) + n div 256 mod 256 = n div 256"
    "256 * (n div 256 div 256 div 256) + n div 256 div 256 mod 256 = n div 256 div 256"
    by (rule mult_div_mod_eq)+
  ultimately show ?thesis by linarith
qed

lemma length_overwrite [simp]: "off + length xs \<le> length bs \<Longrightarrow> length (overwrite bs off xs) = length bs"
  by (simp add: overwrite_def)

lemma nth_overwrite:
  "off + length xs \<le> length bs \<Longrightarrow> i < length bs \<Longrightarrow>
   overwrite bs off xs ! i = (if off \<le> i \<and> i < off + length xs then xs ! (i - off) else bs ! i)"
  by (auto simp: overwrite_def nth_append)

lemma slice_overwrite_same:
  "off + length xs \<le> length bs \<Longrightarrow> slice (overwrite bs off xs) off (length xs) = xs"
  by (simp add: slice_def overwrite_def)

lemma length_slice [simp]: "off + n \<le> length bs \<Longrightarrow> length (slice bs off n) = n"
  by (simp add: slice_def)

lemma nth_slice: "off + n \<le> length bs \<Longrightarrow> i < n \<Longrightarrow> slice bs off n ! i = bs ! (off + i)"
  by (simp add: slice_def)

lemma dec32_overwrite_same:
  assumes "off + 4 \<le> length bs" "n < 4294967296"
  shows "dec32 (overwrite bs off (enc32 n)) off = n"
proof -
  have "overwrite bs off (enc32 n) ! (off + k) = enc32 n ! k" if "k < 4" for k
    using assms that by (simp add: nth_overwrite)
  from this [of 0] this [of 1] this [of 2] this [of 3]
  have "dec32 (overwrite bs off (enc32 n)) off = dec32 (enc32 n) 0"
    by (simp add: dec32_def numeral_2_eq_2)
  with assms show ?thesis by (simp add: dec32_enc32)
qed

lemma dec32_overwrite_other:
  assumes "off + length xs \<le> length bs" "i + 4 \<le> length bs" "i + 4 \<le> off \<or> off + length xs \<le> i"
  shows "dec32 (overwrite bs off xs) i = dec32 bs i"
  using assms by (auto simp: dec32_def nth_overwrite)

lemma dec16_overwrite_same:
  assumes "off + 2 \<le> length bs" "n < 65536"
  shows "dec16 (overwrite bs off (enc16 n)) off = n"
proof -
  have "overwrite bs off (enc16 n) ! (off + k) = enc16 n ! k" if "k < 2" for k
    using assms that by (simp add: nth_overwrite)
  from this [of 0] this [of 1]
  have "dec16 (overwrite bs off (enc16 n)) off = dec16 (enc16 n) 0"
    by (simp add: dec16_def)
  with assms show ?thesis by (simp add: dec16_enc16)
qed

lemma dec16_overwrite_other:
  assumes "off + length xs \<le> length bs" "i + 2 \<le> length bs" "i + 2 \<le> off \<or> off + length xs \<le> i"
  shows "dec16 (overwrite bs off xs) i = dec16 bs i"
  using assms by (auto simp: dec16_def nth_overwrite)

text \<open>Decoding a part of a concatenation.\<close>

lemma dec_append:
  "length xs \<le> i \<Longrightarrow> dec32 (xs @ ys) i = dec32 ys (i - length xs)"
  "length xs \<le> i \<Longrightarrow> dec16 (xs @ ys) i = dec16 ys (i - length xs)"
  "n < 4294967296 \<Longrightarrow> dec32 (enc32 n @ ys) 0 = n"
  "n < 65536 \<Longrightarrow> dec16 (enc16 n @ ys) 0 = n"
proof -
  show "length xs \<le> i \<Longrightarrow> dec32 (xs @ ys) i = dec32 ys (i - length xs)"
    "length xs \<le> i \<Longrightarrow> dec16 (xs @ ys) i = dec16 ys (i - length xs)"
    by (simp_all add: dec32_def dec16_def nth_append Suc_diff_le)
  have "(enc32 n @ ys) ! k = enc32 n ! k" if "k < 4" for k using that by (simp add: nth_append)
  then show "n < 4294967296 \<Longrightarrow> dec32 (enc32 n @ ys) 0 = n"
    using dec32_enc32 [of n] by (simp add: dec32_def)
  have "(enc16 n @ ys) ! k = enc16 n ! k" if "k < 2" for k using that by (simp add: nth_append)
  then show "n < 65536 \<Longrightarrow> dec16 (enc16 n @ ys) 0 = n"
    using dec16_enc16 [of n] by (simp add: dec16_def)
qed

lemma length_concat_enc32 [simp]: "length (concat (map enc32 ns)) = 4 * length ns"
  by (induction ns) simp_all

lemma dec32_concat:
  "k < length ns \<Longrightarrow> \<forall>n\<in>set ns. n < 4294967296 \<Longrightarrow> dec32 (concat (map enc32 ns)) (4 * k) = ns ! k"
proof (induction ns arbitrary: k)
  case (Cons n ns)
  then show ?case by (cases k) (simp_all add: dec_append)
qed simp

text \<open>Decoding something that was stored somewhere in a block.\<close>

lemma dec_overwrite:
  assumes "off + length xs \<le> length bs"
  shows "i + 4 \<le> length xs \<Longrightarrow> dec32 (overwrite bs off xs) (off + i) = dec32 xs i"
    "i + 2 \<le> length xs \<Longrightarrow> dec16 (overwrite bs off xs) (off + i) = dec16 xs i"
  using assms by (simp_all add: dec32_def dec16_def nth_overwrite)

end
