(* ===== verification/Machine.thy ===== *)
theory Machine
  imports Prelude
begin

text \<open>
  The machine as the kernel sees it: processors, the interrupt flag, spin locks, and the
  process table they all share (\<open>proc.h\<close>, \<open>spinlock.h\<close>, \<open>sleeplock.h\<close>), with
  the routines of \<open>spinlock.c\<close>, the processor lookups of \<open>proc.c\<close>, and
  the sleep locks of \<open>sleeplock.c\<close> with the \<open>sleep\<close> and \<open>wakeup\<close> they use.

  One processor runs at a time: an operation of the model is what the processor whose
  local APIC id is \<open>lapicid\<close> does until it returns, panics or has to wait. A lock that
  another processor holds makes the operation \<open>Blocked\<close> (it spins), and so does going
  to sleep. Lock names and the recorded call stacks (\<open>pcs\<close>) serve debugging only and
  are left out; the kernel stack, trap frame and context of a process are what the
  system-call layer reads of them.

  The field \<open>apicid\<close> of \<open>struct cpu\<close> is an array of its own (\<open>apicid s i\<close> is
  \<open>cpus[i].apicid\<close>), since it is fixed at boot while the other fields change.

  Later components extend the record \<open>machine\<close> with their own global variables, so
  every operation here applies to the whole kernel's state.
\<close>

subsection \<open>Data\<close>

datatype lockid =
    PtableLock | BcacheLock | LogLock | IcacheLock | FtableLock | KmemLock | ConsLock
  | IdeLock | TicksLock | BufSpin nat | InodeSpin nat | PipeLock nat

datatype chan =
    ChanBufLock nat | ChanInodeLock nat | ChanBuf nat | ChanLog | ChanProc nat
  | ChanTicks | ChanPipeRead nat | ChanPipeWrite nat | ChanInput

record spinlock =
  locked :: bool
  lk_cpu :: "nat option"

datatype procstate = UNUSED | EMBRYO | SLEEPING | RUNNABLE | RUNNING | ZOMBIE

record trapframe =
  tf_edi :: uint
  tf_esi :: uint
  tf_ebp :: uint
  tf_oesp :: uint
  tf_ebx :: uint
  tf_edx :: uint
  tf_ecx :: uint
  tf_eax :: uint
  tf_gs :: "16 word"
  tf_fs :: "16 word"
  tf_es :: "16 word"
  tf_ds :: "16 word"
  tf_trapno :: uint
  tf_err :: uint
  tf_eip :: uint
  tf_cs :: "16 word"
  tf_eflags :: uint
  tf_esp :: uint
  tf_ss :: "16 word"

text \<open>Where a kernel thread goes on when the scheduler switches to it: \<open>forkret\<close> the first time,
  later the instruction after the \<open>swtch\<close> in \<open>sched\<close>.\<close>

datatype kcode = Forkret | Sched

record kcontext =
  cx_edi :: uint
  cx_esi :: uint
  cx_ebx :: uint
  cx_ebp :: uint
  cx_eip :: kcode

record proc =
  sz :: uint
  pgdir :: uint
  kstack :: uint
  state :: procstate
  pid :: int
  parent :: "nat option"
  tf :: trapframe
  kctx :: kcontext
  chan :: "chan option"
  killed :: bool
  ofile :: "nat \<Rightarrow> nat option"
  cwd :: "nat option"
  pname :: "byte list"

record cpu =
  ncli :: int
  intena :: bool
  cpu_proc :: "nat option"

record machine =
  lapicid :: nat
  fl_if :: bool
  apicid :: "nat \<Rightarrow> nat"
  cpus :: "nat \<Rightarrow> cpu"
  ncpu :: nat
  locks :: "lockid \<Rightarrow> spinlock"
  ptable :: "nat \<Rightarrow> proc"
  nextpid :: int
  initproc :: "nat option"

abbreviation (input) NPROC :: nat where "NPROC \<equiv> 64"
abbreviation (input) NCPU :: nat where "NCPU \<equiv> 8"
abbreviation (input) NOFILE :: nat where "NOFILE \<equiv> 16"

subsection \<open>Processors and interrupts\<close>

definition mycpu :: "('z machine_scheme, nat) kop" where
  "mycpu =
     bindk (getk fl_if) (\<lambda>i.
     if i then panic (''mycpu called with interrupts enabled'' @ [CHR 0x0A])
     else bindk (getk (\<lambda>s. find_slot (\<lambda>i. apicid s i = lapicid s) 0 (ncpu s))) (\<lambda>r.
       case r of Some i \<Rightarrow> ret i | None \<Rightarrow> panic (''unknown apicid'' @ [CHR 0x0A])))"

definition cpuid :: "('z machine_scheme, nat) kop" where
  "cpuid = mycpu"

definition set_cpu :: "nat \<Rightarrow> (cpu \<Rightarrow> cpu) \<Rightarrow> ('z machine_scheme, unit) kop" where
  "set_cpu c f = modk (\<lambda>s. s\<lparr>cpus := (cpus s)(c := f (cpus s c))\<rparr>)"

definition cli :: "('z machine_scheme, unit) kop" where
  "cli = modk (\<lambda>s. s\<lparr>fl_if := False\<rparr>)"

definition sti :: "('z machine_scheme, unit) kop" where
  "sti = modk (\<lambda>s. s\<lparr>fl_if := True\<rparr>)"

definition pushcli :: "('z machine_scheme, unit) kop" where
  "pushcli =
     bindk (getk fl_if) (\<lambda>eflags.
     thenk cli (
     bindk mycpu (\<lambda>c.
     bindk (getk (\<lambda>s. cpus s c)) (\<lambda>p.
     thenk (whenk (ncli p = 0) (set_cpu c (\<lambda>p. p\<lparr>intena := eflags\<rparr>)))
       (set_cpu c (\<lambda>p. p\<lparr>ncli := ncli p + 1\<rparr>))))))"

definition popcli :: "('z machine_scheme, unit) kop" where
  "popcli =
     bindk (getk fl_if) (\<lambda>i.
     if i then panic ''popcli - interruptible''
     else bindk mycpu (\<lambda>c.
       thenk (set_cpu c (\<lambda>p. p\<lparr>ncli := ncli p - 1\<rparr>)) (
       bindk (getk (\<lambda>s. cpus s c)) (\<lambda>p.
       if ncli p < 0 then panic ''popcli''
       else whenk (ncli p = 0 \<and> intena p) sti))))"

definition myproc :: "('z machine_scheme, nat option) kop" where
  "myproc =
     thenk pushcli (
     bindk mycpu (\<lambda>c.
     bindk (getk (\<lambda>s. cpu_proc (cpus s c))) (\<lambda>p.
     thenk popcli (ret p))))"

subsection \<open>Spin locks\<close>

definition initlock :: "lockid \<Rightarrow> ('z machine_scheme, unit) kop" where
  "initlock lk =
     modk (\<lambda>s. s\<lparr>locks := (locks s)(lk := \<lparr>locked = False, lk_cpu = None\<rparr>)\<rparr>)"

definition holding :: "lockid \<Rightarrow> ('z machine_scheme, bool) kop" where
  "holding lk =
     thenk pushcli (
     bindk mycpu (\<lambda>c.
     bindk (getk (\<lambda>s. locked (locks s lk) \<and> lk_cpu (locks s lk) = Some c)) (\<lambda>r.
     thenk popcli (ret r))))"

definition acquire :: "lockid \<Rightarrow> ('z machine_scheme, unit) kop" where
  "acquire lk =
     thenk pushcli (
     bindk (holding lk) (\<lambda>h.
     if h then panic ''acquire''
     else bindk (getk (\<lambda>s. locked (locks s lk))) (\<lambda>l.
       if l then block
       else thenk (modk (\<lambda>s. s\<lparr>locks := (locks s)(lk := (locks s lk)\<lparr>locked := True\<rparr>)\<rparr>)) (
         bindk mycpu (\<lambda>c.
         modk (\<lambda>s. s\<lparr>locks := (locks s)(lk := (locks s lk)\<lparr>lk_cpu := Some c\<rparr>)\<rparr>))))))"

definition release :: "lockid \<Rightarrow> ('z machine_scheme, unit) kop" where
  "release lk =
     bindk (holding lk) (\<lambda>h.
     if \<not> h then panic ''release''
     else thenk (modk (\<lambda>s. s\<lparr>locks := (locks s)(lk := (locks s lk)\<lparr>lk_cpu := None\<rparr>)\<rparr>)) (
       thenk (modk (\<lambda>s. s\<lparr>locks := (locks s)(lk := (locks s lk)\<lparr>locked := False\<rparr>)\<rparr>))
         popcli))"

subsection \<open>Scheduling primitives: sched, sleep, wakeup\<close>

definition set_proc :: "nat \<Rightarrow> (proc \<Rightarrow> proc) \<Rightarrow> ('z machine_scheme, unit) kop" where
  "set_proc p f = modk (\<lambda>s. s\<lparr>ptable := (ptable s)(p := f (ptable s p))\<rparr>)"

text \<open>\<open>sched\<close> up to its \<open>swtch\<close>: the checks on entry. The context switch itself hands
  the processor to the scheduler, so the callers continue with \<open>block\<close>.\<close>

definition sched :: "('z machine_scheme, unit) kop" where
  "sched =
     bindk myproc (\<lambda>po.
     bindk (holding PtableLock) (\<lambda>h.
     if \<not> h then panic ''sched ptable.lock''
     else bindk mycpu (\<lambda>c.
       bindk (getk (\<lambda>s. ncli (cpus s c))) (\<lambda>n.
       if n \<noteq> 1 then panic ''sched locks''
       else bindk (getk (\<lambda>s. case po of None \<Rightarrow> False | Some p \<Rightarrow> state (ptable s p) = RUNNING)) (\<lambda>r.
         if r then panic ''sched running''
         else bindk (getk fl_if) (\<lambda>i.
           if i then panic ''sched interruptible'' else ret ()))))))"

definition sleep_enter :: "chan \<Rightarrow> lockid \<Rightarrow> ('z machine_scheme, unit) kop" where
  "sleep_enter ch lk =
     bindk myproc (\<lambda>po. case po of None \<Rightarrow> panic ''sleep'' | Some p \<Rightarrow>
       thenk (whenk (lk \<noteq> PtableLock) (thenk (acquire PtableLock) (release lk))) (
       thenk (set_proc p (\<lambda>q. q\<lparr>chan := Some ch\<rparr>)) (
       thenk (set_proc p (\<lambda>q. q\<lparr>state := SLEEPING\<rparr>))
         sched)))"

definition sleep_resume :: "nat \<Rightarrow> lockid \<Rightarrow> ('z machine_scheme, unit) kop" where
  "sleep_resume p lk =
     thenk (set_proc p (\<lambda>q. q\<lparr>chan := None\<rparr>))
       (whenk (lk \<noteq> PtableLock) (thenk (release PtableLock) (acquire lk)))"

definition sleep :: "chan \<Rightarrow> lockid \<Rightarrow> ('z machine_scheme, unit) kop" where
  "sleep ch lk = thenk (sleep_enter ch lk) block"

definition wake :: "chan \<Rightarrow> proc \<Rightarrow> proc" where
  "wake ch p = (if state p = SLEEPING \<and> chan p = Some ch then p\<lparr>state := RUNNABLE\<rparr> else p)"

definition wakeup1 :: "chan \<Rightarrow> ('z machine_scheme, unit) kop" where
  "wakeup1 ch = modk (\<lambda>s. s\<lparr>ptable := (\<lambda>i. if i < NPROC then wake ch (ptable s i) else ptable s i)\<rparr>)"

definition wakeup :: "chan \<Rightarrow> ('z machine_scheme, unit) kop" where
  "wakeup ch = thenk (acquire PtableLock) (thenk (wakeup1 ch) (release PtableLock))"

subsection \<open>Sleep locks\<close>

record sleeplock =
  sl_locked :: bool
  sl_pid :: int

definition cur_pid :: "('z machine_scheme, int) kop" where
  "cur_pid = bindk myproc (\<lambda>po.
     case po of None \<Rightarrow> panic ''null dereference: myproc()'' | Some p \<Rightarrow> getk (\<lambda>s. pid (ptable s p)))"

definition curproc :: "('z machine_scheme, nat) kop" where
  "curproc = bindk myproc (\<lambda>po. case po of None \<Rightarrow> panic ''null dereference: myproc()'' | Some p \<Rightarrow> ret p)"

text \<open>A sleep lock lives in a buffer or an inode: \<open>get\<close> and \<open>put\<close> read and write it there,
  \<open>lk\<close> is the spin lock inside it and \<open>ch\<close> its address as a wait channel.\<close>

definition initsleeplock ::
    "lockid \<Rightarrow> (sleeplock \<Rightarrow> 'z machine_scheme \<Rightarrow> 'z machine_scheme) \<Rightarrow> ('z machine_scheme, unit) kop" where
  "initsleeplock lk put =
     thenk (initlock lk) (modk (put \<lparr>sl_locked = False, sl_pid = 0\<rparr>))"

definition acquiresleep ::
    "lockid \<Rightarrow> chan \<Rightarrow> ('z machine_scheme \<Rightarrow> sleeplock)
     \<Rightarrow> (sleeplock \<Rightarrow> 'z machine_scheme \<Rightarrow> 'z machine_scheme) \<Rightarrow> ('z machine_scheme, unit) kop" where
  "acquiresleep lk ch get put =
     thenk (acquire lk) (
     bindk (getk get) (\<lambda>l.
     if sl_locked l then sleep ch lk
     else bindk cur_pid (\<lambda>p.
       thenk (modk (put \<lparr>sl_locked = True, sl_pid = p\<rparr>))
         (release lk))))"

definition releasesleep ::
    "lockid \<Rightarrow> chan \<Rightarrow> (sleeplock \<Rightarrow> 'z machine_scheme \<Rightarrow> 'z machine_scheme)
     \<Rightarrow> ('z machine_scheme, unit) kop" where
  "releasesleep lk ch put =
     thenk (acquire lk) (
     thenk (modk (put \<lparr>sl_locked = False, sl_pid = 0\<rparr>)) (
     thenk (wakeup ch)
       (release lk)))"

definition holdingsleep ::
    "lockid \<Rightarrow> ('z machine_scheme \<Rightarrow> sleeplock) \<Rightarrow> ('z machine_scheme, bool) kop" where
  "holdingsleep lk get =
     thenk (acquire lk) (
     bindk (getk get) (\<lambda>l.
     bindk cur_pid (\<lambda>p.
     thenk (release lk) (ret (sl_locked l \<and> sl_pid l = p)))))"

subsection \<open>Well-formed processor state\<close>

text \<open>
  \<open>me s\<close> is the running processor. \<open>cpu_ok s\<close>: there is one, its \<open>pushcli\<close> depth is not
  negative, and interrupts are off while the depth is positive. \<open>settled s\<close>: with no
  \<open>pushcli\<close> pending, \<open>intena\<close> agrees with the interrupt flag, as it does from the first
  critical section on.
\<close>

definition me :: "'z machine_scheme \<Rightarrow> nat" where
  "me s = the (find_slot (\<lambda>i. apicid s i = lapicid s) 0 (ncpu s))"

definition cpu_ok :: "'z machine_scheme \<Rightarrow> bool" where
  "cpu_ok s \<longleftrightarrow>
     find_slot (\<lambda>i. apicid s i = lapicid s) 0 (ncpu s) \<noteq> None \<and>
     0 \<le> ncli (cpus s (me s)) \<and> (0 < ncli (cpus s (me s)) \<longrightarrow> \<not> fl_if s)"

definition settled :: "'z machine_scheme \<Rightarrow> bool" where
  "settled s \<longleftrightarrow> (ncli (cpus s (me s)) = 0 \<longrightarrow> intena (cpus s (me s)) = fl_if s)"

definition free_lock :: "lockid \<Rightarrow> 'z machine_scheme \<Rightarrow> bool" where
  "free_lock lk s \<longleftrightarrow> locks s lk = \<lparr>locked = False, lk_cpu = None\<rparr>"

definition held_lock :: "lockid \<Rightarrow> 'z machine_scheme \<Rightarrow> bool" where
  "held_lock lk s \<longleftrightarrow> locks s lk = \<lparr>locked = True, lk_cpu = Some (me s)\<rparr>"

text \<open>The state inside a critical section entered from \<open>s\<close>, and the state on leaving one.\<close>

definition cli_on :: "'z machine_scheme \<Rightarrow> 'z machine_scheme" where
  "cli_on s = s\<lparr>fl_if := False,
     cpus := (cpus s)(me s := (cpus s (me s))\<lparr>
       intena := (if ncli (cpus s (me s)) = 0 then fl_if s else intena (cpus s (me s))),
       ncli := ncli (cpus s (me s)) + 1\<rparr>)\<rparr>"

definition cli_off :: "'z machine_scheme \<Rightarrow> 'z machine_scheme" where
  "cli_off s = s\<lparr>fl_if := (ncli (cpus s (me s)) = 1 \<and> intena (cpus s (me s))),
     cpus := (cpus s)(me s := (cpus s (me s))\<lparr>ncli := ncli (cpus s (me s)) - 1\<rparr>)\<rparr>"

definition enter :: "lockid \<Rightarrow> 'z machine_scheme \<Rightarrow> 'z machine_scheme" where
  "enter lk s = (cli_on s)\<lparr>locks := (locks s)(lk := \<lparr>locked = True, lk_cpu = Some (me s)\<rparr>)\<rparr>"

definition leave :: "lockid \<Rightarrow> 'z machine_scheme \<Rightarrow> 'z machine_scheme" where
  "leave lk s = (cli_off s)\<lparr>locks := (locks s)(lk := \<lparr>locked = False, lk_cpu = None\<rparr>)\<rparr>"

subsection \<open>Lemmas: interrupts\<close>

lemma find_slot_me:
  "cpu_ok s \<Longrightarrow> find_slot (\<lambda>i. apicid s i = lapicid s) 0 (ncpu s) = Some (me s)"
  by (auto simp: cpu_ok_def me_def)

lemma pushcli_run: "cpu_ok s \<Longrightarrow> pushcli s = Ok ((), cli_on s)"
  using find_slot_me [of s]
  by (auto simp: pushcli_def cli_def mycpu_def set_cpu_def run_simps cli_on_def)

lemma popcli_run:
  "cpu_ok s \<Longrightarrow> 0 < ncli (cpus s (me s)) \<Longrightarrow> popcli s = Ok ((), cli_off s)"
  using find_slot_me [of s]
  by (auto simp: popcli_def sti_def mycpu_def set_cpu_def run_simps cpu_ok_def cli_off_def)

lemma me_cli [simp]: "me (cli_on s) = me s" "me (cli_off s) = me s"
  by (simp_all add: me_def cli_on_def cli_off_def)

lemma cpu_ok_cli_on [simp]: "cpu_ok s \<Longrightarrow> cpu_ok (cli_on s)"
  unfolding cpu_ok_def me_cli by (auto simp: cli_on_def)

lemma ncli_cli_on: "ncli (cpus (cli_on s) (me s)) = ncli (cpus s (me s)) + 1"
  by (simp add: cli_on_def)

lemma cli_on_simps [simp]:
  "fl_if (cli_on s) = False"
  "locks (cli_on s) = locks s"
  "ptable (cli_on s) = ptable s"
  "cpu_proc (cpus (cli_on s) c') = cpu_proc (cpus s c')"
  by (simp_all add: cli_on_def)

lemma cli_on_pos [simp]: "cpu_ok s \<Longrightarrow> 0 < ncli (cpus (cli_on s) (me s))"
  by (simp add: cpu_ok_def ncli_cli_on)

lemma settled_cli_on [simp]: "cpu_ok s \<Longrightarrow> settled (cli_on s)"
  unfolding settled_def me_cli by (auto simp: cpu_ok_def ncli_cli_on)

lemma cli_on_settled:
  "settled s \<Longrightarrow> cli_on s = s\<lparr>fl_if := False,
     cpus := (cpus s)(me s := (cpus s (me s))\<lparr>ncli := ncli (cpus s (me s)) + 1\<rparr>)\<rparr>"
proof -
  assume "settled s"
  then have "(if ncli (cpus s (me s)) = 0 then fl_if s else intena (cpus s (me s)))
      = intena (cpus s (me s))"
    by (simp add: settled_def)
  then show ?thesis by (simp add: cli_on_def)
qed

lemma cli_off_on: "cpu_ok s \<Longrightarrow> settled s \<Longrightarrow> cli_off (cli_on s) = s"
proof -
  assume ok: "cpu_ok s" and st: "settled s"
  have "(ncli (cpus s (me s)) = 0 \<and> intena (cpus s (me s))) = fl_if s"
    using ok st by (auto simp: cpu_ok_def settled_def)
  then show ?thesis
    unfolding cli_off_def me_cli by (simp add: cli_on_settled [OF st])
qed

lemma mycpu_run: "cpu_ok s \<Longrightarrow> \<not> fl_if s \<Longrightarrow> mycpu s = Ok (me s, s)"
  by (simp add: mycpu_def run_simps find_slot_me)

lemma myproc_run: "cpu_ok s \<Longrightarrow> settled s \<Longrightarrow> myproc s = Ok (cpu_proc (cpus s (me s)), s)"
  by (simp add: myproc_def run_simps pushcli_run mycpu_run popcli_run cli_off_on)

lemma settled_pos [simp]: "0 < ncli (cpus s (me s)) \<Longrightarrow> settled s"
  by (simp add: settled_def)

subsection \<open>Lemmas: spin locks\<close>

lemma holding_run:
  "cpu_ok s \<Longrightarrow> settled s \<Longrightarrow>
   holding lk s = Ok (locked (locks s lk) \<and> lk_cpu (locks s lk) = Some (me s), s)"
  by (simp add: holding_def run_simps pushcli_run mycpu_run popcli_run cli_off_on)

lemma acquire_run:
  assumes "cpu_ok s" "free_lock lk s"
  shows "acquire lk s = Ok ((), enter lk s)"
proof -
  have "holding lk (cli_on s) = Ok (False, cli_on s)"
    using assms by (subst holding_run) (auto simp: free_lock_def)
  moreover have "find_slot (\<lambda>i. apicid (cli_on s) i = lapicid (cli_on s)) 0 (ncpu (cli_on s)) = Some (me s)"
    using find_slot_me [OF cpu_ok_cli_on [OF assms(1)]] by simp
  ultimately show ?thesis
    using assms
    by (simp add: acquire_def run_simps pushcli_run enter_def free_lock_def mycpu_def)
qed

lemma acquire_self: "cpu_ok s \<Longrightarrow> held_lock lk s \<Longrightarrow> acquire lk s = Panic ''acquire''"
  by (simp add: acquire_def run_simps pushcli_run holding_run held_lock_def)

lemma acquire_other:
  "cpu_ok s \<Longrightarrow> locked (locks s lk) \<Longrightarrow> lk_cpu (locks s lk) \<noteq> Some (me s) \<Longrightarrow>
   acquire lk s = Blocked (cli_on s)"
  by (simp add: acquire_def run_simps pushcli_run holding_run)

lemma release_run:
  assumes "cpu_ok s" "held_lock lk s" "0 < ncli (cpus s (me s))"
  shows "release lk s = Ok ((), leave lk s)"
  using assms find_slot_me [OF assms(1)]
  by (auto simp: release_def run_simps holding_run held_lock_def popcli_def mycpu_def cpu_ok_def
      set_cpu_def sti_def leave_def cli_off_def)

lemma release_unheld:
  "cpu_ok s \<Longrightarrow> settled s \<Longrightarrow> \<not> (locked (locks s lk) \<and> lk_cpu (locks s lk) = Some (me s)) \<Longrightarrow>
   release lk s = Panic ''release''"
  by (simp add: release_def run_simps holding_run)

lemma enter_simps [simp]:
  "me (enter lk s) = me s" "fl_if (enter lk s) = False" "ptable (enter lk s) = ptable s"
  "locks (enter lk s) = (locks s)(lk := \<lparr>locked = True, lk_cpu = Some (me s)\<rparr>)"
  "cpu_proc (cpus (enter lk s) c) = cpu_proc (cpus s c)"
  "lapicid (enter lk s) = lapicid s" "apicid (enter lk s) = apicid s" "ncpu (enter lk s) = ncpu s"
  by (simp_all add: enter_def me_def cli_on_def)

lemma cpu_ok_enter [simp]: "cpu_ok s \<Longrightarrow> cpu_ok (enter lk s)"
  unfolding cpu_ok_def enter_simps by (auto simp: enter_def cli_on_def)

lemma ncli_enter: "ncli (cpus (enter lk s) (me s)) = ncli (cpus s (me s)) + 1"
  by (simp add: enter_def ncli_cli_on)

lemma enter_pos [simp]: "cpu_ok s \<Longrightarrow> 0 < ncli (cpus (enter lk s) (me s))"
  by (simp add: cpu_ok_def ncli_enter)

lemma settled_enter [simp]: "cpu_ok s \<Longrightarrow> settled (enter lk s)"
  unfolding settled_def enter_simps by (auto simp: cpu_ok_def ncli_enter)

lemma free_lock_enter [simp]: "free_lock l (enter lk s) = (l \<noteq> lk \<and> free_lock l s)"
  by (simp add: free_lock_def)

text \<open>Leaving a critical section restores what entering it changed, whatever the section
  did to the rest of the state.\<close>

lemma crit:
  assumes "cpu_ok s" "settled s" "free_lock lk s"
    and "lapicid t = lapicid s" "apicid t = apicid s" "ncpu t = ncpu s" "\<not> fl_if t"
      "cpus t = cpus (enter lk s)" "locks t = locks (enter lk s)"
  shows "release lk t = Ok ((), t\<lparr>fl_if := fl_if s, cpus := cpus s, locks := locks s\<rparr>)"
proof -
  have me: "me t = me s" using assms by (simp add: me_def)
  have ok: "cpu_ok t" "0 < ncli (cpus t (me t))" "held_lock lk t"
    using assms cpu_ok_enter [OF assms(1), of lk]
    by (auto simp: cpu_ok_def me held_lock_def)
  have sv: "cpus (enter lk s) = (cpus s)(me s := (cpus s (me s))\<lparr>ncli := ncli (cpus s (me s)) + 1\<rparr>)"
    using assms(2) by (simp add: enter_def cli_on_settled)
  have i: "(ncli (cpus s (me s)) = 0 \<and> intena (cpus s (me s))) = fl_if s"
    using assms(1,2) by (auto simp: cpu_ok_def settled_def)
  have c: "(cpus t)(me t := (cpus t (me t))\<lparr>ncli := ncli (cpus t (me t)) - 1\<rparr>) = cpus s"
    using assms(8) me by (simp add: sv)
  have l: "(locks t)(lk := \<lparr>locked = False, lk_cpu = None\<rparr>) = locks s"
    using assms(3,9) by (simp add: free_lock_def fun_upd_idem)
  have f: "(ncli (cpus t (me t)) = 1 \<and> intena (cpus t (me t))) = fl_if s"
    using assms(8) me i by (simp add: sv)
  show ?thesis
    unfolding release_run [OF ok(1,3,2)] leave_def cli_off_def c l f by simp
qed

lemma acquire_release:
  "cpu_ok s \<Longrightarrow> settled s \<Longrightarrow> free_lock lk s \<Longrightarrow> thenk (acquire lk) (release lk) s = Ok ((), s)"
  by (simp add: run_simps acquire_run crit [of s]) (simp add: enter_def cli_on_def)

subsection \<open>Lemmas: wakeup and the current process\<close>

definition wake_all :: "chan \<Rightarrow> (nat \<Rightarrow> proc) \<Rightarrow> nat \<Rightarrow> proc" where
  "wake_all ch pt = (\<lambda>i. if i < NPROC then wake ch (pt i) else pt i)"

lemma wake_simps [simp]:
  "pid (wake ch p) = pid p" "parent (wake ch p) = parent p" "killed (wake ch p) = killed p"
  "ofile (wake ch p) = ofile p" "cwd (wake ch p) = cwd p" "chan (wake ch p) = chan p"
  by (simp_all add: wake_def)

lemma wake_all_simps [simp]:
  "pid (wake_all ch pt i) = pid (pt i)" "parent (wake_all ch pt i) = parent (pt i)"
  "killed (wake_all ch pt i) = killed (pt i)" "ofile (wake_all ch pt i) = ofile (pt i)"
  "cwd (wake_all ch pt i) = cwd (pt i)"
  by (simp_all add: wake_all_def)

lemma wakeup_run:
  "cpu_ok s \<Longrightarrow> settled s \<Longrightarrow> free_lock PtableLock s \<Longrightarrow>
   wakeup ch s = Ok ((), s\<lparr>ptable := wake_all ch (ptable s)\<rparr>)"
  by (simp add: wakeup_def wakeup1_def run_simps acquire_run crit [of s] wake_all_def [symmetric])
     (simp add: enter_def cli_on_def)

lemma cur_pid_run:
  "cpu_ok s \<Longrightarrow> settled s \<Longrightarrow> cpu_proc (cpus s (me s)) = Some p \<Longrightarrow>
   cur_pid s = Ok (pid (ptable s p), s)"
  by (simp add: cur_pid_def run_simps myproc_run)

lemma curproc_run:
  "cpu_ok s \<Longrightarrow> settled s \<Longrightarrow> cpu_proc (cpus s (me s)) = Some p \<Longrightarrow> curproc s = Ok (p, s)"
  by (simp add: curproc_def run_simps myproc_run)

subsection \<open>Lemmas: going to sleep\<close>

lemma leave_simps [simp]:
  "me (leave lk s) = me s" "ptable (leave lk s) = ptable s"
  "locks (leave lk s) = (locks s)(lk := \<lparr>locked = False, lk_cpu = None\<rparr>)"
  "cpu_proc (cpus (leave lk s) c) = cpu_proc (cpus s c)"
  "ncli (cpus (leave lk s) (me s)) = ncli (cpus s (me s)) - 1"
  by (simp_all add: leave_def me_def cli_off_def)

lemma cpu_ok_leave: "cpu_ok s \<Longrightarrow> 1 < ncli (cpus s (me s)) \<Longrightarrow> cpu_ok (leave lk s)"
  unfolding cpu_ok_def leave_simps by (auto simp: leave_def cli_off_def)

lemma sched_run:
  assumes "cpu_ok s" "held_lock PtableLock s" "ncli (cpus s (me s)) = 1"
    and "cpu_proc (cpus s (me s)) = Some p" "state (ptable s p) \<noteq> RUNNING"
  shows "sched s = Ok ((), s)"
  using assms
  by (simp add: sched_def run_simps myproc_run holding_run held_lock_def mycpu_def find_slot_me)
     (simp add: cpu_ok_def)

text \<open>A thread that holds just \<open>lk\<close> and sleeps ends up asleep on \<open>ch\<close> with \<open>lk\<close> released
  and the process table locked: no wakeup can fall in between.\<close>

text \<open>The state in which process \<open>p\<close> gives up the processor: asleep on \<open>ch\<close>, with \<open>lk\<close> exchanged for the
  lock of the process table.\<close>

definition asleep :: "nat \<Rightarrow> chan \<Rightarrow> lockid \<Rightarrow> 'z machine_scheme \<Rightarrow> 'z machine_scheme" where
  "asleep p ch lk s = (leave lk (enter PtableLock s))
     \<lparr>ptable := (ptable s)(p := (ptable s p)\<lparr>chan := Some ch, state := SLEEPING\<rparr>)\<rparr>"

lemma sleep_enter_run:
  assumes "cpu_ok s" "held_lock lk s" "lk \<noteq> PtableLock" "free_lock PtableLock s"
    and "ncli (cpus s (me s)) = 1" "cpu_proc (cpus s (me s)) = Some p"
  shows "sleep_enter ch lk s = Ok ((), asleep p ch lk s)"
proof -
  let ?t = "leave lk (enter PtableLock s)"
  let ?u = "?t\<lparr>ptable := (ptable s)(p := (ptable s p)\<lparr>chan := Some ch, state := SLEEPING\<rparr>)\<rparr>"
  have st: "settled s" using assms by simp
  have rel: "release lk (enter PtableLock s) = Ok ((), ?t)"
    using assms by (intro release_run) (simp_all add: held_lock_def)
  have n: "ncli (cpus (enter PtableLock s) (me (enter PtableLock s))) = 2"
    using assms by (simp add: ncli_enter)
  have tok: "cpu_ok ?t"
    using assms n by (intro cpu_ok_leave) simp_all
  have u: "cpu_ok ?u" "me ?u = me s" using tok by (simp_all add: cpu_ok_def me_def)
       (simp_all add: leave_def cli_off_def enter_def cli_on_def)
  have tn: "ncli (cpus ?t (me s)) = 1"
    using leave_simps(5) [of lk "enter PtableLock s"] assms by (simp add: ncli_enter)
  have "sched ?u = Ok ((), ?u)"
    using assms u tn by (intro sched_run [of _ p]) (simp_all add: held_lock_def)
  then show ?thesis
    using assms st
    by (simp add: sleep_enter_def run_simps myproc_run acquire_run rel set_proc_def asleep_def)
qed

end
