(* ===== verification/Sleeplock.thy ===== *)
theory Sleeplock
  imports Machine
begin

text \<open>
  The contract of a sleep lock (\<open>sleeplock.c\<close>), stated once for any place a
  \<open>struct sleeplock\<close> lives in. The locale \<open>sleep_lock\<close> fixes how the lock is read and
  written (\<open>get\<close>, \<open>put\<close>), and assumes that this touches nothing of the machine
  itself. The buffer cache interprets it for \<open>b->lock\<close>, the inode cache for
  \<open>ip->lock\<close>. Also here: the state of a kernel thread that holds no spin lock, and what a
  critical section does to it.
\<close>

definition relock :: "bool \<Rightarrow> (nat \<Rightarrow> cpu) \<Rightarrow> (lockid \<Rightarrow> spinlock) \<Rightarrow> (nat \<Rightarrow> proc)
     \<Rightarrow> 'z machine_scheme \<Rightarrow> 'z machine_scheme" where
  "relock a b c d s = s\<lparr>fl_if := a, cpus := b, locks := c, ptable := d\<rparr>"

text \<open>The conditions under which a thread of the kernel calls these routines: process
  \<open>p\<close> runs on a well-formed processor.\<close>

definition runs :: "'z machine_scheme \<Rightarrow> nat \<Rightarrow> bool" where
  "runs s p \<longleftrightarrow> cpu_ok s \<and> settled s \<and> cpu_proc (cpus s (me s)) = Some p"

lemma runs_enter [simp]: "runs s p \<Longrightarrow> runs (enter lk s) p"
  by (simp add: runs_def)

lemma runs_cong:
  assumes "runs s p" "lapicid t = lapicid s" "fl_if t = fl_if s" "apicid t = apicid s"
    "cpus t = cpus s" "ncpu t = ncpu s"
  shows "runs t p"
  using assms by (auto simp: runs_def cpu_ok_def settled_def me_def)

lemma runs_ptable [simp]: "runs (s\<lparr>ptable := d\<rparr>) p = runs s p"
  by (simp add: runs_def cpu_ok_def settled_def me_def)

lemma free_lock_ptable [simp]: "free_lock l (s\<lparr>ptable := d\<rparr>) = free_lock l s"
  by (simp add: free_lock_def)

locale sleep_lock =
  fixes lk :: lockid and ch :: chan
    and get :: "'z machine_scheme \<Rightarrow> sleeplock"
    and put :: "sleeplock \<Rightarrow> 'z machine_scheme \<Rightarrow> 'z machine_scheme"
  assumes get_relock: "get (relock a b c d s) = get s"
    and put_relock: "put l (relock a b c d s) = relock a b c d (put l s)"
    and put_machine: "lapicid (put l s) = lapicid s" "fl_if (put l s) = fl_if s"
      "apicid (put l s) = apicid s" "cpus (put l s) = cpus s" "ncpu (put l s) = ncpu s"
      "locks (put l s) = locks s" "ptable (put l s) = ptable s"
    and get_put: "get (put l s) = l"
    and lk_ptable: "lk \<noteq> PtableLock"
begin

lemma enter_relock:
  "enter lk' s = relock False (cpus (enter lk' s)) (locks (enter lk' s)) (ptable s) s"
  by (simp add: enter_def relock_def cli_on_def)

lemma get_enter: "get (enter lk' s) = get s"
  by (subst enter_relock) (rule get_relock)

lemma put_runs: "runs s p \<Longrightarrow> runs (put l s) p"
  by (erule runs_cong) (simp_all add: put_machine)

lemma put_enter: "put l (enter lk' s) =
    (put l s)\<lparr>fl_if := False, cpus := cpus (enter lk' s), locks := locks (enter lk' s)\<rparr>"
proof -
  have "put l (enter lk' s) =
      relock False (cpus (enter lk' s)) (locks (enter lk' s)) (ptable s) (put l s)"
    by (subst enter_relock) (rule put_relock)
  then show ?thesis by (simp add: relock_def put_machine(7) [of l s, symmetric])
qed

lemma acquiresleep_free:
  assumes "runs s p" "free_lock lk s" "\<not> sl_locked (get s)"
  shows "acquiresleep lk ch get put s =
    Ok ((), put \<lparr>sl_locked = True, sl_pid = pid (ptable s p)\<rparr> s)"
proof -
  have "cur_pid (enter lk s) = Ok (pid (ptable s p), enter lk s)"
    using assms by (subst cur_pid_run [of _ p]) (simp_all add: runs_def)
  then show ?thesis
    using assms
    by (simp add: acquiresleep_def run_simps acquire_run runs_def get_enter put_enter put_machine
        crit [of s])
qed

lemma acquiresleep_held:
  assumes "runs s p" "free_lock lk s" "free_lock PtableLock s" "ncli (cpus s (me s)) = 0"
    and "sl_locked (get s)"
  shows "acquiresleep lk ch get put s = Blocked (asleep p ch lk (enter lk s))"
proof -
  have "sleep_enter ch lk (enter lk s) =
Ok ((), asleep p ch lk (enter lk s))"
    using assms lk_ptable by (subst sleep_enter_run [where p = p]) (simp_all add: runs_def ncli_enter held_lock_def)
  then show ?thesis
    using assms
    by (simp add: acquiresleep_def run_simps acquire_run runs_def get_enter sleep_def)
qed

lemma holdingsleep_eq:
  assumes "runs s p" "free_lock lk s"
  shows "holdingsleep lk get s =
    Ok (sl_locked (get s) \<and> sl_pid (get s) = pid (ptable s p), s)"
proof -
  have "cur_pid (enter lk s) = Ok (pid (ptable s p), enter lk s)"
    using assms by (subst cur_pid_run [of _ p]) (simp_all add: runs_def)
  then show ?thesis
    using assms
    by (simp add: holdingsleep_def run_simps acquire_run runs_def get_enter crit [of s])
       (simp add: enter_def cli_on_def)
qed

lemma releasesleep_eq:
  assumes "runs s p" "free_lock lk s" "free_lock PtableLock s"
  shows "releasesleep lk ch put s =
    Ok ((), (put \<lparr>sl_locked = False, sl_pid = 0\<rparr> s)\<lparr>ptable := wake_all ch (ptable s)\<rparr>)"
proof -
  let ?u = "put \<lparr>sl_locked = False, sl_pid = 0\<rparr> s"
  let ?t = "?u\<lparr>fl_if := False, cpus := cpus (enter lk s), locks := locks (enter lk s)\<rparr>"
  have "cpu_ok ?t" "settled ?t" "free_lock PtableLock ?t"
    using cpu_ok_enter [of s lk] settled_enter [of s lk] assms lk_ptable
    by (simp_all add: runs_def cpu_ok_def settled_def me_def put_machine free_lock_def)
  then have "wakeup ch ?t = Ok ((), ?t\<lparr>ptable := wake_all ch (ptable s)\<rparr>)"
    by (simp add: wakeup_run put_machine)
  then show ?thesis
    using assms
    by (simp add: releasesleep_def run_simps acquire_run runs_def put_enter crit [of s] put_machine)
qed

end

subsection \<open>The state between two operations\<close>

text \<open>\<open>idle s p\<close>: process \<open>p\<close> runs and no spin lock is held.\<close>

definition idle :: "'z machine_scheme \<Rightarrow> nat \<Rightarrow> bool" where
  "idle s p \<longleftrightarrow> runs s p \<and> (\<forall>lk. free_lock lk s)"

lemma idle_runs: "idle s p \<Longrightarrow> runs s p"
  and idle_free: "idle s p \<Longrightarrow> free_lock lk s"
  and idle_ok: "idle s p \<Longrightarrow> cpu_ok s" "idle s p \<Longrightarrow> settled s"
  by (simp_all add: idle_def runs_def)

lemma idle_cong:
  assumes "lapicid t = lapicid s" "fl_if t = fl_if s" "apicid t = apicid s" "cpus t = cpus s" "ncpu t = ncpu s"
    "locks t = locks s"
  shows "idle t p = idle s p"
  using assms by (simp add: idle_def runs_def cpu_ok_def settled_def me_def free_lock_def)

lemma idle_ptable [simp]: "idle (s\<lparr>ptable := x\<rparr>) p = idle s p"
  by (rule idle_cong) simp_all

text \<open>A critical section entered from \<open>s\<close>, where it finds the processors \<open>C\<close> and the locks \<open>L\<close>:
  \<open>inside s C L t\<close> says that \<open>t\<close> is a state of it.\<close>

definition inside :: "'z machine_scheme \<Rightarrow> (nat \<Rightarrow> cpu) \<Rightarrow> (lockid \<Rightarrow> spinlock) \<Rightarrow> 'z machine_scheme \<Rightarrow> bool" where
  [simp]: "inside s C L t \<longleftrightarrow> lapicid t = lapicid s \<and> apicid t = apicid s \<and> ncpu t = ncpu s \<and> \<not> fl_if t \<and>
     cpus t = C \<and> locks t = L"

lemma critical_section:
  assumes "idle s p"
  obtains C L where "acquire lk s = Ok ((), s\<lparr>fl_if := False, cpus := C, locks := L\<rparr>)"
    "\<forall>t. inside s C L t \<longrightarrow> release lk t = Ok ((), t\<lparr>fl_if := fl_if s, cpus := cpus s, locks := locks s\<rparr>)"
    "\<forall>t. inside s C L t \<longrightarrow> cpu_ok t \<and> settled t \<and> cpu_proc (cpus t (me t)) = Some p \<and>
       held_lock lk t \<and> (\<forall>l. l \<noteq> lk \<longrightarrow> free_lock l t)"
    "ncli (cpus s (me s)) = 0 \<longrightarrow> lk \<noteq> PtableLock \<longrightarrow> (\<forall>t ch. inside s C L t \<longrightarrow> sleep ch lk t = Blocked (asleep p ch lk t))"
proof (rule that)
  let ?C = "cpus (enter lk s)" and ?L = "locks (enter lk s)"
  show "acquire lk s = Ok ((), s\<lparr>fl_if := False, cpus := ?C, locks := ?L\<rparr>)"
    unfolding acquire_run [OF idle_ok(1) [OF assms] idle_free [OF assms]]
    by (simp add: enter_def cli_on_def)
  have "release lk t = Ok ((), t\<lparr>fl_if := fl_if s, cpus := cpus s, locks := locks s\<rparr>)" if "inside s ?C ?L t" for t
    using that by (intro crit [OF idle_ok [OF assms] idle_free [OF assms]]) simp_all
  then show "\<forall>t. inside s ?C ?L t \<longrightarrow>
      release lk t = Ok ((), t\<lparr>fl_if := fl_if s, cpus := cpus s, locks := locks s\<rparr>)" by blast
  have "cpu_ok t \<and> settled t \<and> cpu_proc (cpus t (me t)) = Some p \<and> held_lock lk t \<and>
      (\<forall>l. l \<noteq> lk \<longrightarrow> free_lock l t)" if t: "inside s ?C ?L t" for t
  proof -
    have me: "me t = me s" using t by (simp add: me_def)
    have "free_lock l t" if "l \<noteq> lk" for l
      using that t idle_free [OF assms, of l] by (simp add: free_lock_def)
    then show ?thesis
      using t assms cpu_ok_enter [of s lk] settled_enter [of s lk]
      by (auto simp: idle_def runs_def cpu_ok_def settled_def me held_lock_def)
  qed
  then show all: "\<forall>t. inside s ?C ?L t \<longrightarrow> cpu_ok t \<and> settled t \<and> cpu_proc (cpus t (me t)) = Some p \<and>
      held_lock lk t \<and> (\<forall>l. l \<noteq> lk \<longrightarrow> free_lock l t)" by blast
  have "sleep ch lk t = Blocked (asleep p ch lk t)" if n: "ncli (cpus s (me s)) = 0" "lk \<noteq> PtableLock" and t: "inside s ?C ?L t" for t ch
  proof -
    have "me t = me s" using t by (simp add: me_def)
    then have "ncli (cpus t (me t)) = 1" using t n(1) by (simp add: ncli_enter)
    moreover have "cpu_ok t" "held_lock lk t" "free_lock PtableLock t" "cpu_proc (cpus t (me t)) = Some p"
      using all t n(2) by (auto simp del: inside_def)
    ultimately show ?thesis using n(2) sleep_enter_run [of t lk p ch] by (simp add: sleep_def run_simps)
  qed
  then show "ncli (cpus s (me s)) = 0 \<longrightarrow> lk \<noteq> PtableLock \<longrightarrow> (\<forall>t ch. inside s ?C ?L t \<longrightarrow> sleep ch lk t = Blocked (asleep p ch lk t))"
    by blast
qed

subsection \<open>A concrete machine\<close>

text \<open>One processor that runs process 0, with no lock held; \<open>z\<close> is the state of the components
  above. The witnesses of the later theories start from it.\<close>

definition zero_tf :: trapframe where
  "zero_tf = \<lparr>tf_edi = 0, tf_esi = 0, tf_ebp = 0, tf_oesp = 0, tf_ebx = 0, tf_edx = 0, tf_ecx = 0, tf_eax = 0,
     tf_gs = 0, tf_fs = 0, tf_es = 0, tf_ds = 0, tf_trapno = 0, tf_err = 0, tf_eip = 0, tf_cs = 0, tf_eflags = 0,
     tf_esp = 0, tf_ss = 0\<rparr>"

definition demo_proc :: "nat \<Rightarrow> proc" where
  "demo_proc i = \<lparr>sz = 0, pgdir = 0, kstack = 0, state = (if i = 0 then RUNNING else UNUSED),
     pid = (if i = 0 then 1 else 0), parent = None, tf = zero_tf,
     kctx = \<lparr>cx_edi = 0, cx_esi = 0, cx_ebx = 0, cx_ebp = 0, cx_eip = Sched\<rparr>, chan = None,
     killed = False, ofile = (\<lambda>_. None), cwd = None, pname = []\<rparr>"

definition demo_machine :: "'z \<Rightarrow> 'z machine_scheme" where
  "demo_machine z = \<lparr>lapicid = 0, fl_if = True, apicid = (\<lambda>i. i),
     cpus = (\<lambda>c. \<lparr>ncli = 0, intena = True, cpu_proc = (if c = 0 then Some 0 else None)\<rparr>), ncpu = 1,
     locks = (\<lambda>_. \<lparr>locked = False, lk_cpu = None\<rparr>), ptable = demo_proc, nextpid = 2,
     initproc = Some 0, \<dots> = z\<rparr>"

lemma demo_machine_idle: "idle (demo_machine z) 0"
  by (simp add: idle_def runs_def cpu_ok_def settled_def me_def free_lock_def demo_machine_def
      find_slot.simps)

end
