(* ===== verification/Console.thy ===== *)
theory Console
  imports Sleeplock
begin

unbundle bit_operations_syntax

text \<open>
  Console output (\<open>console.c\<close>, \<open>uart.c\<close>): number formatting, \<open>cprintf\<close>, the CGA screen
  with its cursor and scrolling, and the serial port. The line editor and the device's read
  and write entry points are in the theory \<open>Tty\<close>, above the inode layer they call.

  The screen memory is \<open>crt\<close>, a cell per position, and \<open>cursor\<close> is the position that the two
  cursor registers of the CRT controller hold. \<open>uart_out\<close> is what the serial port was sent;
  waiting for its transmitter has no effect on the kernel's state. Characters travel as their
  codes, since \<open>BACKSPACE\<close> is the code 256. A call of \<open>cprintf\<close> passes a list of typed
  arguments; a conversion without a fitting argument is undefined in C and panics here.

  Shown: a number is printed as its digits, most significant first, in a buffer that cannot
  overflow; the cursor always stays on the screen; printing never panics and touches nothing
  but the console.
\<close>

subsection \<open>Data\<close>

record input_buf =
  in_buf :: "nat \<Rightarrow> nat"
  in_r :: uint
  in_w :: uint
  in_e :: uint

record console = machine +
  panicked :: bool
  cons_locking :: bool
  crt :: "nat \<Rightarrow> nat"
  cursor :: nat
  uart :: bool
  uart_out :: "nat list"
  uart_in :: "byte list"
  input :: input_buf

datatype carg = Num uint | Str "string option"

abbreviation (input) BACKSPACE :: nat where "BACKSPACE \<equiv> 256"
abbreviation (input) NEWLINE :: nat where "NEWLINE \<equiv> 10"

subsection \<open>The devices\<close>

definition uartputc :: "nat \<Rightarrow> ('z console_scheme, unit) kop" where
  "uartputc c = modk (\<lambda>s. if uart s then s\<lparr>uart_out := uart_out s @ [c mod 256]\<rparr> else s)"

definition cga_move :: "nat \<Rightarrow> nat \<Rightarrow> (nat \<Rightarrow> nat) \<Rightarrow> nat \<times> (nat \<Rightarrow> nat)" where
  "cga_move c pos m =
     (if c = NEWLINE then (pos + (80 - pos mod 80), m)
      else if c = BACKSPACE then (if 0 < pos then pos - 1 else pos, m)
      else (pos + 1, m(pos := or (c mod 256) 0x0700)))"

definition cga_scroll :: "nat \<Rightarrow> (nat \<Rightarrow> nat) \<Rightarrow> nat \<times> (nat \<Rightarrow> nat)" where
  "cga_scroll pos m =
     (if 24 \<le> pos div 80
      then let m = (\<lambda>i. if i < 23 * 80 then m (i + 80) else m i);
               pos = pos - 80
           in (pos, \<lambda>i. if pos \<le> i \<and> i < 24 * 80 then 0 else m i)
      else (pos, m))"

definition cgaputc :: "nat \<Rightarrow> ('z console_scheme, unit) kop" where
  "cgaputc c =
     bindk (getk (\<lambda>s. cga_move c (cursor s) (crt s))) (\<lambda>(pos, m).
     thenk (modk (\<lambda>s. s\<lparr>crt := m\<rparr>)) (
     if 25 * 80 < pos then panic ''pos under/overflow''
     else (case cga_scroll pos m of (pos, m) \<Rightarrow>
       modk (\<lambda>s. s\<lparr>cursor := pos, crt := m(pos := or 32 0x0700)\<rparr>))))"

definition consputc :: "nat \<Rightarrow> ('z console_scheme, unit) kop" where
  "consputc c =
     bindk (getk panicked) (\<lambda>b.
     if b then thenk cli block
     else thenk
       (if c = BACKSPACE then thenk (uartputc 8) (thenk (uartputc 32) (uartputc 8)) else uartputc c)
       (cgaputc c))"

definition consputs :: "string \<Rightarrow> ('z console_scheme, unit) kop" where
  "consputs xs = for_each xs (\<lambda>c. consputc (of_char c))"

subsection \<open>Numbers\<close>

text \<open>The digits in the order the \<open>do\<close> loop stores them, the least significant first. The
  callers pass base 10 or 16.\<close>

function digit_loop :: "string \<Rightarrow> nat \<Rightarrow> nat \<Rightarrow> string" where
  "digit_loop digits base x =
     digits ! (x mod base) #
     (if x div base \<noteq> 0 \<and> 2 \<le> base then digit_loop digits base (x div base) else [])"
  by pat_completeness auto
termination
  by (relation "measure (\<lambda>(d, b, x). x)") (auto intro!: div_less_dividend gr0I)

declare digit_loop.simps [simp del]

definition int_chars :: "string \<Rightarrow> uint \<Rightarrow> nat \<Rightarrow> bool \<Rightarrow> string" where
  "int_chars digits xx base sg =
     (let neg = sg \<and> sint xx < 0;
          x = (if neg then - xx else xx)
      in digit_loop digits base (unat x) @ (if neg then ''-'' else []))"

definition printint :: "uint \<Rightarrow> nat \<Rightarrow> bool \<Rightarrow> ('z console_scheme, unit) kop" where
  "printint xx base sg = consputs (rev (int_chars ''0123456789abcdef'' xx base sg))"

subsection \<open>Formatted output\<close>

fun print_conv :: "char \<Rightarrow> carg list \<Rightarrow> ('z console_scheme, carg list) kop" where
  "print_conv c args =
     (if c = CHR ''d'' then
        (case args of Num x # as \<Rightarrow> thenk (printint x 10 True) (ret as) | _ \<Rightarrow> panic ''bad argument'')
      else if c = CHR ''x'' \<or> c = CHR ''p'' then
        (case args of Num x # as \<Rightarrow> thenk (printint x 16 False) (ret as) | _ \<Rightarrow> panic ''bad argument'')
      else if c = CHR ''s'' then
        (case args of Str None # as \<Rightarrow> thenk (consputs ''(null)'') (ret as)
         | Str (Some t) # as \<Rightarrow> thenk (consputs t) (ret as)
         | _ \<Rightarrow> panic ''bad argument'')
      else if c = CHR ''%'' then thenk (consputs ''%'') (ret args)
      else thenk (consputs ''%'') (thenk (consputs [c]) (ret args)))"

fun print_fmt :: "string \<Rightarrow> carg list \<Rightarrow> ('z console_scheme, unit) kop" where
  "print_fmt [] args = ret ()"
| "print_fmt (c # fmt) args =
     (if c \<noteq> CHR ''%'' then thenk (consputs [c]) (print_fmt fmt args)
      else (case fmt of [] \<Rightarrow> ret ()
        | d # rest \<Rightarrow> bindk (print_conv d args) (\<lambda>args. print_fmt rest args)))"

definition cprintf :: "string \<Rightarrow> carg list \<Rightarrow> ('z console_scheme, unit) kop" where
  "cprintf fmt args =
     bindk (getk cons_locking) (\<lambda>locking.
     thenk (whenk locking (acquire ConsLock)) (
     thenk (print_fmt fmt args)
       (whenk locking (release ConsLock))))"

subsection \<open>What printing does\<close>

text \<open>\<open>emits xs s t\<close>: \<open>t\<close> is \<open>s\<close> but for the screen, the cursor (still on the screen) and the
  serial port, which was sent \<open>xs\<close> if there is one.\<close>

definition emits :: "nat list \<Rightarrow> 'z console_scheme \<Rightarrow> 'z console_scheme \<Rightarrow> bool" where
  "emits xs s t \<longleftrightarrow>
     (\<exists>m c. t = s\<lparr>crt := m, cursor := c, uart_out := (if uart s then uart_out s @ xs else uart_out s)\<rparr> \<and>
        c \<le> 24 * 80)"

definition cons_ok :: "'z console_scheme \<Rightarrow> bool" where
  "cons_ok s \<longleftrightarrow> \<not> panicked s \<and> cursor s \<le> 24 * 80"

lemma emits_refl: "cons_ok s \<Longrightarrow> emits [] s s"
  unfolding emits_def cons_ok_def by (rule exI [of _ "crt s"], rule exI [of _ "cursor s"]) simp

lemma emits_trans: "emits xs s t \<Longrightarrow> emits ys t u \<Longrightarrow> emits (xs @ ys) s u"
proof -
  assume "emits xs s t" "emits ys t u"
  then obtain m c where u: "u = s\<lparr>crt := m, cursor := c,
      uart_out := (if uart s then uart_out s @ (xs @ ys) else uart_out s)\<rparr>" "c \<le> 1920"
    by (cases "uart s") (auto simp: emits_def)
  then show ?thesis unfolding emits_def by auto
qed

lemma emits_ok: "cons_ok s \<Longrightarrow> emits xs s t \<Longrightarrow> cons_ok t"
  by (auto simp: emits_def cons_ok_def)

lemma newline_bound: "pos \<le> 1920 \<Longrightarrow> pos + (80 - pos mod 80) \<le> (2000 :: nat)"
proof -
  assume p: "pos \<le> 1920"
  have "pos = 80 * (pos div 80) + pos mod 80" "pos mod 80 < 80" "pos div 80 \<le> 24" using p by simp_all
  then show ?thesis by linarith
qed

lemma cga_move_bound: "pos \<le> 1920 \<Longrightarrow> fst (cga_move c pos m) \<le> 2000"
  using newline_bound [of pos] by (auto simp: cga_move_def)

lemma cga_scroll_bound: "pos \<le> 2000 \<Longrightarrow> fst (cga_scroll pos m) \<le> 1920"
  by (auto simp: cga_scroll_def Let_def)

lemma cgaputc_run:
  assumes "cursor s \<le> 1920"
  obtains pos m where "cgaputc c s = Ok ((), s\<lparr>crt := m, cursor := pos\<rparr>)" "pos \<le> 1920"
proof -
  obtain pos m where pm: "cga_move c (cursor s) (crt s) = (pos, m)" by fastforce
  then have pos: "pos \<le> 2000" using cga_move_bound [OF assms, of c "crt s"] by simp
  obtain pos' m' where pm': "cga_scroll pos m = (pos', m')" by fastforce
  then have pos': "pos' \<le> 1920" using cga_scroll_bound [OF pos, of m] by simp
  have "cgaputc c s = Ok ((), s\<lparr>crt := m'(pos' := or 32 0x0700), cursor := pos'\<rparr>)"
    using pos by (simp add: cgaputc_def run_simps pm pm')
  then show ?thesis using pos' that by blast
qed

lemma uartputc_run:
  "uartputc c s = Ok ((), s\<lparr>uart_out := (if uart s then uart_out s @ [c mod 256] else uart_out s)\<rparr>)"
  by (simp add: uartputc_def run_simps)

definition serial :: "nat \<Rightarrow> nat list" where
  "serial c = (if c = BACKSPACE then [8, 32, 8] else [c mod 256])"

lemma consputc_emits:
  assumes ok: "cons_ok s"
  obtains t where "consputc c s = Ok ((), t)" "emits (serial c) s t"
proof -
  let ?v = "if uart s then uart_out s @ serial c else uart_out s"
  have v: "(if c = BACKSPACE then thenk (uartputc 8) (thenk (uartputc 32) (uartputc 8)) else uartputc c) s
      = Ok ((), s\<lparr>uart_out := ?v\<rparr>)"
    by (simp add: thenk_run uartputc_run serial_def)
  obtain m pos where t: "cgaputc c (s\<lparr>uart_out := ?v\<rparr>) = Ok ((), s\<lparr>uart_out := ?v, crt := m, cursor := pos\<rparr>)"
      "pos \<le> 1920"
    using ok by (rule_tac cgaputc_run [of "s\<lparr>uart_out := ?v\<rparr>" c]) (auto simp: cons_ok_def)
  have "consputc c s = Ok ((), s\<lparr>uart_out := ?v, crt := m, cursor := pos\<rparr>)"
    using ok v t(1) by (simp add: consputc_def bindk_run getk_run cons_ok_def thenk_Ok)
  moreover have "emits (serial c) s (s\<lparr>uart_out := ?v, crt := m, cursor := pos\<rparr>)"
    unfolding emits_def using t(2) by (intro exI [of _ m] exI [of _ pos]) simp
  ultimately show ?thesis by (rule that)
qed

lemma serial_char [simp]: "serial (of_char c) = [of_char c]"
proof -
  have "(of_char c :: nat) \<noteq> 256"
  proof
    assume "(of_char c :: nat) = 256"
    then show False using of_char_mod_256 [of c, where ?'a = nat] by simp
  qed
  then show ?thesis by (simp add: serial_def)
qed

lemma consputs_emits:
  assumes "cons_ok s"
  shows "\<exists>t. consputs xs s = Ok ((), t) \<and> emits (map of_char xs) s t"
  using assms unfolding consputs_def
proof (induction xs arbitrary: s)
  case Nil
  then show ?case by (simp add: run_simps emits_refl)
next
  case (Cons x xs)
  obtain t where t: "consputc (of_char x) s = Ok ((), t)" "emits [of_char x] s t"
    using Cons.prems by (rule consputc_emits [where c = "of_char x"]) auto
  then obtain u where "for_each xs (\<lambda>c. consputc (of_char c)) t = Ok ((), u)" "emits (map of_char xs) t u"
    using Cons.IH emits_ok [OF Cons.prems t(2)] by blast
  with t emits_trans [OF t(2)] show ?case by (auto simp: thenk_Ok)
qed

subsection \<open>Formatting\<close>

text \<open>The text of a call, and \<open>None\<close> if the arguments do not fit the format.\<close>

definition show_int :: "uint \<Rightarrow> nat \<Rightarrow> bool \<Rightarrow> string" where
  "show_int x base sg = rev (int_chars ''0123456789abcdef'' x base sg)"

fun conv_text :: "char \<Rightarrow> carg list \<Rightarrow> (string \<times> carg list) option" where
  "conv_text c args =
     (if c = CHR ''d'' then (case args of Num x # as \<Rightarrow> Some (show_int x 10 True, as) | _ \<Rightarrow> None)
      else if c = CHR ''x'' \<or> c = CHR ''p'' then (case args of Num x # as \<Rightarrow> Some (show_int x 16 False, as) | _ \<Rightarrow> None)
      else if c = CHR ''s'' then (case args of Str t # as \<Rightarrow> Some (case t of None \<Rightarrow> ''(null)'' | Some t \<Rightarrow> t, as) | _ \<Rightarrow> None)
      else if c = CHR ''%'' then Some (''%'', args)
      else Some ([CHR ''%'', c], args))"

fun render :: "string \<Rightarrow> carg list \<Rightarrow> string option" where
  "render [] args = Some []"
| "render (c # fmt) args =
     (if c \<noteq> CHR ''%'' then map_option (Cons c) (render fmt args)
      else (case fmt of [] \<Rightarrow> Some []
        | d # rest \<Rightarrow> (case conv_text d args of None \<Rightarrow> None
          | Some (t, as) \<Rightarrow> map_option (append t) (render rest as))))"

declare conv_text.simps [simp del] print_conv.simps [simp del]

lemma print_conv_emits:
  assumes ok: "cons_ok s" and "conv_text c args = Some (tx, as)"
  shows "\<exists>t. print_conv c args s = Ok (as, t) \<and> emits (map of_char tx) s t"
proof -
  obtain t where t: "consputs tx s = Ok ((), t)" "emits (map of_char tx) s t" using consputs_emits [OF ok] by blast
  obtain u where u: "consputs ''%'' s = Ok ((), u)" "emits (map of_char ''%'') s u" using consputs_emits [OF ok] by blast
  obtain v where v: "consputs [c] u = Ok ((), v)" "emits (map of_char [c]) u v"
    using consputs_emits [OF emits_ok [OF ok u(2)]] by blast
  from emits_trans [OF u(2) v(2)] assms t u v show ?thesis
    by (auto simp: print_conv.simps conv_text.simps printint_def show_int_def run_simps
        split: if_splits list.splits carg.splits option.splits)
qed

lemma print_fmt_emits:
  "cons_ok s \<Longrightarrow> render fmt args = Some tx \<Longrightarrow> \<exists>t. print_fmt fmt args s = Ok ((), t) \<and> emits (map of_char tx) s t"
proof (induction fmt args arbitrary: s tx rule: render.induct)
  case (1 args)
  then show ?case by (simp add: run_simps emits_refl)
next
  case (2 c fmt args)
  show ?case
  proof (cases "c = CHR ''%''")
    case False
    with 2 obtain tx' where tx: "tx = c # tx'" "render fmt args = Some tx'" by auto
    obtain t where t: "consputs [c] s = Ok ((), t)" "emits (map of_char [c]) s t" using consputs_emits [OF 2(3)] by blast
    then obtain u where "print_fmt fmt args t = Ok ((), u)" "emits (map of_char tx') t u"
      using 2(1) [OF False emits_ok [OF 2(3) t(2)] tx(2)] by blast
    with emits_trans [OF t(2)] t tx False show ?thesis by (auto simp: thenk_Ok)
  next
    case True
    show ?thesis
    proof (cases fmt)
      case Nil
      with True 2 show ?thesis by (auto simp: run_simps emits_refl)
    next
      case (Cons d rest)
      with True 2 obtain x as tx' where x: "conv_text d args = Some (x, as)" "render rest as = Some tx'" "tx = x @ tx'"
        by (auto split: option.splits)
      obtain t where t: "print_conv d args s = Ok (as, t)" "emits (map of_char x) s t"
        using print_conv_emits [OF 2(3) x(1)] by blast
      then obtain u where "print_fmt rest as t = Ok ((), u)" "emits (map of_char tx') t u"
        using 2(2) [OF _ Cons x(1) refl emits_ok [OF 2(3) t(2)] x(2)] True by auto
      with emits_trans [OF t(2)] t x True Cons show ?thesis by (auto simp: bindk_Ok)
    qed
  qed
qed

lemma cprintf_emits:
  assumes "cpu_ok s" "settled s" "free_lock ConsLock s" "cons_ok s" "render fmt args = Some tx"
  shows "\<exists>t. cprintf fmt args s = Ok ((), t) \<and> emits (map of_char tx) s t"
proof (cases "cons_locking s")
  case False
  then show ?thesis
    using print_fmt_emits [OF assms(4,5)] by (auto simp: cprintf_def run_simps)
next
  case True
  let ?s = "enter ConsLock s"
  have c: "uart ?s = uart s" "uart_out ?s = uart_out s" "cons_ok ?s"
    using assms(4) by (simp_all add: enter_def cli_on_def cons_ok_def)
  obtain t where t: "print_fmt fmt args ?s = Ok ((), t)" "emits (map of_char tx) ?s t"
    using print_fmt_emits [OF c(3) assms(5)] by blast
  then obtain m pos where e: "pos \<le> 1920" "t = ?s\<lparr>crt := m, cursor := pos,
      uart_out := (if uart s then uart_out s @ map of_char tx else uart_out s)\<rparr>"
    unfolding emits_def c by auto
  have "release ConsLock t = Ok ((), t\<lparr>fl_if := fl_if s, cpus := cpus s, locks := locks s\<rparr>)"
    by (rule crit [OF assms(1,2,3)]) (simp_all add: e)
  moreover have "t\<lparr>fl_if := fl_if s, cpus := cpus s, locks := locks s\<rparr> = s\<lparr>crt := m, cursor := pos,
      uart_out := (if uart s then uart_out s @ map of_char tx else uart_out s)\<rparr>"
    unfolding e by (simp add: enter_def cli_on_def)
  ultimately have "cprintf fmt args s = Ok ((), s\<lparr>crt := m, cursor := pos,
      uart_out := (if uart s then uart_out s @ map of_char tx else uart_out s)\<rparr>)"
    using True t by (simp add: cprintf_def run_simps acquire_run [OF assms(1,3)])
  then show ?thesis using e(1) unfolding emits_def by auto
qed

subsection \<open>Digits\<close>

lemma digit_loop_length:
  "2 \<le> base \<Longrightarrow> x < base ^ Suc k \<Longrightarrow> length (digit_loop ds base x) \<le> Suc k"
proof (induction k arbitrary: x)
  case 0
  then show ?case by (simp add: digit_loop.simps [of ds base x])
next
  case (Suc k)
  then have "x div base < base ^ Suc k" by (simp add: less_mult_imp_div_less mult.commute)
  with Suc show ?case by (simp add: digit_loop.simps [of ds base x])
qed

lemma digit_loop_set: "2 \<le> base \<Longrightarrow> set (digit_loop ds base x) \<subseteq> (\<lambda>i. ds ! i) ` {..<base}"
proof (induction ds base x rule: digit_loop.induct)
  case (1 ds base x)
  then show ?case by (subst digit_loop.simps) auto
qed

subsection \<open>A concrete console\<close>

definition demo_console :: "'z \<Rightarrow> 'z console_scheme" where
  "demo_console z = demo_machine \<lparr>panicked = False, cons_locking = True, crt = (\<lambda>_. 0), cursor = 0,
     uart = True, uart_out = [], uart_in = [],
     input = \<lparr>in_buf = (\<lambda>_. 0), in_r = 0, in_w = 0, in_e = 0\<rparr>, \<dots> = z\<rparr>"

lemma demo_console_idle: "idle (demo_console z) 0"
  unfolding demo_console_def by (rule demo_machine_idle)

subsection \<open>Properties\<close>

text \<open>C14. The text of a number never outgrows the 16-byte buffer that \<open>printint\<close> builds it in, in
  either base, sign included.\<close>

theorem printint_bound:
  assumes "base = 10 \<or> base = 16"
  shows "length (int_chars ds x base sg) \<le> 16"
proof -
  have "unat y < base ^ Suc 9" if "base = 10" for y :: uint using unat_lt32 [of y] that by simp
  moreover have "unat y < base ^ Suc 7" if "base = 16" for y :: uint using unat_lt32 [of y] that by simp
  ultimately have L: "length (digit_loop ds base (unat y)) \<le> 10" for y :: uint
    using assms digit_loop_length [of base "unat y" 9 ds] digit_loop_length [of base "unat y" 7 ds] by auto
  show ?thesis using L [of x] L [of "- x"] by (auto simp: int_chars_def Let_def)
qed

theorem printint_bound_witness:
  "length (int_chars ''0123456789abcdef'' 0x80000000 10 True) \<le> 16 \<and>
   rev (int_chars ''0123456789abcdef'' 0x80000000 10 True) = ''-2147483648''"
proof
  show "length (int_chars ''0123456789abcdef'' 0x80000000 10 True) \<le> 16" by (rule printint_bound) simp
  show "rev (int_chars ''0123456789abcdef'' 0x80000000 10 True) = ''-2147483648''"
    by (simp add: int_chars_def digit_loop.simps)
qed

text \<open>C13. Printing a well-typed message always returns: it sends exactly the formatted text to the
  serial port, keeps the cursor on the screen and changes nothing outside the console.\<close>

theorem cprintf_output:
  assumes "cpu_ok s" "settled s" "free_lock ConsLock s" "\<not> panicked s" "cursor s \<le> 24 * 80"
    and "render fmt args = Some tx"
  shows "\<exists>m c. c \<le> 24 * 80 \<and> cprintf fmt args s =
    Ok ((), s\<lparr>crt := m, cursor := c, uart_out := (if uart s then uart_out s @ map of_char tx else uart_out s)\<rparr>)"
  using cprintf_emits [OF assms(1-3) _ assms(6)] assms(4,5) unfolding cons_ok_def emits_def by blast

theorem cprintf_output_witness:
  "\<exists>t. cprintf ''pid %d %s at %x%%'' [Num 17, Str (Some ''sh''), Num 0xFF] (demo_console ()) = Ok ((), t) \<and>
     uart_out t = map of_char ''pid 17 sh at ff%'' \<and> cursor t \<le> 24 * 80"
proof -
  let ?s = "demo_console ()"
  have "render ''pid %d %s at %x%%'' [Num 17, Str (Some ''sh''), Num 0xFF] = Some ''pid 17 sh at ff%''"
    by (simp add: conv_text.simps show_int_def int_chars_def digit_loop.simps)
  then have "\<exists>m c. c \<le> 24 * 80 \<and> cprintf ''pid %d %s at %x%%'' [Num 17, Str (Some ''sh''), Num 0xFF] ?s =
    Ok ((), ?s\<lparr>crt := m, cursor := c, uart_out := (if uart ?s then uart_out ?s @ map of_char ''pid 17 sh at ff%''
      else uart_out ?s)\<rparr>)"
    using idle_ok [OF demo_console_idle] idle_free [OF demo_console_idle]
    by (intro cprintf_output) (simp_all add: demo_console_def demo_machine_def)
  then show ?thesis by (auto simp: demo_console_def demo_machine_def)
qed

end
