(* ===== verification/KString.thy ===== *)
theory KString
  imports Prelude
begin

unbundle bit_operations_syntax

text \<open>
  The kernel's byte and string routines (\<open>string.c\<close>) over byte-addressed memory, with the
  two string-store instructions they use (\<open>stosb\<close>, \<open>stosl\<close> of \<open>x86.h\<close>).

  Memory is a function from 32-bit addresses to bytes, so overlapping arguments behave as
  they do in the machine. A \<open>uint\<close> count is a natural number, an \<open>int\<close> count an integer.

  Shown: \<open>memset\<close> fills its range whichever instruction it uses; \<open>memmove\<close> is a simultaneous
  copy, whether or not the ranges overlap; \<open>memcmp\<close> and \<open>strncmp\<close> compare; the string copies
  stay inside their destination and terminate it as documented.
\<close>

type_synonym mem = "uint \<Rightarrow> byte"

subsection \<open>Loads and stores\<close>

definition store32 :: "uint \<Rightarrow> uint \<Rightarrow> mem \<Rightarrow> mem" where
  "store32 a w m = m(a := ucast w, a + 1 := ucast (drop_bit 8 w), a + 2 := ucast (drop_bit 16 w),
     a + 3 := ucast (drop_bit 24 w))"

definition load32 :: "uint \<Rightarrow> mem \<Rightarrow> uint" where
  "load32 a m = ucast (m a) OR push_bit 8 (ucast (m (a + 1))) OR push_bit 16 (ucast (m (a + 2)))
     OR push_bit 24 (ucast (m (a + 3)))"

definition load_bytes :: "uint \<Rightarrow> nat \<Rightarrow> mem \<Rightarrow> byte list" where
  "load_bytes a n m = map (\<lambda>i. m (a + of_nat i)) [0..<n]"

fun store_bytes :: "uint \<Rightarrow> byte list \<Rightarrow> mem \<Rightarrow> mem" where
  "store_bytes a [] m = m"
| "store_bytes a (x # xs) m = store_bytes (a + 1) xs (m(a := x))"

fun stosb :: "uint \<Rightarrow> byte \<Rightarrow> nat \<Rightarrow> mem \<Rightarrow> mem" where
  "stosb a c 0 m = m"
| "stosb a c (Suc n) m = stosb (a + 1) c n (m(a := c))"

fun stosl :: "uint \<Rightarrow> uint \<Rightarrow> nat \<Rightarrow> mem \<Rightarrow> mem" where
  "stosl a w 0 m = m"
| "stosl a w (Suc n) m = stosl (a + 4) w n (store32 a w m)"

subsection \<open>The routines\<close>

definition memset :: "uint \<Rightarrow> uint \<Rightarrow> nat \<Rightarrow> mem \<Rightarrow> mem" where
  "memset dst c n m =
     (if unat dst mod 4 = 0 \<and> n mod 4 = 0
      then let c = c AND 0xFF
           in stosl dst (push_bit 24 c OR push_bit 16 c OR push_bit 8 c OR c) (n div 4) m
      else stosb dst (ucast c) n m)"

fun memcmp :: "uint \<Rightarrow> uint \<Rightarrow> nat \<Rightarrow> mem \<Rightarrow> int" where
  "memcmp s1 s2 0 m = 0"
| "memcmp s1 s2 (Suc n) m =
     (if m s1 \<noteq> m s2 then uint (m s1) - uint (m s2) else memcmp (s1 + 1) (s2 + 1) n m)"

fun copy_down :: "uint \<Rightarrow> uint \<Rightarrow> nat \<Rightarrow> mem \<Rightarrow> mem" where
  "copy_down d s 0 m = m"
| "copy_down d s (Suc n) m = copy_down (d - 1) (s - 1) n (m(d - 1 := m (s - 1)))"

fun copy_up :: "uint \<Rightarrow> uint \<Rightarrow> nat \<Rightarrow> mem \<Rightarrow> mem" where
  "copy_up d s 0 m = m"
| "copy_up d s (Suc n) m = copy_up (d + 1) (s + 1) n (m(d := m s))"

definition memmove :: "uint \<Rightarrow> uint \<Rightarrow> nat \<Rightarrow> mem \<Rightarrow> mem" where
  "memmove dst src n m =
     (if src < dst \<and> dst < src + of_nat n
      then copy_down (dst + of_nat n) (src + of_nat n) n m
      else copy_up dst src n m)"

definition memcpy :: "uint \<Rightarrow> uint \<Rightarrow> nat \<Rightarrow> mem \<Rightarrow> mem" where
  "memcpy dst src n m = memmove dst src n m"

fun strncmp :: "uint \<Rightarrow> uint \<Rightarrow> nat \<Rightarrow> mem \<Rightarrow> int" where
  "strncmp p q 0 m = 0"
| "strncmp p q (Suc n) m =
     (if m p \<noteq> 0 \<and> m p = m q then strncmp (p + 1) (q + 1) n m else uint (m p) - uint (m q))"

text \<open>The first loop of \<open>strncpy\<close> gives the position reached and what is left of the count.\<close>

fun strncpy_copy :: "uint \<Rightarrow> uint \<Rightarrow> nat \<Rightarrow> mem \<Rightarrow> uint \<times> nat \<times> mem" where
  "strncpy_copy s t 0 m = (s, 0, m)"
| "strncpy_copy s t (Suc n) m =
     (if m t \<noteq> 0 then strncpy_copy (s + 1) (t + 1) n (m(s := m t)) else (s + 1, n, m(s := m t)))"

definition strncpy :: "uint \<Rightarrow> uint \<Rightarrow> int \<Rightarrow> mem \<Rightarrow> mem" where
  "strncpy s t n m = (case strncpy_copy s t (nat n) m of (s', k, m') \<Rightarrow> stosb s' 0 k m')"

fun safestrcpy_copy :: "uint \<Rightarrow> uint \<Rightarrow> nat \<Rightarrow> mem \<Rightarrow> uint \<times> mem" where
  "safestrcpy_copy s t 0 m = (s, m)"
| "safestrcpy_copy s t (Suc n) m =
     (if m t \<noteq> 0 then safestrcpy_copy (s + 1) (t + 1) n (m(s := m t)) else (s + 1, m(s := m t)))"

definition safestrcpy :: "uint \<Rightarrow> uint \<Rightarrow> int \<Rightarrow> mem \<Rightarrow> mem" where
  "safestrcpy s t n m =
     (if n \<le> 0 then m else case safestrcpy_copy s t (nat (n - 1)) m of (s', m') \<Rightarrow> m'(s' := 0))"

partial_function (option) strlen_from :: "uint \<Rightarrow> mem \<Rightarrow> nat \<Rightarrow> nat option" where
  "strlen_from s m n = (if m (s + of_nat n) \<noteq> 0 then strlen_from s m (n + 1) else Some n)"

definition strlen :: "uint \<Rightarrow> mem \<Rightarrow> nat option" where
  "strlen s m = strlen_from s m 0"

subsection \<open>Ranges of addresses\<close>

lemma range_pred: "a \<noteq> d \<Longrightarrow> unat (a - d) = Suc (unat (a - (d + 1)))" for a d :: uint
proof -
  assume "a \<noteq> d"
  then have "a - d \<noteq> 0" by simp
  then have u: "unat (a - d - 1) = unat (a - d) - 1" "0 < unat (a - d)"
    using unat_minus_one [of "a - d"] by (simp_all add: unat_gt_0)
  have e: "a - (d + 1) = a - d - 1" by simp
  show ?thesis unfolding e u(1) using u(2) by simp
qed

lemma range_Suc: "unat (a - d) < Suc n \<longleftrightarrow> a = d \<or> unat (a - (d + 1)) < n" for a d :: uint
  using range_pred [of a d] by (cases "a = d") auto

lemma range_before: "unat (d - (d + 1)) = 4294967295" for d :: uint
  by (simp add: unsigned_minus_1_eq_mask mask_eq_exp_minus_1)

lemma of_nat_inj32: "m < 4294967296 \<Longrightarrow> n < 4294967296 \<Longrightarrow> (of_nat m :: uint) = of_nat n \<longleftrightarrow> m = n"
  by (simp add: of_nat_eq_iff word_of_nat_eq_iff take_bit_eq_mod)

lemma add_of_nat: "unat a + i < 4294967296 \<Longrightarrow> unat (a + of_nat i) = unat a + i" for a :: uint
  by (simp add: unat_word_ariths unat_of_nat)

lemma stosb_at: "n < 4294967296 \<Longrightarrow> stosb d c n m a = (if unat (a - d) < n then c else m a)"
proof (induction n arbitrary: d m)
  case (Suc n)
  then show ?case using range_Suc [of a d n] by auto
qed simp

subsection \<open>memmove\<close>

lemma copy_up_at:
  "(\<And>i j. i < j \<Longrightarrow> j < n \<Longrightarrow> d + of_nat i \<noteq> s + of_nat j) \<Longrightarrow>
   copy_up d s n m a = (if unat (a - d) < n then m (s + (a - d)) else m a)"
proof (induction n arbitrary: d s m)
  case (Suc n)
  let ?m = "m(d := m s)"
  have "d + 1 + of_nat i \<noteq> s + 1 + of_nat j" if "i < j" "j < n" for i j
    using Suc.prems [of "Suc i" "Suc j"] that by (simp add: ac_simps)
  then have IH: "copy_up (d + 1) (s + 1) n ?m a =
      (if unat (a - (d + 1)) < n then ?m (s + 1 + (a - (d + 1))) else ?m a)" by (rule Suc.IH)
  have e: "s + 1 + (a - (d + 1)) = s + (a - d)" by simp
  have "?m (s + (a - d)) = m (s + (a - d))" if r: "unat (a - (d + 1)) < n"
  proof -
    have "d + of_nat 0 \<noteq> s + of_nat (Suc (unat (a - (d + 1))))"
      using Suc.prems [of 0 "Suc (unat (a - (d + 1)))"] r by simp
    also have "s + of_nat (Suc (unat (a - (d + 1)))) = s + (a - d)" by simp
    finally show ?thesis by simp
  qed
  then show ?case using IH range_Suc [of a d n] by (auto simp: e)
qed simp

lemma copy_down_at:
  "(\<And>i j. i < j \<Longrightarrow> j < n \<Longrightarrow> d - of_nat (Suc i) \<noteq> s - of_nat (Suc j)) \<Longrightarrow>
   copy_down d s n m a = (if unat (d - 1 - a) < n then m (s - 1 - (d - 1 - a)) else m a)"
proof (induction n arbitrary: d s m)
  case (Suc n)
  let ?m = "m(d - 1 := m (s - 1))"
  have "d - 1 - of_nat (Suc i) \<noteq> s - 1 - of_nat (Suc j)" if "i < j" "j < n" for i j
    using Suc.prems [of "Suc i" "Suc j"] that by (simp add: algebra_simps)
  then have IH: "copy_down (d - 1) (s - 1) n ?m a =
      (if unat (d - 1 - 1 - a) < n then ?m (s - 1 - 1 - (d - 1 - 1 - a)) else ?m a)" by (rule Suc.IH)
  have e: "s - 1 - 1 - (d - 1 - 1 - a) = s - 1 - (d - 1 - a)" by simp
  have "?m (s - 1 - (d - 1 - a)) = m (s - 1 - (d - 1 - a))" if r: "unat (d - 1 - 1 - a) < n"
  proof -
    have "d - of_nat (Suc 0) \<noteq> s - of_nat (Suc (Suc (unat (d - 1 - 1 - a))))"
      using Suc.prems [of 0 "Suc (unat (d - 1 - 1 - a))"] r by simp
    also have "s - of_nat (Suc (Suc (unat (d - 1 - 1 - a)))) = s - 1 - (d - 1 - a)" by simp
    finally show ?thesis by simp
  qed
  moreover have "unat (d - 1 - a) < Suc n \<longleftrightarrow> a = d - 1 \<or> unat (d - 1 - 1 - a) < n"
    using range_Suc [of "d - 1 - a" 0 n] by (auto simp: algebra_simps)
  ultimately show ?case using IH by (auto simp: e)
qed simp

lemma range_flip:
  fixes x :: uint
  assumes "0 < n" "n < 4294967296"
  shows "unat (of_nat n - 1 - x) < n \<longleftrightarrow> unat x < n"
proof -
  obtain k where k: "n = Suc k" using assms(1) by (cases n) auto
  then have "of_nat n - 1 = (of_nat k :: uint)" "unat (of_nat k :: uint) = k"
    using assms(2) by (simp_all add: unat_of_nat32)
  then show ?thesis
    using assms k unat_lt32 [of x] by (auto simp: unat_sub_if_size word_size)
qed

text \<open>\<open>memmove\<close> copies as if through a buffer of its own, for ranges that do not run past the
  end of the address space.\<close>

lemma memmove_at:
  assumes "unat src + n < 4294967296" "unat dst + n < 4294967296"
  shows "memmove dst src n m a = (if unat (a - dst) < n then m (src + (a - dst)) else m a)"
proof (cases "src < dst \<and> dst < src + of_nat n")
  case True
  then have lt: "unat src < unat dst" "0 < n" by (auto simp: word_less_nat_alt intro!: gr0I)
  have "copy_down (dst + of_nat n) (src + of_nat n) n m a =
      (if unat (dst + of_nat n - 1 - a) < n
       then m (src + of_nat n - 1 - (dst + of_nat n - 1 - a)) else m a)"
  proof (rule copy_down_at)
    fix i j :: nat assume ij: "i < j" "j < n"
    have e: "dst + of_nat n - of_nat (Suc i) = of_nat (unat dst + n - Suc i)"
      "src + of_nat n - of_nat (Suc j) = of_nat (unat src + n - Suc j)"
      using ij by (simp_all add: of_nat_diff)
    have "unat dst + n - Suc i \<noteq> unat src + n - Suc j" using ij lt by linarith
    then show "dst + of_nat n - of_nat (Suc i) \<noteq> src + of_nat n - of_nat (Suc j)"
      unfolding e using assms ij of_nat_inj32 [of "unat dst + n - Suc i" "unat src + n - Suc j"] by simp
  qed
  moreover have e: "dst + of_nat n - 1 - a = of_nat n - 1 - (a - dst)"
    "src + of_nat n - 1 - (of_nat n - 1 - (a - dst)) = src + (a - dst)" by simp_all
  moreover have "unat (of_nat n - 1 - (a - dst)) < n \<longleftrightarrow> unat (a - dst) < n"
    using lt(2) assms by (intro range_flip) simp_all
  ultimately show ?thesis unfolding memmove_def if_P [OF True] by (simp only: e)
next
  case False
  have "copy_up dst src n m a = (if unat (a - dst) < n then m (src + (a - dst)) else m a)"
  proof (rule copy_up_at)
    fix i j :: nat assume ij: "i < j" "j < n"
    have "dst + of_nat i = of_nat (unat dst + i)" "src + of_nat j = of_nat (unat src + j)" by simp_all
    moreover have "unat dst + i \<noteq> unat src + j"
      using False ij assms add_of_nat [of src n] by (auto simp: word_less_nat_alt)
    ultimately show "dst + of_nat i \<noteq> src + of_nat j"
      using ij assms of_nat_inj32 [of "unat dst + i" "unat src + j"] by simp
  qed
  then show ?thesis unfolding memmove_def if_not_P [OF False] .
qed

subsection \<open>memset\<close>

lemma pattern_bytes:
  fixes c :: uint
  defines "w \<equiv> push_bit 24 (c AND 0xFF) OR push_bit 16 (c AND 0xFF) OR push_bit 8 (c AND 0xFF) OR (c AND 0xFF)"
  shows "(ucast w :: byte) = ucast c" "(ucast (drop_bit 8 w) :: byte) = ucast c"
    "(ucast (drop_bit 16 w) :: byte) = ucast c" "(ucast (drop_bit 24 w) :: byte) = ucast c"
proof -
  have m: "(0xFF :: uint) = mask 8" by (simp add: mask_eq_exp_minus_1)
  show "(ucast w :: byte) = ucast c" "(ucast (drop_bit 8 w) :: byte) = ucast c"
    "(ucast (drop_bit 16 w) :: byte) = ucast c" "(ucast (drop_bit 24 w) :: byte) = ucast c"
    unfolding w_def m by (rule bit_word_eqI, auto simp: bit_simps)+
qed

lemma stosl_stosb:
  fixes c :: uint
  defines "w \<equiv> push_bit 24 (c AND 0xFF) OR push_bit 16 (c AND 0xFF) OR push_bit 8 (c AND 0xFF) OR (c AND 0xFF)"
  shows "stosl d w k m = stosb d (ucast c) (4 * k) m"
proof (induction k arbitrary: d m)
  case (Suc k)
  have st: "stosb d x (Suc (Suc (Suc (Suc j)))) m = stosb (d + 4) x j (m(d := x, d + 1 := x, d + 2 := x, d + 3 := x))"
    for x j by (simp add: add.assoc)
  have k: "4 * Suc k = Suc (Suc (Suc (Suc (4 * k))))" by simp
  have sw: "store32 d w m = m(d := ucast c, d + 1 := ucast c, d + 2 := ucast c, d + 3 := ucast c)"
    unfolding store32_def w_def pattern_bytes by simp
  show ?case unfolding k st stosl.simps Suc.IH sw ..
qed simp

lemma memset_stosb: "memset d c n m = stosb d (ucast c) n m"
  unfolding memset_def Let_def stosl_stosb by auto

lemma memset_at: "n < 4294967296 \<Longrightarrow> memset d c n m a = (if unat (a - d) < n then ucast c else m a)"
  by (simp add: memset_stosb stosb_at)

subsection \<open>Strings\<close>

definition string_at :: "mem \<Rightarrow> uint \<Rightarrow> byte list \<Rightarrow> bool" where
  "string_at m p xs \<longleftrightarrow> (\<forall>i<length xs. m (p + of_nat i) = xs ! i \<and> xs ! i \<noteq> 0) \<and> m (p + of_nat (length xs)) = 0"

lemma string_at_Nil [simp]: "string_at m p [] \<longleftrightarrow> m p = 0"
  by (simp add: string_at_def)

lemma string_at_Cons [simp]: "string_at m p (x # xs) \<longleftrightarrow> m p = x \<and> x \<noteq> 0 \<and> string_at m (p + 1) xs"
  by (auto simp: string_at_def less_Suc_eq_0_disj add.assoc)

lemma strlen_from_at: "string_at m (p + of_nat k) xs \<Longrightarrow> strlen_from p m k = Some (k + length xs)"
proof (induction xs arbitrary: k)
  case Nil
  then show ?case by (simp add: strlen_from.simps)
next
  case (Cons x xs)
  then have "strlen_from p m (k + 1) = Some (k + 1 + length xs)" by (intro Cons.IH) (simp add: ac_simps)
  with Cons.prems show ?case by (subst strlen_from.simps) auto
qed

lemma strlen_at: "string_at m p xs \<Longrightarrow> strlen p m = Some (length xs)"
  using strlen_from_at [of m p 0 xs] by (simp add: strlen_def)

lemma strncmp_at:
  "string_at m p xs \<Longrightarrow> string_at m q ys \<Longrightarrow> strncmp p q n m = 0 \<longleftrightarrow> take n xs = take n ys"
proof (induction n arbitrary: p q xs ys)
  case (Suc n)
  then show ?case by (cases xs; cases ys) (auto simp: word_uint_eq_iff)
qed simp

lemma memcmp_at: "memcmp p q n m = 0 \<longleftrightarrow> (\<forall>i<n. m (p + of_nat i) = m (q + of_nat i))"
proof (induction n arbitrary: p q)
  case (Suc n)
  then show ?case by (auto simp: less_Suc_eq_0_disj add.assoc word_uint_eq_iff)
qed simp

lemma string_at_upd:
  assumes "\<And>j. j \<le> length xs \<Longrightarrow> s \<noteq> p + of_nat j"
  shows "string_at (m(s := x)) p xs = string_at m p xs"
proof -
  have "(m(s := x)) (p + of_nat j) = m (p + of_nat j)" if "j \<le> length xs" for j
    using assms [OF that] by auto
  then show ?thesis by (simp add: string_at_def del: fun_upd_apply)
qed

abbreviation apart :: "uint \<Rightarrow> nat \<Rightarrow> uint \<Rightarrow> byte list \<Rightarrow> bool" where
  "apart s n t xs \<equiv> \<forall>i j. i < n \<longrightarrow> j \<le> length xs \<longrightarrow> s + of_nat i \<noteq> t + of_nat j"

lemma apart_Suc:
  assumes "apart s (Suc n) t (x # xs)"
  shows "apart (s + 1) n (t + 1) xs" "j \<le> length xs \<Longrightarrow> s \<noteq> t + 1 + of_nat j"
proof -
  show "apart (s + 1) n (t + 1) xs"
  proof (intro allI impI)
    fix i j assume "i < n" "j \<le> length xs"
    then show "s + 1 + of_nat i \<noteq> t + 1 + of_nat j"
      using assms [rule_format, of "Suc i" "Suc j"] by (simp add: ac_simps)
  qed
  show "s \<noteq> t + 1 + of_nat j" if "j \<le> length xs"
    using assms [rule_format, of 0 "Suc j"] that by (simp add: ac_simps)
qed

lemma strncpy_copy_at:
  assumes "string_at m t xs" "apart s n t xs" "n < 4294967296"
  shows "(case strncpy_copy s t n m of (s', k, m') \<Rightarrow> stosb s' 0 k m') a =
    (if unat (a - s) < n then if unat (a - s) < length xs then xs ! unat (a - s) else 0 else m a)"
  using assms
proof (induction n arbitrary: s t xs m)
  case (Suc n)
  show ?case
  proof (cases xs)
    case Nil
    then show ?thesis using Suc.prems range_Suc [of a s n] by (auto simp: stosb_at)
  next
    case (Cons x ys)
    define m1 where "m1 = m(s := x)"
    have ap: "apart s (Suc n) t (x # ys)" using Suc.prems(2) Cons by simp
    have st: "string_at m1 (t + 1) ys"
      using Suc.prems(1) Cons string_at_upd [of ys s "t + 1" m x] apart_Suc(2) [OF ap] by (simp add: m1_def)
    note IH = Suc.IH [OF st apart_Suc(1) [OF ap]]
    have x: "strncpy_copy s t (Suc n) m = strncpy_copy (s + 1) (t + 1) n m1"
      using Suc.prems(1) Cons by (auto simp: m1_def)
    show ?thesis
    proof (cases "a = s")
      case True
      moreover have "m1 s = x" by (simp add: m1_def)
      ultimately show ?thesis unfolding x using IH Cons Suc.prems(3) range_before [of s] by simp
    next
      case False
      then have "m1 a = m a" by (simp add: m1_def)
      then show ?thesis unfolding x using IH Cons Suc.prems(3) range_pred [OF False] by simp
    qed
  qed
qed simp

lemma strncpy_at:
  assumes "string_at m t xs" "apart s (nat n) t xs" "n < 4294967296"
  shows "strncpy s t n m a =
    (if unat (a - s) < nat n then if unat (a - s) < length xs then xs ! unat (a - s) else 0 else m a)"
  unfolding strncpy_def using assms by (intro strncpy_copy_at) auto

lemma safestrcpy_copy_at:
  assumes "string_at m t xs" "apart s (Suc k) t xs" "Suc k < 4294967296"
    and "safestrcpy_copy s t k m = (s', m')"
  shows "string_at (m'(s' := 0)) s (take k xs) \<and> (\<forall>a. Suc k \<le> unat (a - s) \<longrightarrow> (m'(s' := 0)) a = m a)"
  using assms
proof (induction k arbitrary: s t xs m)
  case 0
  then show ?case by auto
next
  case (Suc k)
  show ?case
  proof (cases xs)
    case Nil
    then have "s' = s + 1" "m' = m(s := 0)" using Suc.prems by auto
    moreover have "Suc (Suc k) \<le> unat (a - s) \<Longrightarrow> a \<noteq> s \<and> a \<noteq> s + 1" for a
      using range_Suc [of a s "Suc k"] range_Suc [of a "s + 1" k] by auto
    ultimately show ?thesis using Nil by auto
  next
    case (Cons x ys)
    define m1 where "m1 = m(s := x)"
    define m2 where "m2 = m'(s' := 0)"
    have ap: "apart s (Suc (Suc k)) t (x # ys)" using Suc.prems(2) Cons by simp
    have st: "string_at m1 (t + 1) ys"
      using Suc.prems(1) Cons string_at_upd [of ys s "t + 1" m x] apart_Suc(2) [OF ap] by (simp add: m1_def)
    have c: "safestrcpy_copy (s + 1) (t + 1) k m1 = (s', m')" using Suc.prems(1,4) Cons by (auto simp: m1_def)
    have IH: "string_at m2 (s + 1) (take k ys)" "\<And>a. Suc k \<le> unat (a - (s + 1)) \<Longrightarrow> m2 a = m1 a"
      using Suc.IH [OF st apart_Suc(1) [OF ap] Suc_lessD [OF Suc.prems(3)] c] unfolding m2_def by blast+
    have "m2 s = x" using IH(2) [of s] Suc.prems(3) range_before [of s] by (simp add: m1_def)
    moreover have "m2 a = m a" if "Suc (Suc k) \<le> unat (a - s)" for a
      using that IH(2) [of a] range_pred [of a s] by (cases "a = s") (auto simp: m1_def)
    ultimately show ?thesis using IH(1) Suc.prems(1) Cons by (simp add: m2_def [symmetric])
  qed
qed

lemma safestrcpy_at:
  assumes "string_at m t xs" "apart s (nat n) t xs" "0 < n" "n < 4294967296"
  shows "string_at (safestrcpy s t n m) s (take (nat (n - 1)) xs)"
    "nat n \<le> unat (a - s) \<Longrightarrow> safestrcpy s t n m a = m a"
proof -
  obtain s' m' where c: "safestrcpy_copy s t (nat (n - 1)) m = (s', m')" by fastforce
  have n: "Suc (nat (n - 1)) = nat n" using assms(3) by simp
  have "apart s (Suc (nat (n - 1))) t xs" using assms(2) n by simp
  moreover have "Suc (nat (n - 1)) < 4294967296" using assms(4) n by simp
  ultimately have "string_at (m'(s' := 0)) s (take (nat (n - 1)) xs) \<and>
      (\<forall>a. nat n \<le> unat (a - s) \<longrightarrow> (m'(s' := 0)) a = m a)"
    using safestrcpy_copy_at [OF assms(1) _ _ c] n by simp
  moreover have "safestrcpy s t n m = m'(s' := 0)" using assms(3) c by (simp add: safestrcpy_def)
  ultimately show "string_at (safestrcpy s t n m) s (take (nat (n - 1)) xs)"
    "nat n \<le> unat (a - s) \<Longrightarrow> safestrcpy s t n m a = m a" by simp_all
qed

subsection \<open>Properties\<close>

text \<open>C5. \<open>memmove\<close> copies correctly whether or not source and destination overlap: as long as
  neither range runs past the end of the address space, the destination receives the bytes
  the source held before the call and nothing else changes.\<close>

theorem memmove_overlap:
  assumes "unat src + n < 4294967296" "unat dst + n < 4294967296"
  shows "memmove dst src n m = (\<lambda>a. if unat (a - dst) < n then m (src + (a - dst)) else m a)"
  using memmove_at [OF assms] by blast

theorem memmove_overlap_witness:
  "map (memmove 2 0 4 (\<lambda>a. ucast a)) [0, 1, 2, 3, 4, 5, 6] = [0, 1, 0, 1, 2, 3, 6]"
  using memmove_overlap [of 0 4 2 "\<lambda>a. ucast a"]
  by (simp add: unsigned_minus_1_eq_mask mask_eq_exp_minus_1)

text \<open>\<open>safestrcpy\<close> of a string that lies apart from its destination leaves there the longest
  prefix that fits, always terminated, and writes no byte outside of the \<open>n\<close> it was given;
  \<open>strlen\<close> then terminates with the length of that prefix.\<close>

lemma safestrcpy_terminated:
  assumes "string_at m t xs" "apart s (nat n) t xs" "0 < n" "n < 4294967296"
  shows "string_at (safestrcpy s t n m) s (take (nat (n - 1)) xs) \<and>
    strlen s (safestrcpy s t n m) = Some (min (nat (n - 1)) (length xs)) \<and>
    (\<forall>a. nat n \<le> unat (a - s) \<longrightarrow> safestrcpy s t n m a = m a)"
  using safestrcpy_at [OF assms] strlen_at [OF safestrcpy_at(1) [OF assms]] by (simp add: min.commute)

end
