(* ===== verification/Kalloc.thy ===== *)
theory Kalloc
  imports Console KString "HOL-Library.Multiset"
begin

unbundle bit_operations_syntax

text \<open>
  The physical page allocator (\<open>kalloc.c\<close>). Physical memory is the byte-addressed store
  \<open>pmem\<close>, indexed by the kernel virtual addresses it is mapped at; the free list runs
  through the free pages themselves, its links stored in their first four bytes, exactly
  where \<open>struct run\<close> puts them. \<open>kend\<close> is the address of the linker symbol \<open>end\<close>.

  Shown: the links always represent a list of distinct, valid pages that \<open>kfree\<close> pushes on
  and \<open>kalloc\<close> pops from, and hence, through the locale \<open>allocator\<close>, that no page is
  handed out twice without being freed in between.
\<close>

abbreviation (input) PGSIZE :: nat where "PGSIZE \<equiv> 4096"
abbreviation (input) KERNBASE :: uint where "KERNBASE \<equiv> 0x80000000"
abbreviation (input) PHYSTOP :: uint where "PHYSTOP \<equiv> 0xE000000"

definition V2P :: "uint \<Rightarrow> uint" where "V2P a = a - KERNBASE"
definition P2V :: "uint \<Rightarrow> uint" where "P2V a = a + KERNBASE"
definition PGROUNDUP :: "uint \<Rightarrow> uint" where "PGROUNDUP x = (x + 4095) AND NOT 4095"
definition PGROUNDDOWN :: "uint \<Rightarrow> uint" where "PGROUNDDOWN x = x AND NOT 4095"

subsection \<open>Data and operations\<close>

record kmem = console +
  pmem :: mem
  kend :: uint
  use_lock :: bool
  freelist :: uint

definition kfree :: "uint \<Rightarrow> ('z kmem_scheme, unit) kop" where
  "kfree v =
     bindk (getk kend) (\<lambda>e.
     if unat v mod PGSIZE \<noteq> 0 \<or> v < e \<or> PHYSTOP \<le> V2P v then panic ''kfree''
     else thenk (modk (\<lambda>s. s\<lparr>pmem := memset v 1 PGSIZE (pmem s)\<rparr>)) (
       bindk (getk use_lock) (\<lambda>u.
       thenk (whenk u (acquire KmemLock)) (
       thenk (modk (\<lambda>s. s\<lparr>pmem := store32 v (freelist s) (pmem s)\<rparr>)) (
       thenk (modk (\<lambda>s. s\<lparr>freelist := v\<rparr>))
         (whenk u (release KmemLock)))))))"

definition kalloc :: "('z kmem_scheme, uint) kop" where
  "kalloc =
     bindk (getk use_lock) (\<lambda>u.
     thenk (whenk u (acquire KmemLock)) (
     bindk (getk freelist) (\<lambda>r.
     thenk (whenk (r \<noteq> 0) (modk (\<lambda>s. s\<lparr>freelist := load32 r (pmem s)\<rparr>))) (
     thenk (whenk u (release KmemLock))
       (ret r)))))"

text \<open>The loop of \<open>freerange\<close>; there are \<open>2 ^ 20\<close> pages in the address space, and the loop cannot
  pass one twice because \<open>kfree\<close> panics above \<open>PHYSTOP\<close>.\<close>

fun free_pages :: "nat \<Rightarrow> uint \<Rightarrow> uint \<Rightarrow> ('z kmem_scheme, unit) kop" where
  "free_pages 0 p vend = block"
| "free_pages (Suc k) p vend =
     (if p + 4096 \<le> vend then thenk (kfree p) (free_pages k (p + 4096) vend) else ret ())"

definition freerange :: "uint \<Rightarrow> uint \<Rightarrow> ('z kmem_scheme, unit) kop" where
  "freerange vstart vend = free_pages 1048577 (PGROUNDUP vstart) vend"

definition kinit1 :: "uint \<Rightarrow> uint \<Rightarrow> ('z kmem_scheme, unit) kop" where
  "kinit1 vstart vend =
     thenk (initlock KmemLock) (
     thenk (modk (\<lambda>s. s\<lparr>use_lock := False\<rparr>))
       (freerange vstart vend))"

definition kinit2 :: "uint \<Rightarrow> uint \<Rightarrow> ('z kmem_scheme, unit) kop" where
  "kinit2 vstart vend = thenk (freerange vstart vend) (modk (\<lambda>s. s\<lparr>use_lock := True\<rparr>))"

subsection \<open>The free list\<close>

definition valid_page :: "'z kmem_scheme \<Rightarrow> uint \<Rightarrow> bool" where
  "valid_page s v \<longleftrightarrow> unat v mod PGSIZE = 0 \<and> kend s \<le> v \<and> V2P v < PHYSTOP"

fun page_list :: "mem \<Rightarrow> uint \<Rightarrow> uint list \<Rightarrow> bool" where
  "page_list m p [] \<longleftrightarrow> p = 0"
| "page_list m p (x # xs) \<longleftrightarrow> p = x \<and> p \<noteq> 0 \<and> page_list m (load32 x m) xs"

definition kinv :: "'z kmem_scheme \<Rightarrow> uint list \<Rightarrow> bool" where
  "kinv s xs \<longleftrightarrow> page_list (pmem s) (freelist s) xs \<and> distinct xs \<and> (\<forall>x\<in>set xs. valid_page s x) \<and>
     KERNBASE \<le> kend s"

text \<open>A byte of page \<open>v\<close>.\<close>

definition in_page :: "uint \<Rightarrow> uint \<Rightarrow> bool" where
  "in_page v a \<longleftrightarrow> unat (a - v) < PGSIZE"

lemma load32_store32 [simp]: "load32 a (store32 a w m) = w"
proof -
  have "a \<noteq> a + 1" "a \<noteq> a + 2" "a \<noteq> a + 3" "a + 1 \<noteq> a + 2" "a + 1 \<noteq> a + 3" "a + 2 \<noteq> a + 3" by auto
  then have *: "load32 a (store32 a w m) = ucast (ucast w :: byte) OR push_bit 8 (ucast (ucast (drop_bit 8 w) :: byte))
      OR push_bit 16 (ucast (ucast (drop_bit 16 w) :: byte)) OR push_bit 24 (ucast (ucast (drop_bit 24 w) :: byte))"
    by (simp add: load32_def store32_def)
  show ?thesis
    unfolding *
  proof (rule bit_word_eqI)
    fix n assume "n < LENGTH(32)"
    then consider "n < 8" | "8 \<le> n" "n < 16" | "16 \<le> n" "n < 24" | "24 \<le> n" "n < 32"
      by (simp add: not_less [symmetric]) linarith
    then show "bit (ucast (ucast w :: byte) OR push_bit 8 (ucast (ucast (drop_bit 8 w) :: byte))
      OR push_bit 16 (ucast (ucast (drop_bit 16 w) :: byte)) OR push_bit 24 (ucast (ucast (drop_bit 24 w) :: byte)) :: uint) n
      = bit w n"
      by cases (auto simp: bit_simps)
  qed
qed

lemma load32_cong:
  "m a = m' a \<Longrightarrow> m (a + 1) = m' (a + 1) \<Longrightarrow> m (a + 2) = m' (a + 2) \<Longrightarrow> m (a + 3) = m' (a + 3) \<Longrightarrow>
   load32 a m = load32 a m'"
  by (simp add: load32_def)

lemma store32_at:
  "b \<noteq> a \<Longrightarrow> b \<noteq> a + 1 \<Longrightarrow> b \<noteq> a + 2 \<Longrightarrow> b \<noteq> a + 3 \<Longrightarrow> store32 a w m b = m b"
  by (simp add: store32_def)

subsection \<open>Lemmas: pages and rounding\<close>

lemma and_not_mask: "(x::uint) AND NOT 4095 = push_bit 12 (drop_bit 12 x)"
proof -
  have e: "(4095 :: uint) = mask 12" by (simp add: mask_eq_exp_minus_1)
  show ?thesis unfolding e by (rule bit_word_eqI) (auto simp: bit_simps not_less)
qed

lemma unat_round: "unat (x AND NOT 4095) = unat x div 4096 * 4096" for x :: uint
proof -
  have "unat x div 4096 * 4096 < 4294967296" using unat_lt32 [of x] by simp
  then show ?thesis
    unfolding and_not_mask push_bit_eq_mult drop_bit_eq_div
    by (simp add: unat_word_ariths unat_div)
qed

lemma unat_offset: "unat (x AND 4095) = unat x mod 4096" for x :: uint
proof -
  have e: "(4095 :: uint) = mask 12" by (simp add: mask_eq_exp_minus_1)
  show ?thesis unfolding e take_bit_eq_mask [symmetric] by (simp add: take_bit_eq_mod unat_mod)
qed

lemma unat_add_if: "unat a + unat b < 4294967296 \<Longrightarrow> unat (a + b) = unat a + unat b" for a b :: uint
  by (simp add: unat_word_ariths)

text \<open>The bytes of an aligned page are the addresses with its page number.\<close>

lemma in_page_div:
  assumes v: "unat v mod PGSIZE = 0"
  shows "in_page v a \<longleftrightarrow> unat a div PGSIZE = unat v div PGSIZE"
proof
  assume "in_page v a"
  then have a: "unat (a - v) < 4096" by (simp add: in_page_def)
  from v obtain k where k: "unat v = 4096 * k" by (auto simp: mod_eq_0_iff_dvd)
  have "k < 1048576" using unat_lt32 [of v] unfolding k by simp
  then have "unat v + unat (a - v) < 4294967296" using a k by simp
  then have "unat (v + (a - v)) = unat v + unat (a - v)" by (rule unat_add_if)
  then have "unat a = 4096 * k + unat (a - v)" using k by simp
  then show "unat a div PGSIZE = unat v div PGSIZE" using a k by simp
next
  assume d: "unat a div PGSIZE = unat v div PGSIZE"
  have a: "unat a = unat v + unat a mod 4096"
    using mult_div_mod_eq [of 4096 "unat a"] mult_div_mod_eq [of 4096 "unat v"] v d by simp
  then have "v \<le> a" by (simp add: word_le_nat_alt)
  then show "in_page v a" using a by (simp add: in_page_def unat_sub)
qed

lemma in_page_self [simp]: "in_page v v" "in_page v (v + 1)" "in_page v (v + 2)" "in_page v (v + 3)"
  by (simp_all add: in_page_def)

lemma pages_disjoint:
  assumes "unat v mod PGSIZE = 0" "unat w mod PGSIZE = 0" "v \<noteq> w" "in_page w a"
  shows "\<not> in_page v a"
proof
  assume "in_page v a"
  with assms have "unat v div PGSIZE = unat w div PGSIZE" by (simp add: in_page_div)
  then have "unat v = unat w"
    using mult_div_mod_eq [of PGSIZE "unat v"] mult_div_mod_eq [of PGSIZE "unat w"] assms(1,2) by simp
  then show False using assms(3) by (simp add: word_unat_eq_iff)
qed

lemma valid_page_nonzero: "valid_page s v \<Longrightarrow> KERNBASE \<le> kend s \<Longrightarrow> v \<noteq> 0"
  by (auto simp: valid_page_def word_le_nat_alt)

lemma page_list_frame:
  assumes "page_list m p xs" "\<forall>x\<in>set xs. \<forall>a. in_page x a \<longrightarrow> m' a = m a"
  shows "page_list m' p xs"
  using assms
proof (induction xs arbitrary: p)
  case (Cons x xs)
  have "load32 x m' = load32 x m"
    using Cons.prems(2) by (intro load32_cong) simp_all
  with Cons show ?case by auto
qed simp

subsection \<open>What kalloc and kfree do to the free list\<close>

text \<open>The caller's side: \<open>kmem.lock\<close> is used only after \<open>kinit2\<close>, and then needs a running process
  that holds no lock.\<close>

definition can_alloc :: "nat \<Rightarrow> 'z kmem_scheme \<Rightarrow> bool" where
  "can_alloc p s \<longleftrightarrow> (use_lock s \<longrightarrow> idle s p)"

lemma idle_kmem [simp]:
  "idle (s\<lparr>pmem := m\<rparr>) p = idle s p" "idle (s\<lparr>freelist := f\<rparr>) p = idle s p"
  "idle (s\<lparr>use_lock := u\<rparr>) p = idle s p" for s :: "'z kmem_scheme"
  by (rule idle_cong; simp)+

lemma can_alloc_simps [simp]:
  "can_alloc p (s\<lparr>pmem := m\<rparr>) = can_alloc p s" "can_alloc p (s\<lparr>freelist := f\<rparr>) = can_alloc p s"
  by (simp_all add: can_alloc_def)

lemma kalloc_run:
  assumes "can_alloc p s"
  shows "kalloc s = Ok (freelist s,
    if freelist s = 0 then s else s\<lparr>freelist := load32 (freelist s) (pmem s)\<rparr>)"
proof (cases "use_lock s")
  case True
  with assms have "idle s p" by (simp add: can_alloc_def)
  then obtain C L where cs: "acquire KmemLock s = Ok ((), s\<lparr>fl_if := False, cpus := C, locks := L\<rparr>)"
    "\<forall>t. inside s C L t \<longrightarrow> release KmemLock t = Ok ((), t\<lparr>fl_if := fl_if s, cpus := cpus s, locks := locks s\<rparr>)"
    by (rule critical_section)
  with True show ?thesis by (simp add: kalloc_def run_simps cs)
qed (simp add: kalloc_def run_simps)

lemma kfree_run:
  assumes "can_alloc p s" "valid_page s v"
  shows "kfree v s = Ok ((), s\<lparr>pmem := store32 v (freelist s) (memset v 1 PGSIZE (pmem s)), freelist := v\<rparr>)"
proof -
  have g: "\<not> (unat v mod PGSIZE \<noteq> 0 \<or> v < kend s \<or> PHYSTOP \<le> V2P v)"
    using assms(2) by (auto simp: valid_page_def)
  show ?thesis
  proof (cases "use_lock s")
    case True
    with assms have i: "idle (s\<lparr>pmem := memset v 1 PGSIZE (pmem s)\<rparr>) p" by (simp add: can_alloc_def)
    let ?s = "s\<lparr>pmem := memset v 1 PGSIZE (pmem s)\<rparr>"
    obtain C L where cs: "acquire KmemLock ?s = Ok ((), ?s\<lparr>fl_if := False, cpus := C, locks := L\<rparr>)"
      "\<forall>t. inside ?s C L t \<longrightarrow> release KmemLock t = Ok ((), t\<lparr>fl_if := fl_if ?s, cpus := cpus ?s, locks := locks ?s\<rparr>)"
      using i by (rule critical_section)
    with True g show ?thesis by (simp add: kfree_def run_simps cs del: de_Morgan_disj)
  qed (use g in \<open>simp add: kfree_def run_simps del: de_Morgan_disj\<close>)
qed

lemma kfree_invalid: "\<not> valid_page s v \<Longrightarrow> kfree v s = Panic ''kfree''"
  by (auto simp: kfree_def run_simps valid_page_def not_le not_less)

lemma kalloc_empty: "can_alloc p s \<Longrightarrow> kinv s [] \<Longrightarrow> kalloc s = Ok (0, s)"
  by (simp add: kalloc_run kinv_def)

lemma kalloc_pop:
  assumes "can_alloc p s" "kinv s (v # xs)"
  shows "kalloc s = Ok (v, s\<lparr>freelist := load32 v (pmem s)\<rparr>)" "kinv (s\<lparr>freelist := load32 v (pmem s)\<rparr>) xs"
  using assms by (auto simp: kalloc_run kinv_def valid_page_def)

lemma kfree_frame:
  assumes "valid_page s v" "\<not> in_page v a"
  shows "store32 v w (memset v 1 PGSIZE m) a = m a"
proof -
  have "a \<noteq> v" "a \<noteq> v + 1" "a \<noteq> v + 2" "a \<noteq> v + 3" using assms(2) by auto
  then show ?thesis using assms(2) by (simp add: store32_at memset_at in_page_def)
qed

lemma kfree_push:
  assumes "can_alloc p s" "kinv s xs" "valid_page s v" "v \<notin> set xs"
  shows "kinv (s\<lparr>pmem := store32 v (freelist s) (memset v 1 PGSIZE (pmem s)), freelist := v\<rparr>) (v # xs)"
proof -
  let ?m = "store32 v (freelist s) (memset v 1 PGSIZE (pmem s))"
  have "?m a = pmem s a" if "x \<in> set xs" "in_page x a" for x a
  proof (rule kfree_frame [OF assms(3)])
    have "unat x mod PGSIZE = 0" "v \<noteq> x" using assms that by (auto simp: kinv_def valid_page_def)
    moreover have "unat v mod PGSIZE = 0" using assms(3) by (simp add: valid_page_def)
    ultimately show "\<not> in_page v a" using that(2) by (intro pages_disjoint)
  qed
  then have "page_list ?m (freelist s) xs"
    using assms(2) page_list_frame [of "pmem s" "freelist s" xs ?m] by (simp add: kinv_def)
  then show ?thesis
    using assms valid_page_nonzero [of s v] by (auto simp: kinv_def valid_page_def)
qed

subsection \<open>The allocator as an interface\<close>

text \<open>A client that only frees what it was given: a sequence of requests, run with the list of
  pages it holds. \<open>Give i\<close> frees the \<open>i\<close>-th of them; a failed allocation adds nothing.\<close>

datatype request = Take | Give nat

fun serve :: "('s, 'p) kop \<Rightarrow> ('p \<Rightarrow> ('s, unit) kop) \<Rightarrow> 'p \<Rightarrow> request list \<Rightarrow> 'p list \<Rightarrow> ('s, 'p list) kop" where
  "serve al fr null [] held = ret held"
| "serve al fr null (Take # rs) held =
     bindk al (\<lambda>v. serve al fr null rs (if v = null then held else v # held))"
| "serve al fr null (Give i # rs) held =
     (if i < length held
      then thenk (fr (held ! i)) (serve al fr null rs (take i held @ drop (Suc i) held))
      else serve al fr null rs held)"

locale allocator =
  fixes alloc :: "('s, 'p) kop" and free :: "'p \<Rightarrow> ('s, unit) kop"
    and rep :: "'s \<Rightarrow> 'p list \<Rightarrow> bool" and good :: "'s \<Rightarrow> 'p \<Rightarrow> bool" and null :: 'p
  assumes alloc_none: "rep s [] \<Longrightarrow> alloc s = Ok (null, s)"
    and alloc_some: "rep s (x # xs) \<Longrightarrow> \<exists>t. alloc s = Ok (x, t) \<and> rep t xs \<and> good t = good s"
    and free_good: "rep s xs \<Longrightarrow> good s x \<Longrightarrow> x \<notin> set xs \<Longrightarrow>
      \<exists>t. free x s = Ok ((), t) \<and> rep t (x # xs) \<and> good t = good s"
    and rep_good: "rep s xs \<Longrightarrow> distinct xs \<and> null \<notin> set xs \<and> (\<forall>x\<in>set xs. good s x)"
begin

text \<open>Pages are conserved: what the client holds and what is free are together always the
  pages there were.\<close>

lemma serve_conserves:
  "rep s xs \<Longrightarrow> distinct (held @ xs) \<Longrightarrow> \<forall>x\<in>set held. good s x \<Longrightarrow>
   \<exists>held' t ys. serve alloc free null rs held s = Ok (held', t) \<and> rep t ys \<and>
     mset held' + mset ys = mset held + mset xs"
proof (induction rs arbitrary: s xs held)
  case Nil
  then show ?case by (auto simp: run_simps)
next
  case (Cons r rs)
  show ?case
  proof (cases r)
    case Take
    show ?thesis
    proof (cases xs)
      case Nil
      then show ?thesis using Take Cons.prems Cons.IH [of s "[]" held] by (simp add: run_simps alloc_none)
    next
      case (Cons x ys)
      then obtain t where t: "alloc s = Ok (x, t)" "rep t ys" "good t = good s"
        using alloc_some \<open>rep s xs\<close> by blast
      have "x \<noteq> null" "good s x" using rep_good [OF \<open>rep s xs\<close>] Cons by auto
      moreover have "\<exists>held' u zs. serve alloc free null rs (x # held) t = Ok (held', u) \<and> rep u zs \<and>
          mset held' + mset zs = mset (x # held) + mset ys"
        using Cons.prems t Cons \<open>good s x\<close> by (intro Cons.IH) auto
      ultimately show ?thesis using Take t Cons by (simp add: run_simps)
    qed
  next
    case (Give i)
    show ?thesis
    proof (cases "i < length held")
      case False
      then show ?thesis using Give Cons by simp
    next
      case True
      let ?rest = "take i held @ drop (Suc i) held"
      have h: "held = take i held @ held ! i # drop (Suc i) held" using True by (rule id_take_nth_drop)
      have m: "mset held = add_mset (held ! i) (mset ?rest)" by (subst h) simp
      have "held ! i \<in> set held" using True by simp
      then have "good s (held ! i)" "held ! i \<notin> set xs" using Cons.prems by auto
      then obtain t where t: "free (held ! i) s = Ok ((), t)" "rep t (held ! i # xs)" "good t = good s"
        using free_good Cons.prems(1) by blast
      have "distinct (take i held @ held ! i # drop (Suc i) held @ xs)"
        using Cons.prems(2) h by (metis append.assoc append_Cons)
      then have d: "distinct (?rest @ held ! i # xs)" by auto
      have "set ?rest \<subseteq> set held" by (metis m mset_subset_eq_add_right set_mset_add_mset_insert set_mset_mset subset_insertI)
      then have "\<exists>held' u zs. serve alloc free null rs ?rest t = Ok (held', u) \<and> rep u zs \<and>
          mset held' + mset zs = mset ?rest + mset (held ! i # xs)"
        using Cons.prems(3) t d by (intro Cons.IH) auto
      then show ?thesis using Give True t m by (simp add: run_simps)
    qed
  qed
qed

end

interpretation pages: allocator kalloc kfree "\<lambda>s xs. can_alloc p s \<and> kinv s xs" valid_page 0
  for p :: nat
proof
  fix s :: "'a kmem_scheme" and x xs
  show "can_alloc p s \<and> kinv s [] \<Longrightarrow> kalloc s = Ok (0, s)" using kalloc_empty [of p s] by simp
  show "can_alloc p s \<and> kinv s (x # xs) \<Longrightarrow>
      \<exists>t. kalloc s = Ok (x, t) \<and> (can_alloc p t \<and> kinv t xs) \<and> valid_page t = valid_page s"
    using kalloc_pop [of p s x xs] by (auto simp: valid_page_def fun_eq_iff)
  show "can_alloc p s \<and> kinv s xs \<Longrightarrow> valid_page s x \<Longrightarrow> x \<notin> set xs \<Longrightarrow>
      \<exists>t. kfree x s = Ok ((), t) \<and> (can_alloc p t \<and> kinv t (x # xs)) \<and> valid_page t = valid_page s"
    using kfree_run [of p s x] kfree_push [of p s xs x] by (auto simp: valid_page_def fun_eq_iff)
  show "can_alloc p s \<and> kinv s xs \<Longrightarrow> distinct xs \<and> 0 \<notin> set xs \<and> (\<forall>x\<in>set xs. valid_page s x)"
    using valid_page_nonzero [of s] by (auto simp: kinv_def)
qed

subsection \<open>Filling the free list at boot\<close>

text \<open>The \<open>n\<close> pages from \<open>v\<close> on, the last first: the order in which they end up on the list.\<close>

fun page_run :: "uint \<Rightarrow> nat \<Rightarrow> uint list" where
  "page_run v 0 = []"
| "page_run v (Suc n) = page_run (v + 4096) n @ [v]"

lemma page_run_above:
  "unat v + 4096 * n < 4294967296 \<Longrightarrow> x \<in> set (page_run v n) \<Longrightarrow>
   unat v \<le> unat x \<and> unat x < unat v + 4096 * n \<and> unat x mod 4096 = unat v mod 4096"
proof (induction n arbitrary: v)
  case (Suc n)
  have u: "unat (v + 4096) = unat v + 4096"
    using Suc.prems by (intro unat_add_if [of v 4096, simplified]) simp
  show ?case
  proof (cases "x = v")
    case False
    then have "x \<in> set (page_run (v + 4096) n)" using Suc.prems by simp
    then have "unat (v + 4096) \<le> unat x \<and> unat x < unat (v + 4096) + 4096 * n \<and>
        unat x mod 4096 = unat (v + 4096) mod 4096"
      using Suc.prems(1) u by (intro Suc.IH) simp_all
    then show ?thesis by (simp add: u)
  qed simp
qed simp

lemma free_pages_spec:
  assumes "can_alloc p s" "kinv s xs" "n < k" "unat v + 4096 * n \<le> unat vend" "unat vend < unat v + 4096 * Suc n"
    and "unat vend + 4096 < 4294967296"
    and "\<forall>x\<in>set (page_run v n). valid_page s x \<and> x \<notin> set xs"
  shows "\<exists>t. free_pages k v vend s = Ok ((), t) \<and> can_alloc p t \<and> kinv t (page_run v n @ xs)"
  using assms
proof (induction n arbitrary: k v s xs)
  case 0
  then obtain k' where k: "k = Suc k'" by (cases k) auto
  have "unat (v + 4096) = unat v + 4096" using 0 by (intro unat_add_if [of v 4096, simplified]) simp
  then have "\<not> v + 4096 \<le> vend" using 0 by (simp add: word_le_nat_alt)
  then show ?case using 0 k by (simp add: run_simps)
next
  case (Suc n)
  then obtain k' where k: "k = Suc k'" by (cases k) auto
  have u: "unat (v + 4096) = unat v + 4096"
    using Suc.prems by (intro unat_add_if [of v 4096, simplified]) simp
  then have le: "v + 4096 \<le> vend" using Suc.prems by (simp add: word_le_nat_alt)
  have v: "valid_page s v" "v \<notin> set xs" using Suc.prems(7) by auto
  let ?t = "s\<lparr>pmem := store32 v (freelist s) (memset v 1 PGSIZE (pmem s)), freelist := v\<rparr>"
  have vp: "valid_page ?t = valid_page s" by (simp add: valid_page_def fun_eq_iff)
  have "v \<notin> set (page_run (v + 4096) n)"
    using page_run_above [of "v + 4096" n v] u Suc.prems by auto
  then have "\<exists>t. free_pages k' (v + 4096) vend ?t = Ok ((), t) \<and> can_alloc p t \<and>
      kinv t (page_run (v + 4096) n @ v # xs)"
    using Suc.prems k u kfree_push [OF Suc.prems(1,2) v]
    by (intro Suc.IH) (auto simp: vp)
  then show ?case
    using k le kfree_run [OF Suc.prems(1) v(1)] by (simp add: thenk_Ok)
qed

subsection \<open>A concrete memory\<close>

text \<open>Two free pages above the kernel.\<close>

definition demo_kmem :: "'z \<Rightarrow> 'z kmem_scheme" where
  "demo_kmem z = demo_console \<lparr>pmem = store32 0x80400000 0x80401000 (\<lambda>_. 0), kend = 0x80400000,
     use_lock = True, freelist = 0x80400000, \<dots> = z\<rparr>"

lemma demo_kmem:
  "can_alloc 0 (demo_kmem z)" "idle (demo_kmem z) 0" "kinv (demo_kmem z) [0x80400000, 0x80401000]"
proof -
  show i: "idle (demo_kmem z) 0" unfolding demo_kmem_def by (rule demo_console_idle)
  then show "can_alloc 0 (demo_kmem z)" by (simp add: can_alloc_def)
  have s: "pmem (demo_kmem z) = store32 0x80400000 0x80401000 (\<lambda>_. 0)" "kend (demo_kmem z) = 0x80400000"
    "freelist (demo_kmem z) = 0x80400000"
    by (simp_all add: demo_kmem_def demo_console_def demo_machine_def)
  have "load32 0x80401000 (store32 0x80400000 0x80401000 (\<lambda>_. 0)) = 0"
    by (simp add: load32_def store32_def)
  then show "kinv (demo_kmem z) [0x80400000, 0x80401000]"
    by (simp add: kinv_def s valid_page_def V2P_def)
qed

subsection \<open>Properties\<close>

text \<open>C4. No page is ever in two hands. Whatever sequence of allocations and frees a client makes,
  freeing only what it was given, every call returns, and the pages it holds together with the
  free list are exactly the pages that were free at the start, each once.\<close>

theorem pages_conserved:
  assumes "idle s p" "kinv s xs"
  shows "\<exists>held t ys. serve kalloc kfree 0 rs [] s = Ok (held, t) \<and> kinv t ys \<and>
     mset held + mset ys = mset xs \<and> distinct (held @ ys)"
proof -
  have "can_alloc p s" "distinct xs" using assms by (auto simp: can_alloc_def kinv_def)
  then obtain held t ys where h: "serve kalloc kfree 0 rs [] s = Ok (held, t)" "kinv t ys"
    "mset held + mset ys = mset xs"
    using pages.serve_conserves [of p s xs "[]" rs] assms(2) by auto
  then have "distinct (held @ ys)"
    using \<open>distinct xs\<close> by (metis mset_append mset_eq_imp_distinct_iff)
  with h show ?thesis by blast
qed

theorem pages_conserved_witness:
  "\<exists>held t ys. serve kalloc kfree 0 [Take, Take, Take, Give 1, Take] [] (demo_kmem ()) = Ok (held, t) \<and>
     kinv t ys \<and> mset held + mset ys = {#0x80400000, 0x80401000#}"
proof -
  have "\<exists>held t ys. serve kalloc kfree 0 [Take, Take, Take, Give 1, Take] [] (demo_kmem ()) = Ok (held, t) \<and>
     kinv t ys \<and> mset held + mset ys = mset [0x80400000, 0x80401000] \<and> distinct (held @ ys)"
    by (rule pages_conserved [OF demo_kmem(2,3)])
  then show ?thesis unfolding mset.simps by blast
qed

text \<open>C12. Boot fills the allocator: \<open>kinit1\<close> over a range of memory above the kernel terminates and
  leaves every whole page of the range, and nothing else, on the free list.\<close>

theorem kinit1_fills:
  assumes "freelist s = 0" "KERNBASE \<le> kend s" "kend s \<le> vstart" "unat vstart + 8191 < unat vend"
    and "V2P vend \<le> PHYSTOP" "KERNBASE \<le> vend"
  shows "\<exists>t. kinit1 vstart vend s = Ok ((), t) \<and>
    kinv t (page_run (PGROUNDUP vstart) ((unat vend - unat (PGROUNDUP vstart)) div 4096))"
proof -
  have ve: "unat vend + 4096 < 4294967296" using assms(5,6)
    by (simp add: V2P_def word_le_nat_alt unat_sub)
  then have "unat (vstart + 4095) = unat vstart + 4095"
    using assms(4) by (intro unat_add_if [of vstart 4095, simplified]) simp
  then have r: "unat (PGROUNDUP vstart) = (unat vstart + 4095) div 4096 * 4096"
    unfolding PGROUNDUP_def unat_round by simp
  let ?v = "PGROUNDUP vstart" and ?n = "(unat vend - unat (PGROUNDUP vstart)) div 4096"
  let ?s = "s\<lparr>locks := (locks s)(KmemLock := \<lparr>locked = False, lk_cpu = None\<rparr>), use_lock := False\<rparr>"
  have lo: "unat vstart \<le> unat ?v" "unat ?v \<le> unat vend" using assms(4) unfolding r by linarith+
  have n: "unat ?v + 4096 * ?n \<le> unat vend" "unat vend < unat ?v + 4096 * Suc ?n"
    using lo(2) mult_div_mod_eq [of 4096 "unat vend - unat ?v"] mod_less_divisor [of 4096 "unat vend - unat ?v"]
    by (linarith, simp)
  have "valid_page ?s x" if x: "x \<in> set (page_run ?v ?n)" for x
  proof -
    have b: "unat ?v \<le> unat x" "unat x < unat vend" "unat x mod 4096 = 0"
      using page_run_above [of ?v ?n x] n ve x by (auto simp: r)
    have "kend s \<le> x" using b(1) lo(1) assms(3) by (simp add: word_le_nat_alt)
    moreover have "V2P x < PHYSTOP" using b assms(2,5,6) \<open>kend s \<le> x\<close>
      by (simp add: V2P_def word_le_nat_alt word_less_nat_alt unat_sub)
    ultimately show ?thesis using b by (simp add: valid_page_def)
  qed
  moreover have "kinv ?s []" "can_alloc 0 ?s" using assms by (simp_all add: kinv_def can_alloc_def)
  moreover have "?n < 1048577" using unat_lt32 [of vend] by linarith
  ultimately obtain t where "free_pages 1048577 ?v vend ?s = Ok ((), t)" "kinv t (page_run ?v ?n)"
    using free_pages_spec [of 0 ?s "[]" ?n 1048577 ?v vend] n ve by auto
  then show ?thesis by (auto simp: kinit1_def freerange_def initlock_def run_simps)
qed

theorem kinit1_fills_witness:
  "\<exists>t. kinit1 0x80400123 0x80404000 (demo_kmem ()\<lparr>freelist := 0\<rparr>) = Ok ((), t) \<and>
     kinv t [0x80403000, 0x80402000, 0x80401000]"
proof -
  have "PGROUNDUP 0x80400123 = 0x80401000" by (simp add: PGROUNDUP_def)
  then show ?thesis
    using kinit1_fills [of "demo_kmem ()\<lparr>freelist := 0\<rparr>" "0x80400123" "0x80404000"]
    by (simp add: demo_kmem_def demo_console_def demo_machine_def V2P_def numeral_3_eq_3)
qed

end
