(* ===== verification/Vm.thy ===== *)
theory Vm
  imports Kalloc
begin

unbundle bit_operations_syntax

text \<open>
  Page tables (\<open>vm.c\<close>, with the address and segment macros of \<open>mmu.h\<close>). A page directory is the
  address of a page in \<open>pmem\<close>; its entries and those of the page tables are the 32-bit words
  stored there, so every operation reads and writes them at the addresses the code computes.
  \<open>kdata\<close> is the address of the linker symbol \<open>data\<close>. A loop over pages carries a bound of
  \<open>2 ^ 20 + 1\<close> rounds, more than the address space has pages; running out of it stands for a
  loop that never ends. Reading through a null entry pointer is undefined in C and panics.
  \<open>loaduvm\<close>, which reads from a file, is in the theory \<open>Exec\<close>.
\<close>

subsection \<open>Addresses and entries\<close>

definition PDX :: "uint \<Rightarrow> uint" where "PDX va = drop_bit 22 va AND 0x3FF"
definition PTX :: "uint \<Rightarrow> uint" where "PTX va = drop_bit 12 va AND 0x3FF"
definition PGADDR :: "uint \<Rightarrow> uint \<Rightarrow> uint \<Rightarrow> uint" where
  "PGADDR d t off = push_bit 22 d OR push_bit 12 t OR off"

abbreviation (input) PTE_P :: uint where "PTE_P \<equiv> 1"
abbreviation (input) PTE_W :: uint where "PTE_W \<equiv> 2"
abbreviation (input) PTE_U :: uint where "PTE_U \<equiv> 4"
abbreviation (input) EXTMEM :: uint where "EXTMEM \<equiv> 0x100000"
abbreviation (input) DEVSPACE :: uint where "DEVSPACE \<equiv> 0xFE000000"
abbreviation (input) KERNLINK :: uint where "KERNLINK \<equiv> 0x80100000"
abbreviation (input) KSTACKSIZE :: uint where "KSTACKSIZE \<equiv> 4096"
abbreviation (input) MAXPAGES :: nat where "MAXPAGES \<equiv> 1048577"

definition PTE_ADDR :: "uint \<Rightarrow> uint" where "PTE_ADDR pte = pte AND NOT 0xFFF"
definition PTE_FLAGS :: "uint \<Rightarrow> uint" where "PTE_FLAGS pte = pte AND 0xFFF"

subsection \<open>Segments\<close>

record segdesc =
  lim_15_0 :: uint
  base_15_0 :: uint
  base_23_16 :: uint
  sd_type :: uint
  sd_s :: uint
  dpl :: uint
  sd_p :: uint
  lim_19_16 :: uint
  avl :: uint
  rsv1 :: uint
  db :: uint
  sd_g :: uint
  base_31_24 :: uint

definition SEG :: "uint \<Rightarrow> uint \<Rightarrow> uint \<Rightarrow> uint \<Rightarrow> segdesc" where
  "SEG typ base lim d = \<lparr>lim_15_0 = drop_bit 12 lim AND 0xFFFF, base_15_0 = base AND 0xFFFF,
     base_23_16 = drop_bit 16 base AND 0xFF, sd_type = typ, sd_s = 1, dpl = d, sd_p = 1,
     lim_19_16 = drop_bit 28 lim, avl = 0, rsv1 = 0, db = 1, sd_g = 1, base_31_24 = drop_bit 24 base\<rparr>"

definition SEG16 :: "uint \<Rightarrow> uint \<Rightarrow> uint \<Rightarrow> uint \<Rightarrow> segdesc" where
  "SEG16 typ base lim d = \<lparr>lim_15_0 = lim AND 0xFFFF, base_15_0 = base AND 0xFFFF,
     base_23_16 = drop_bit 16 base AND 0xFF, sd_type = typ, sd_s = 1, dpl = d, sd_p = 1,
     lim_19_16 = drop_bit 16 lim, avl = 0, rsv1 = 0, db = 1, sd_g = 0, base_31_24 = drop_bit 24 base\<rparr>"

abbreviation (input) SEG_KCODE :: nat where "SEG_KCODE \<equiv> 1"
abbreviation (input) SEG_KDATA :: nat where "SEG_KDATA \<equiv> 2"
abbreviation (input) SEG_UCODE :: nat where "SEG_UCODE \<equiv> 3"
abbreviation (input) SEG_UDATA :: nat where "SEG_UDATA \<equiv> 4"
abbreviation (input) SEG_TSS :: nat where "SEG_TSS \<equiv> 5"
abbreviation (input) DPL_USER :: uint where "DPL_USER \<equiv> 3"

record taskstate =
  ts_ss0 :: "16 word"
  ts_esp0 :: uint
  ts_iomb :: "16 word"

record vm = kmem +
  kdata :: uint
  kpgdir :: uint
  cr3 :: uint
  gdt :: "nat \<Rightarrow> nat \<Rightarrow> segdesc"
  gdtr :: "nat option"
  ts :: "nat \<Rightarrow> taskstate"
  ts_addr :: "nat \<Rightarrow> uint"
  tr :: uint

definition set_gdt :: "nat \<Rightarrow> nat \<Rightarrow> segdesc \<Rightarrow> ('z vm_scheme, unit) kop" where
  "set_gdt c i d = modk (\<lambda>s. s\<lparr>gdt := (gdt s)(c := (gdt s c)(i := d))\<rparr>)"

definition set_ts :: "nat \<Rightarrow> (taskstate \<Rightarrow> taskstate) \<Rightarrow> ('z vm_scheme, unit) kop" where
  "set_ts c f = modk (\<lambda>s. s\<lparr>ts := (ts s)(c := f (ts s c))\<rparr>)"

definition lcr3 :: "uint \<Rightarrow> ('z vm_scheme, unit) kop" where
  "lcr3 v = modk (\<lambda>s. s\<lparr>cr3 := v\<rparr>)"

definition seginit :: "('z vm_scheme, unit) kop" where
  "seginit =
     bindk cpuid (\<lambda>c.
     thenk (set_gdt c SEG_KCODE (SEG (0x8 OR 0x2) 0 0xFFFFFFFF 0)) (
     thenk (set_gdt c SEG_KDATA (SEG 0x2 0 0xFFFFFFFF 0)) (
     thenk (set_gdt c SEG_UCODE (SEG (0x8 OR 0x2) 0 0xFFFFFFFF DPL_USER)) (
     thenk (set_gdt c SEG_UDATA (SEG 0x2 0 0xFFFFFFFF DPL_USER))
       (modk (\<lambda>s. s\<lparr>gdtr := Some c\<rparr>))))))"

subsection \<open>Loads and stores of kernel memory\<close>

definition ld32 :: "uint \<Rightarrow> ('z kmem_scheme, uint) kop" where
  "ld32 a = getk (\<lambda>s. load32 a (pmem s))"

definition st32 :: "uint \<Rightarrow> uint \<Rightarrow> ('z kmem_scheme, unit) kop" where
  "st32 a w = modk (\<lambda>s. s\<lparr>pmem := store32 a w (pmem s)\<rparr>)"

definition fill :: "uint \<Rightarrow> uint \<Rightarrow> nat \<Rightarrow> ('z kmem_scheme, unit) kop" where
  "fill a c n = modk (\<lambda>s. s\<lparr>pmem := memset a c n (pmem s)\<rparr>)"

definition move_mem :: "uint \<Rightarrow> uint \<Rightarrow> nat \<Rightarrow> ('z kmem_scheme, unit) kop" where
  "move_mem dst src n = modk (\<lambda>s. s\<lparr>pmem := memmove dst src n (pmem s)\<rparr>)"

subsection \<open>Page table operations\<close>

definition walkpgdir :: "uint \<Rightarrow> uint \<Rightarrow> bool \<Rightarrow> ('z kmem_scheme, uint) kop" where
  "walkpgdir pd va alloc =
     (let pde = pd + 4 * PDX va in
      bindk (ld32 pde) (\<lambda>e.
      if e AND PTE_P \<noteq> 0 then ret (P2V (PTE_ADDR e) + 4 * PTX va)
      else if \<not> alloc then ret 0
      else bindk kalloc (\<lambda>pgtab.
        if pgtab = 0 then ret 0
        else thenk (fill pgtab 0 PGSIZE) (
          thenk (st32 pde (V2P pgtab OR PTE_P OR PTE_W OR PTE_U))
            (ret (pgtab + 4 * PTX va))))))"

fun map_loop :: "nat \<Rightarrow> uint \<Rightarrow> uint \<Rightarrow> uint \<Rightarrow> uint \<Rightarrow> uint \<Rightarrow> ('z kmem_scheme, int) kop" where
  "map_loop 0 pd a la pa perm = block"
| "map_loop (Suc k) pd a la pa perm =
     bindk (walkpgdir pd a True) (\<lambda>pte.
     if pte = 0 then ret (- 1)
     else bindk (ld32 pte) (\<lambda>e.
       if e AND PTE_P \<noteq> 0 then panic ''remap''
       else thenk (st32 pte (pa OR perm OR PTE_P))
         (if a = la then ret 0 else map_loop k pd (a + 4096) la (pa + 4096) perm)))"

definition mappages :: "uint \<Rightarrow> uint \<Rightarrow> uint \<Rightarrow> uint \<Rightarrow> uint \<Rightarrow> ('z kmem_scheme, int) kop" where
  "mappages pd va n pa perm =
     map_loop MAXPAGES pd (PGROUNDDOWN va) (PGROUNDDOWN (va + n - 1)) pa perm"

fun dealloc_loop :: "nat \<Rightarrow> uint \<Rightarrow> uint \<Rightarrow> uint \<Rightarrow> ('z kmem_scheme, unit) kop" where
  "dealloc_loop 0 pd a oldsz = block"
| "dealloc_loop (Suc k) pd a oldsz =
     (if a < oldsz then
        bindk (walkpgdir pd a False) (\<lambda>pte.
        if pte = 0 then dealloc_loop k pd (PGADDR (PDX a + 1) 0 0 - 4096 + 4096) oldsz
        else bindk (ld32 pte) (\<lambda>e.
          if e AND PTE_P \<noteq> 0 then
            (let pa = PTE_ADDR e in
             if pa = 0 then panic ''kfree''
             else thenk (kfree (P2V pa)) (
               thenk (st32 pte 0)
                 (dealloc_loop k pd (a + 4096) oldsz)))
          else dealloc_loop k pd (a + 4096) oldsz))
      else ret ())"

definition deallocuvm :: "uint \<Rightarrow> uint \<Rightarrow> uint \<Rightarrow> ('z kmem_scheme, uint) kop" where
  "deallocuvm pd oldsz newsz =
     (if oldsz \<le> newsz then ret oldsz
      else thenk (dealloc_loop MAXPAGES pd (PGROUNDUP newsz) oldsz) (ret newsz))"

definition freevm :: "uint \<Rightarrow> ('z kmem_scheme, unit) kop" where
  "freevm pd =
     (if pd = 0 then panic ''freevm: no pgdir''
      else thenk (deallocuvm pd KERNBASE 0) (
        thenk (for_each [0..<1024] (\<lambda>i.
          bindk (ld32 (pd + 4 * of_nat i)) (\<lambda>e.
          whenk (e AND PTE_P \<noteq> 0) (kfree (P2V (PTE_ADDR e))))))
          (kfree pd)))"

record kmap_entry =
  km_virt :: uint
  phys_start :: uint
  phys_end :: uint
  km_perm :: uint

definition kmap :: "uint \<Rightarrow> kmap_entry list" where
  "kmap dat =
    [\<lparr>km_virt = KERNBASE, phys_start = 0, phys_end = EXTMEM, km_perm = PTE_W\<rparr>,
     \<lparr>km_virt = KERNLINK, phys_start = V2P KERNLINK, phys_end = V2P dat, km_perm = 0\<rparr>,
     \<lparr>km_virt = dat, phys_start = V2P dat, phys_end = PHYSTOP, km_perm = PTE_W\<rparr>,
     \<lparr>km_virt = DEVSPACE, phys_start = DEVSPACE, phys_end = 0, km_perm = PTE_W\<rparr>]"

fun map_kernel :: "uint \<Rightarrow> kmap_entry list \<Rightarrow> ('z kmem_scheme, uint) kop" where
  "map_kernel pd [] = ret pd"
| "map_kernel pd (k # ks) =
     bindk (mappages pd (km_virt k) (phys_end k - phys_start k) (phys_start k) (km_perm k)) (\<lambda>r.
     if r < 0 then thenk (freevm pd) (ret 0) else map_kernel pd ks)"

definition setupkvm :: "('z vm_scheme, uint) kop" where
  "setupkvm =
     bindk kalloc (\<lambda>pd.
     if pd = 0 then ret 0
     else thenk (fill pd 0 PGSIZE) (
       if DEVSPACE < P2V PHYSTOP then panic ''PHYSTOP too high''
       else bindk (getk kdata) (\<lambda>dat. map_kernel pd (kmap dat))))"

definition switchkvm :: "('z vm_scheme, unit) kop" where
  "switchkvm = bindk (getk kpgdir) (\<lambda>d. lcr3 (V2P d))"

definition kvmalloc :: "('z vm_scheme, unit) kop" where
  "kvmalloc = bindk setupkvm (\<lambda>d. thenk (modk (\<lambda>s. s\<lparr>kpgdir := d\<rparr>)) switchkvm)"

definition switchuvm :: "nat option \<Rightarrow> ('z vm_scheme, unit) kop" where
  "switchuvm po =
     (case po of None \<Rightarrow> panic ''switchuvm: no process'' | Some p \<Rightarrow>
      bindk (getk (\<lambda>s. ptable s p)) (\<lambda>q.
      if kstack q = 0 then panic ''switchuvm: no kstack''
      else if pgdir q = 0 then panic ''switchuvm: no pgdir''
      else
        thenk pushcli (
        bindk mycpu (\<lambda>c.
        bindk (getk (\<lambda>s. ts_addr s c)) (\<lambda>a.
        thenk (set_gdt c SEG_TSS (SEG16 9 a (104 - 1) 0)) (
        thenk (modk (\<lambda>s. s\<lparr>gdt := (gdt s)(c := (gdt s c)(SEG_TSS := (gdt s c SEG_TSS)\<lparr>sd_s := 0\<rparr>))\<rparr>)) (
        thenk (set_ts c (\<lambda>t. t\<lparr>ts_ss0 := 16\<rparr>)) (
        thenk (set_ts c (\<lambda>t. t\<lparr>ts_esp0 := kstack q + KSTACKSIZE\<rparr>)) (
        thenk (set_ts c (\<lambda>t. t\<lparr>ts_iomb := 0xFFFF\<rparr>)) (
        thenk (modk (\<lambda>s. s\<lparr>tr := 40\<rparr>)) (
        thenk (lcr3 (V2P (pgdir q)))
          popcli)))))))))))"

definition inituvm :: "uint \<Rightarrow> byte list \<Rightarrow> ('z kmem_scheme, unit) kop" where
  "inituvm pd init =
     (if PGSIZE \<le> length init then panic ''inituvm: more than a page''
      else bindk kalloc (\<lambda>m.
        thenk (fill m 0 PGSIZE) (
        bindk (mappages pd 0 4096 (V2P m) (PTE_W OR PTE_U)) (\<lambda>_.
        modk (\<lambda>s. s\<lparr>pmem := store_bytes m init (pmem s)\<rparr>)))))"

fun alloc_loop :: "nat \<Rightarrow> uint \<Rightarrow> uint \<Rightarrow> uint \<Rightarrow> uint \<Rightarrow> ('z kmem_scheme, uint) kop" where
  "alloc_loop 0 pd a oldsz newsz = block"
| "alloc_loop (Suc k) pd a oldsz newsz =
     (if a < newsz then
        bindk kalloc (\<lambda>m.
        if m = 0 then
          thenk (cprintf (''allocuvm out of memory'' @ [CHR 0x0A]) [])
            (thenk (deallocuvm pd newsz oldsz) (ret 0))
        else thenk (fill m 0 PGSIZE) (
          bindk (mappages pd a 4096 (V2P m) (PTE_W OR PTE_U)) (\<lambda>r.
          if r < 0 then
            thenk (cprintf (''allocuvm out of memory (2)'' @ [CHR 0x0A]) [])
              (thenk (deallocuvm pd newsz oldsz) (thenk (kfree m) (ret 0)))
          else alloc_loop k pd (a + 4096) oldsz newsz)))
      else ret newsz)"

definition allocuvm :: "uint \<Rightarrow> uint \<Rightarrow> uint \<Rightarrow> ('z kmem_scheme, uint) kop" where
  "allocuvm pd oldsz newsz =
     (if KERNBASE \<le> newsz then ret 0
      else if newsz < oldsz then ret oldsz
      else alloc_loop MAXPAGES pd (PGROUNDUP oldsz) oldsz newsz)"

definition clearpteu :: "uint \<Rightarrow> uint \<Rightarrow> ('z kmem_scheme, unit) kop" where
  "clearpteu pd uva =
     bindk (walkpgdir pd uva False) (\<lambda>pte.
     if pte = 0 then panic ''clearpteu''
     else bindk (ld32 pte) (\<lambda>e. st32 pte (e AND NOT PTE_U)))"

fun copy_loop :: "nat \<Rightarrow> uint \<Rightarrow> uint \<Rightarrow> uint \<Rightarrow> uint \<Rightarrow> ('z kmem_scheme, uint) kop" where
  "copy_loop 0 pd d i n = block"
| "copy_loop (Suc k) pd d i n =
     (if i < n then
        bindk (walkpgdir pd i False) (\<lambda>pte.
        if pte = 0 then panic ''copyuvm: pte should exist''
        else bindk (ld32 pte) (\<lambda>e.
          if e AND PTE_P = 0 then panic ''copyuvm: page not present''
          else bindk kalloc (\<lambda>m.
            if m = 0 then thenk (freevm d) (ret 0)
            else thenk (move_mem m (P2V (PTE_ADDR e)) PGSIZE) (
              bindk (mappages d i 4096 (V2P m) (PTE_FLAGS e)) (\<lambda>r.
              if r < 0 then thenk (kfree m) (thenk (freevm d) (ret 0))
              else copy_loop k pd d (i + 4096) n)))))
      else ret d)"

definition copyuvm :: "uint \<Rightarrow> uint \<Rightarrow> ('z vm_scheme, uint) kop" where
  "copyuvm pd n =
     bindk setupkvm (\<lambda>d. if d = 0 then ret 0 else copy_loop MAXPAGES pd d 0 n)"

definition uva2ka :: "uint \<Rightarrow> uint \<Rightarrow> ('z kmem_scheme, uint) kop" where
  "uva2ka pd uva =
     bindk (walkpgdir pd uva False) (\<lambda>pte.
     if pte = 0 then panic ''null dereference: pte''
     else bindk (ld32 pte) (\<lambda>e.
       if e AND PTE_P = 0 then ret 0
       else if e AND PTE_U = 0 then ret 0
       else ret (P2V (PTE_ADDR e))))"

text \<open>\<open>copyout\<close> takes the bytes it copies: its callers pass kernel stack data.\<close>

fun copyout_loop :: "nat \<Rightarrow> uint \<Rightarrow> uint \<Rightarrow> byte list \<Rightarrow> ('z kmem_scheme, int) kop" where
  "copyout_loop 0 pd va bs = block"
| "copyout_loop (Suc k) pd va bs =
     (if bs \<noteq> [] then
        (let va0 = PGROUNDDOWN va in
         bindk (uva2ka pd va0) (\<lambda>pa0.
         if pa0 = 0 then ret (- 1)
         else let n = min (PGSIZE - unat (va - va0)) (length bs) in
           thenk (modk (\<lambda>s. s\<lparr>pmem := store_bytes (pa0 + (va - va0)) (take n bs) (pmem s)\<rparr>))
             (copyout_loop k pd (va0 + 4096) (drop n bs))))
      else ret 0)"

definition copyout :: "uint \<Rightarrow> uint \<Rightarrow> byte list \<Rightarrow> ('z kmem_scheme, int) kop" where
  "copyout pd va bs = copyout_loop (Suc (length bs)) pd va bs"

subsection \<open>Indices\<close>

lemma unat_and_1023: "unat (x AND 0x3FF) = unat x mod 1024" for x :: uint
proof -
  have e: "(0x3FF :: uint) = mask 10" by (simp add: mask_eq_exp_minus_1)
  show ?thesis unfolding e take_bit_eq_mask [symmetric] by (simp add: take_bit_eq_mod unat_mod)
qed

lemma unat_PTX: "unat (PTX a) = unat a div 4096 mod 1024"
  by (simp add: PTX_def unat_and_1023 drop_bit_eq_div unat_div)

lemma unat_PDX: "unat (PDX a) = unat a div 4194304"
proof -
  have "unat a div 4194304 < 1024" using unat_lt32 [of a] by (simp add: div_less_iff_less_mult)
  then show ?thesis by (simp add: PDX_def unat_and_1023 drop_bit_eq_div unat_div)
qed

subsection \<open>A concrete memory\<close>

definition demo_vm :: "'z \<Rightarrow> 'z vm_scheme" where
  "demo_vm z = demo_kmem \<lparr>kdata = 0x80108000, kpgdir = 0, cr3 = 0, gdt = (\<lambda>_ _. SEG 0 0 0 0), gdtr = None,
     ts = (\<lambda>_. \<lparr>ts_ss0 = 0, ts_esp0 = 0, ts_iomb = 0\<rparr>), ts_addr = (\<lambda>_. 0), tr = 0, \<dots> = z\<rparr>"

lemma demo_vm_idle: "idle (demo_vm z) 0"
  unfolding demo_vm_def by (rule demo_kmem)

end
