(* ===== verification/Bio.thy ===== *)
theory Bio
  imports Vm
begin

text \<open>
  The buffer cache (\<open>bio.c\<close>, \<open>buf.h\<close>) over the memory disk driver (\<open>memide.c\<close>).

  \<open>bcache.buf[i]\<close> is \<open>buf s i\<close> for \<open>i < NBUF\<close> and \<open>bcache.head\<close> is \<open>buf s HEAD\<close>;
  pointers between buffers are these indices, so the doubly linked list is kept with its
  \<open>prev\<close> and \<open>next\<close> pointers exactly as the code updates them. The flag word is the pair
  of its two bits, \<open>B_VALID\<close> and \<open>B_DIRTY\<close>. \<open>memdisk s b\<close> is block \<open>b\<close> of the disk,
  and \<open>hist s\<close> the sequence of block writes the disk has received, an observation that no
  operation reads: it is what a power failure can cut short.

  Shown: the pointer list always represents a list of all buffers in most recently used
  order, which \<open>bget\<close> searches and \<open>brelse\<close> reorders; and, above it, the cache is
  transparent: every block has one current content, \<open>view s b\<close>, that \<open>bread\<close> returns and
  that taking, keeping or recycling buffers never changes.
\<close>

abbreviation (input) NBUF :: nat where "NBUF \<equiv> 30"
abbreviation (input) HEAD :: nat where "HEAD \<equiv> 30"
abbreviation (input) BSIZE :: nat where "BSIZE \<equiv> 512"

subsection \<open>Data\<close>

record buf =
  b_valid :: bool
  b_dirty :: bool
  b_dev :: nat
  b_blockno :: nat
  b_lock :: sleeplock
  b_refcnt :: uint
  b_prev :: nat
  b_next :: nat
  b_data :: "byte list"

record bcache = vm +
  memdisk :: "nat \<Rightarrow> byte list"
  hist :: "(nat \<times> byte list) list"
  disksize :: nat
  buf :: "nat \<Rightarrow> buf"

definition upd_buf :: "nat \<Rightarrow> (buf \<Rightarrow> buf) \<Rightarrow> 'z bcache_scheme \<Rightarrow> 'z bcache_scheme" where
  "upd_buf i f s = s\<lparr>buf := (buf s)(i := f (buf s i))\<rparr>"

abbreviation put_b_lock :: "nat \<Rightarrow> sleeplock \<Rightarrow> 'z bcache_scheme \<Rightarrow> 'z bcache_scheme" where
  "put_b_lock i l \<equiv> upd_buf i (\<lambda>b. b\<lparr>b_lock := l\<rparr>)"

abbreviation get_b_lock :: "nat \<Rightarrow> 'z bcache_scheme \<Rightarrow> sleeplock" where
  "get_b_lock i s \<equiv> b_lock (buf s i)"

definition acquire_buf :: "nat \<Rightarrow> ('z bcache_scheme, unit) kop" where
  "acquire_buf i = acquiresleep (BufSpin i) (ChanBufLock i) (get_b_lock i) (put_b_lock i)"

definition release_buf :: "nat \<Rightarrow> ('z bcache_scheme, unit) kop" where
  "release_buf i = releasesleep (BufSpin i) (ChanBufLock i) (put_b_lock i)"

definition holding_buf :: "nat \<Rightarrow> ('z bcache_scheme, bool) kop" where
  "holding_buf i = holdingsleep (BufSpin i) (get_b_lock i)"

subsection \<open>The memory disk driver\<close>

definition iderw :: "nat \<Rightarrow> ('z bcache_scheme, unit) kop" where
  "iderw i =
     bindk (holding_buf i) (\<lambda>h.
     if \<not> h then panic ''iderw: buf not locked''
     else bindk (getk (\<lambda>s. buf s i)) (\<lambda>b.
     if b_valid b \<and> \<not> b_dirty b then panic ''iderw: nothing to do''
     else if b_dev b \<noteq> 1 then panic ''iderw: request not for disk 1''
     else bindk (getk disksize) (\<lambda>n.
     if n \<le> b_blockno b then panic ''iderw: block out of range''
     else thenk
       (if b_dirty b
        then thenk (modk (upd_buf i (\<lambda>b. b\<lparr>b_dirty := False\<rparr>)))
          (modk (\<lambda>s. s\<lparr>memdisk := (memdisk s)(b_blockno b := b_data b),
             hist := hist s @ [(b_blockno b, b_data b)]\<rparr>))
        else modk (\<lambda>s. upd_buf i (\<lambda>b'. b'\<lparr>b_data := memdisk s (b_blockno b)\<rparr>) s))
       (modk (upd_buf i (\<lambda>b. b\<lparr>b_valid := True\<rparr>))))))"

subsection \<open>The buffer cache\<close>

definition set_next :: "nat \<Rightarrow> nat \<Rightarrow> (nat \<Rightarrow> buf) \<Rightarrow> (nat \<Rightarrow> buf)" where
  "set_next i j bs = bs(i := (bs i)\<lparr>b_next := j\<rparr>)"

definition set_prev :: "nat \<Rightarrow> nat \<Rightarrow> (nat \<Rightarrow> buf) \<Rightarrow> (nat \<Rightarrow> buf)" where
  "set_prev i j bs = bs(i := (bs i)\<lparr>b_prev := j\<rparr>)"

definition link_front :: "nat \<Rightarrow> (nat \<Rightarrow> buf) \<Rightarrow> (nat \<Rightarrow> buf)" where
  "link_front b bs0 =
     (let bs1 = set_next b (b_next (bs0 HEAD)) bs0;
          bs2 = set_prev b HEAD bs1;
          bs3 = set_prev (b_next (bs2 HEAD)) b bs2
      in set_next HEAD b bs3)"

definition unlink_buf :: "nat \<Rightarrow> (nat \<Rightarrow> buf) \<Rightarrow> (nat \<Rightarrow> buf)" where
  "unlink_buf b bs0 =
     (let bs1 = set_prev (b_next (bs0 b)) (b_prev (bs0 b)) bs0
      in set_next (b_prev (bs1 b)) (b_next (bs1 b)) bs1)"

definition binit :: "('z bcache_scheme, unit) kop" where
  "binit =
     thenk (initlock BcacheLock) (
     thenk (modk (\<lambda>s. s\<lparr>buf := set_next HEAD HEAD (set_prev HEAD HEAD (buf s))\<rparr>)) (
     for_each [0..<NBUF] (\<lambda>b.
       thenk (initsleeplock (BufSpin b) (put_b_lock b))
         (modk (\<lambda>s. s\<lparr>buf := link_front b (buf s)\<rparr>)))))"

text \<open>One of \<open>bget\<close>'s two loops: follow \<open>nx\<close> from \<open>b\<close> until the head comes round again.
  \<open>None\<close> means that the head did not come within the given number of steps.\<close>

fun scan :: "nat \<Rightarrow> (nat \<Rightarrow> nat) \<Rightarrow> (nat \<Rightarrow> bool) \<Rightarrow> nat \<Rightarrow> nat option option" where
  "scan 0 nx P b = None"
| "scan (Suc k) nx P b =
     (if b = HEAD then Some None else if P b then Some (Some b) else scan k nx P (nx b))"

definition bget :: "nat \<Rightarrow> nat \<Rightarrow> ('z bcache_scheme, nat) kop" where
  "bget dev blockno =
     thenk (acquire BcacheLock) (
     bindk (getk (\<lambda>s. scan (NBUF + 1) (\<lambda>b. b_next (buf s b))
       (\<lambda>b. b_dev (buf s b) = dev \<and> b_blockno (buf s b) = blockno) (b_next (buf s HEAD)))) (\<lambda>r.
     case r of None \<Rightarrow> block
     | Some (Some b) \<Rightarrow>
         thenk (modk (upd_buf b (\<lambda>b. b\<lparr>b_refcnt := b_refcnt b + 1\<rparr>))) (
         thenk (release BcacheLock) (
         thenk (acquire_buf b) (ret b)))
     | Some None \<Rightarrow>
       bindk (getk (\<lambda>s. scan (NBUF + 1) (\<lambda>b. b_prev (buf s b))
         (\<lambda>b. b_refcnt (buf s b) = 0 \<and> \<not> b_dirty (buf s b)) (b_prev (buf s HEAD)))) (\<lambda>r.
       case r of None \<Rightarrow> block
       | Some (Some b) \<Rightarrow>
           thenk (modk (upd_buf b (\<lambda>b. b\<lparr>b_dev := dev, b_blockno := blockno,
             b_valid := False, b_dirty := False, b_refcnt := 1\<rparr>))) (
           thenk (release BcacheLock) (
           thenk (acquire_buf b) (ret b)))
       | Some None \<Rightarrow> panic ''bget: no buffers'')))"

definition bread :: "nat \<Rightarrow> nat \<Rightarrow> ('z bcache_scheme, nat) kop" where
  "bread dev blockno =
     bindk (bget dev blockno) (\<lambda>b.
     bindk (getk (\<lambda>s. b_valid (buf s b))) (\<lambda>v.
     thenk (whenk (\<not> v) (iderw b)) (ret b)))"

definition bwrite :: "nat \<Rightarrow> ('z bcache_scheme, unit) kop" where
  "bwrite b =
     bindk (holding_buf b) (\<lambda>h.
     if \<not> h then panic ''bwrite''
     else thenk (modk (upd_buf b (\<lambda>b. b\<lparr>b_dirty := True\<rparr>))) (iderw b))"

definition brelse :: "nat \<Rightarrow> ('z bcache_scheme, unit) kop" where
  "brelse b =
     bindk (holding_buf b) (\<lambda>h.
     if \<not> h then panic ''brelse''
     else thenk (release_buf b) (
       thenk (acquire BcacheLock) (
       thenk (modk (upd_buf b (\<lambda>b. b\<lparr>b_refcnt := b_refcnt b - 1\<rparr>))) (
       thenk (modk (\<lambda>s. if b_refcnt (buf s b) = 0
           then s\<lparr>buf := link_front b (unlink_buf b (buf s))\<rparr> else s))
         (release BcacheLock)))))"

text \<open>What a holder of a buffer does to its bytes.\<close>

definition set_data :: "nat \<Rightarrow> (byte list \<Rightarrow> byte list) \<Rightarrow> ('z bcache_scheme, unit) kop" where
  "set_data i f = modk (upd_buf i (\<lambda>b. b\<lparr>b_data := f (b_data b)\<rparr>))"

definition get_data :: "nat \<Rightarrow> ('z bcache_scheme, byte list) kop" where
  "get_data i = getk (\<lambda>s. b_data (buf s i))"

subsection \<open>The list behind the pointers\<close>

fun chain :: "(nat \<Rightarrow> nat) \<Rightarrow> nat \<Rightarrow> nat list \<Rightarrow> nat \<Rightarrow> bool" where
  "chain nx a [] z = (nx a = z)"
| "chain nx a (x # xs) z = (nx a = x \<and> chain nx x xs z)"

definition dll :: "(nat \<Rightarrow> buf) \<Rightarrow> nat list \<Rightarrow> bool" where
  "dll bs xs \<longleftrightarrow>
     chain (\<lambda>b. b_next (bs b)) HEAD xs HEAD \<and> chain (\<lambda>b. b_prev (bs b)) HEAD (rev xs) HEAD \<and>
     distinct (HEAD # xs)"

lemma chain_append: "chain nx a (xs @ y # ys) z \<longleftrightarrow> chain nx a xs y \<and> chain nx y ys z"
  by (induction xs arbitrary: a) auto

lemma chain_upd: "u \<noteq> a \<Longrightarrow> u \<notin> set xs \<Longrightarrow> chain (nx(u := v)) a xs z = chain nx a xs z"
  by (induction xs arbitrary: a) auto

lemma chain_cong: "(\<And>x. x \<in> set (a # xs) \<Longrightarrow> nx x = nx' x) \<Longrightarrow> chain nx a xs z = chain nx' a xs z"
  by (induction xs arbitrary: a) auto

lemma chain_redirect:
  "chain nx a xs y \<Longrightarrow> distinct (a # xs) \<Longrightarrow> chain (nx(last (a # xs) := z)) a xs z"
proof (induction xs arbitrary: a)
  case Nil
  then show ?case by simp
next
  case (Cons x xs)
  have "last (x # xs) \<in> set (x # xs)" by (rule last_in_set) simp
  then have "last (x # xs) \<noteq> a" using Cons.prems(2) by auto
  with Cons show ?case by auto
qed

lemma chain_first: "chain nx a xs z \<Longrightarrow> nx a = hd (xs @ [z])"
  by (cases xs) auto

lemma chain_last: "chain nx a xs z \<Longrightarrow> nx (last (a # xs)) = z"
  by (induction xs arbitrary: a) auto

lemma chain_unlink:
  assumes "chain nx a (as @ b # cs) z" "distinct (a # as @ b # cs)"
  shows "chain (nx(last (a # as) := nx b)) a (as @ cs) z"
proof -
  from assms(1) have c: "chain nx a as b" "chain nx b cs z"
    by (auto simp: chain_append)
  have l: "last (a # as) \<in> set (a # as)" by (rule last_in_set) simp
  then have "last (a # as) \<noteq> b" "last (a # as) \<notin> set cs" using assms(2) by auto
  with c(2) have "chain (nx(last (a # as) := nx b)) b cs z" by (simp add: chain_upd)
  moreover have "chain (nx(last (a # as) := nx b)) a as (nx b)"
    using c(1) assms(2) by (intro chain_redirect) auto
  ultimately show ?thesis
    using \<open>last (a # as) \<noteq> b\<close> by (cases cs) (auto simp: chain_append)
qed

lemma scan_chain:
  "chain nx a xs HEAD \<Longrightarrow> HEAD \<notin> set xs \<Longrightarrow> length xs < k \<Longrightarrow>
   scan k nx P (nx a) = Some (List.find P xs)"
proof (induction xs arbitrary: a k)
  case Nil
  then show ?case by (cases k) auto
next
  case (Cons x xs)
  then show ?case by (cases k) auto
qed

subsection \<open>Unlinking and relinking a buffer\<close>

lemma next_prev_upd:
  "(\<lambda>x. b_next (set_next i j bs x)) = (\<lambda>x. b_next (bs x))(i := j)"
  "(\<lambda>x. b_next (set_prev i j bs x)) = (\<lambda>x. b_next (bs x))"
  "(\<lambda>x. b_prev (set_prev i j bs x)) = (\<lambda>x. b_prev (bs x))(i := j)"
  "(\<lambda>x. b_prev (set_next i j bs x)) = (\<lambda>x. b_prev (bs x))"
  by (auto simp: set_next_def set_prev_def fun_eq_iff)

lemma link_front_next:
  "b \<noteq> HEAD \<Longrightarrow> (\<lambda>x. b_next (link_front b bs x)) =
    (\<lambda>x. b_next (bs x))(b := b_next (bs HEAD), HEAD := b)"
  by (simp add: link_front_def Let_def next_prev_upd)

lemma link_front_prev:
  "b \<noteq> HEAD \<Longrightarrow> (\<lambda>x. b_prev (link_front b bs x)) =
    (\<lambda>x. b_prev (bs x))(b := HEAD, b_next (bs HEAD) := b)"
  by (simp add: link_front_def Let_def next_prev_upd) (simp add: set_next_def set_prev_def)

lemma unlink_next:
  "b_next (bs b) \<noteq> b \<Longrightarrow> (\<lambda>x. b_next (unlink_buf b bs x)) =
    (\<lambda>x. b_next (bs x))(b_prev (bs b) := b_next (bs b))"
  by (simp add: unlink_buf_def Let_def next_prev_upd) (simp add: set_prev_def)

lemma unlink_prev:
  "(\<lambda>x. b_prev (unlink_buf b bs x)) = (\<lambda>x. b_prev (bs x))(b_next (bs b) := b_prev (bs b))"
  by (simp add: unlink_buf_def Let_def next_prev_upd)

lemma dll_link_front:
  assumes "dll bs xs" "b \<noteq> HEAD" "b \<notin> set xs"
  shows "dll (link_front b bs) (b # xs)"
proof -
  let ?nx = "\<lambda>x. b_next (bs x)" and ?pv = "\<lambda>x. b_prev (bs x)"
  from assms(1) have n: "chain ?nx HEAD xs HEAD" and p: "chain ?pv HEAD (rev xs) HEAD"
    and d: "distinct (HEAD # xs)" by (auto simp: dll_def)
  have first: "?nx HEAD = hd (xs @ [HEAD])" using n by (rule chain_first)
  have nb: "chain (?nx(b := ?nx HEAD, HEAD := b)) b xs HEAD"
  proof (cases xs)
    case Nil
    then show ?thesis using first assms(2) by simp
  next
    case (Cons y ys)
    then show ?thesis
      using n d assms(2,3) by (auto simp: chain_upd)
  qed
  have "hd (xs @ [HEAD]) = last (HEAD # rev xs)"
    by (cases xs) auto
  then have "chain (?pv(b := HEAD, ?nx HEAD := b)) HEAD (rev xs) b"
    using p d assms(2,3) first chain_redirect [of "?pv(b := HEAD)" HEAD "rev xs" HEAD b]
    by (simp add: chain_upd)
  moreover have "(?pv(b := HEAD, ?nx HEAD := b)) b = HEAD"
    using first assms(2,3) by (cases xs) auto
  ultimately have pb: "chain (?pv(b := HEAD, ?nx HEAD := b)) HEAD (rev xs @ [b]) HEAD"
    by (simp add: chain_append)
  show ?thesis
    unfolding dll_def link_front_next [OF assms(2)] link_front_prev [OF assms(2)]
    using nb pb d assms(2,3) by simp
qed

lemma dll_unlink:
  assumes "dll bs (as @ b # cs)"
  shows "dll (unlink_buf b bs) (as @ cs)"
proof -
  let ?nx = "\<lambda>x. b_next (bs x)" and ?pv = "\<lambda>x. b_prev (bs x)"
  from assms have n: "chain ?nx HEAD (as @ b # cs) HEAD"
    and p: "chain ?pv HEAD (rev cs @ b # rev as) HEAD"
    and d: "distinct (HEAD # as @ b # cs)" by (auto simp: dll_def)
  from n have "chain ?nx b cs HEAD" by (simp add: chain_append)
  from chain_first [OF this] have nb: "?nx b = last (HEAD # rev cs)"
    by (cases cs) auto
  from p have "chain ?pv b (rev as) HEAD" by (simp add: chain_append)
  from chain_first [OF this] have pb: "?pv b = last (HEAD # as)"
    by (cases "as = []") (auto simp: hd_append hd_rev)
  have ne: "?nx b \<noteq> b" using nb d by (cases cs) auto
  have "chain (?nx(?pv b := ?nx b)) HEAD (as @ cs) HEAD"
    unfolding pb using n d by (rule chain_unlink)
  moreover have "chain (?pv(?nx b := ?pv b)) HEAD (rev cs @ rev as) HEAD"
    unfolding nb using p d by (intro chain_unlink) auto
  ultimately show ?thesis
    using d unfolding dll_def unlink_next [of bs b, OF ne] unlink_prev by simp
qed

text \<open>\<open>brelse\<close> moves the buffer to the front of the list.\<close>

lemma dll_move_front:
  assumes "dll bs xs" "b \<in> set xs"
  shows "dll (link_front b (unlink_buf b bs)) (b # remove1 b xs)"
proof -
  from assms(2) obtain as cs where xs: "xs = as @ b # cs" "b \<notin> set as"
    by (metis split_list_first)
  moreover have "b \<noteq> HEAD" "b \<notin> set cs" using assms xs by (auto simp: dll_def)
  ultimately show ?thesis
    using dll_link_front [OF dll_unlink, of bs as b cs] assms(1)
    by (simp add: remove1_append)
qed

lemma dll_congI:
  "dll bs xs \<Longrightarrow> (\<And>i. b_next (bs' i) = b_next (bs i)) \<Longrightarrow> (\<And>i. b_prev (bs' i) = b_prev (bs i)) \<Longrightarrow>
   dll bs' xs"
  by (simp add: dll_def)

lemma scan_dll:
  assumes "dll bs xs" "length xs < k"
  shows "scan k (\<lambda>b. b_next (bs b)) P (b_next (bs HEAD)) = Some (List.find P xs)"
    and "scan k (\<lambda>b. b_prev (bs b)) P (b_prev (bs HEAD)) = Some (List.find P (rev xs))"
  using assms scan_chain [of "\<lambda>b. b_next (bs b)" HEAD xs k P]
    scan_chain [of "\<lambda>b. b_prev (bs b)" HEAD "rev xs" k P]
  by (auto simp: dll_def)

lemma link_data [simp]:
  "b_valid (link_front b bs i) = b_valid (bs i)" "b_dirty (link_front b bs i) = b_dirty (bs i)"
  "b_dev (link_front b bs i) = b_dev (bs i)" "b_blockno (link_front b bs i) = b_blockno (bs i)"
  "b_lock (link_front b bs i) = b_lock (bs i)" "b_refcnt (link_front b bs i) = b_refcnt (bs i)"
  "b_data (link_front b bs i) = b_data (bs i)"
  "b_valid (unlink_buf b bs i) = b_valid (bs i)" "b_dirty (unlink_buf b bs i) = b_dirty (bs i)"
  "b_dev (unlink_buf b bs i) = b_dev (bs i)" "b_blockno (unlink_buf b bs i) = b_blockno (bs i)"
  "b_lock (unlink_buf b bs i) = b_lock (bs i)" "b_refcnt (unlink_buf b bs i) = b_refcnt (bs i)"
  "b_data (unlink_buf b bs i) = b_data (bs i)"
  by (simp_all add: link_front_def unlink_buf_def Let_def set_next_def set_prev_def)

subsection \<open>Buffer locks\<close>

interpretation buf_lk: sleep_lock "BufSpin i" "ChanBufLock i" "get_b_lock i" "put_b_lock i" for i
  by unfold_locales (simp_all add: relock_def upd_buf_def)

subsection \<open>The state between two operations\<close>

lemma idle_upd [simp]:
  "idle (upd_buf i f t) p = idle t p"
  "idle (t\<lparr>buf := bs\<rparr>) p = idle t p"
  "idle (t\<lparr>memdisk := d\<rparr>) p = idle t p"
  "idle (t\<lparr>hist := h\<rparr>) p = idle t p"
  by (simp_all add: idle_def runs_def cpu_ok_def settled_def me_def free_lock_def upd_buf_def)

text \<open>The invariant of the cache, over the buffers and the disk.\<close>

definition buf_ok :: "(nat \<Rightarrow> byte list) \<Rightarrow> nat \<Rightarrow> buf \<Rightarrow> bool" where
  "buf_ok d n b \<longleftrightarrow>
     (b_dirty b \<longrightarrow> b_valid b) \<and> (b_valid b \<longrightarrow> b_dev b = 1 \<and> b_blockno b < n \<and> length (b_data b) = BSIZE) \<and>
     (b_refcnt b \<noteq> 0 \<longrightarrow> b_dev b = 1) \<and>
     (sl_locked (b_lock b) \<longrightarrow> b_refcnt b \<noteq> 0) \<and>
     (b_valid b \<and> \<not> b_dirty b \<and> \<not> sl_locked (b_lock b) \<longrightarrow> b_data b = d (b_blockno b))"

definition binv :: "'z bcache_scheme \<Rightarrow> bool" where
  "binv s \<longleftrightarrow>
     (\<exists>xs. dll (buf s) xs \<and> set xs = {..<NBUF}) \<and>
     (\<forall>i<NBUF. buf_ok (memdisk s) (disksize s) (buf s i)) \<and>
     (\<forall>i<NBUF. \<forall>j<NBUF. b_dev (buf s i) = 1 \<and> b_dev (buf s j) = 1 \<and>
        b_blockno (buf s i) = b_blockno (buf s j) \<longrightarrow> i = j) \<and>
     (\<forall>b<disksize s. length (memdisk s b) = BSIZE)"

definition holds :: "'z bcache_scheme \<Rightarrow> nat \<Rightarrow> nat \<Rightarrow> bool" where
  "holds s b i \<longleftrightarrow> i < NBUF \<and> b_dev (buf s i) = 1 \<and> b_blockno (buf s i) = b"

text \<open>The content of block \<open>b\<close>: that of its buffer if it has a valid one, else the disk's.\<close>

definition view :: "'z bcache_scheme \<Rightarrow> nat \<Rightarrow> byte list" where
  "view s b = (case find_slot (\<lambda>i. holds s b i \<and> b_valid (buf s i)) 0 NBUF of
     Some i \<Rightarrow> b_data (buf s i) | None \<Rightarrow> memdisk s b)"

text \<open>The blocks whose buffers are taken, and the blocks pinned by a dirty buffer.\<close>

definition taken :: "'z bcache_scheme \<Rightarrow> nat set" where
  "taken s = {b. \<exists>i. holds s b i \<and> b_refcnt (buf s i) \<noteq> 0}"

definition dirties :: "'z bcache_scheme \<Rightarrow> nat set" where
  "dirties s = {b. \<exists>i. holds s b i \<and> b_dirty (buf s i)}"

lemma holds_unique: "binv s \<Longrightarrow> holds s b i \<Longrightarrow> holds s b j \<Longrightarrow> i = j"
proof -
  assume "binv s" and h: "holds s b i" "holds s b j"
  then have "\<forall>i<NBUF. \<forall>j<NBUF. b_dev (buf s i) = 1 \<and> b_dev (buf s j) = 1 \<and>
      b_blockno (buf s i) = b_blockno (buf s j) \<longrightarrow> i = j"
    by (simp add: binv_def)
  with h show ?thesis unfolding holds_def by blast
qed

lemma find_holds:
  assumes "binv s" "holds s b i" "b_valid (buf s i)"
  shows "find_slot (\<lambda>i. holds s b i \<and> b_valid (buf s i)) 0 NBUF = Some i"
proof (rule find_slot_eqI)
  show "i < NBUF" "holds s b i \<and> b_valid (buf s i)" using assms by (simp_all add: holds_def)
  show "\<not> (holds s b j \<and> b_valid (buf s j))" if "j < i" for j
    using that holds_unique [OF assms(1,2), of j] by blast
qed simp

lemma view_cached: "binv s \<Longrightarrow> holds s b i \<Longrightarrow> b_valid (buf s i) \<Longrightarrow> view s b = b_data (buf s i)"
  by (simp add: view_def find_holds)

lemma view_uncached: "(\<And>i. holds s b i \<Longrightarrow> \<not> b_valid (buf s i)) \<Longrightarrow> view s b = memdisk s b"
proof -
  assume "\<And>i. holds s b i \<Longrightarrow> \<not> b_valid (buf s i)"
  then have "find_slot (\<lambda>i. holds s b i \<and> b_valid (buf s i)) 0 NBUF = None"
    by (auto simp: find_slot_None)
  then show ?thesis by (simp add: view_def)
qed

lemma binv_buf_ok: "binv s \<Longrightarrow> i < NBUF \<Longrightarrow> buf_ok (memdisk s) (disksize s) (buf s i)"
  by (simp add: binv_def)

text \<open>While fewer than \<open>NBUF\<close> blocks are taken or dirty, some buffer can be recycled.\<close>

lemma free_buffer:
  assumes inv: "binv s" and nc: "\<And>i. \<not> holds s b i"
    and card: "card (insert b (taken s \<union> dirties s)) \<le> NBUF"
  shows "\<exists>i<NBUF. b_refcnt (buf s i) = 0 \<and> \<not> b_dirty (buf s i)"
proof (rule ccontr)
  assume "\<not> ?thesis"
  then have busy: "b_refcnt (buf s i) \<noteq> 0 \<or> b_dirty (buf s i)" if "i < NBUF" for i
    using that by blast
  have h: "holds s (b_blockno (buf s i)) i" if "i < NBUF" for i
    using busy [OF that] binv_buf_ok [OF inv that] that by (auto simp: buf_ok_def holds_def)
  let ?f = "\<lambda>i. b_blockno (buf s i)"
  have inj: "inj_on ?f {..<NBUF}"
  proof (rule inj_onI)
    fix i j assume "i \<in> {..<NBUF}" "j \<in> {..<NBUF}" "?f i = ?f j"
    then show "i = j" using h [of i] h [of j] holds_unique [OF inv, of "?f i" i j] by simp
  qed
  have sub: "?f ` {..<NBUF} \<subseteq> taken s \<union> dirties s"
  proof
    fix x assume "x \<in> ?f ` {..<NBUF}"
    then obtain i where "i < NBUF" "x = ?f i" by auto
    then show "x \<in> taken s \<union> dirties s"
      using h [of i] busy [of i] unfolding taken_def dirties_def by blast
  qed
  have nb: "b \<notin> taken s \<union> dirties s"
    using nc by (auto simp: taken_def dirties_def)
  have fin: "finite (taken s \<union> dirties s)"
  proof (rule finite_subset)
    show "taken s \<union> dirties s \<subseteq> ?f ` {..<NBUF}"
      by (auto simp: taken_def dirties_def holds_def)
  qed simp
  have "NBUF = card (?f ` {..<NBUF})" using inj by (simp add: card_image)
  also have "\<dots> \<le> card (taken s \<union> dirties s)" using fin sub by (rule card_mono)
  finally show False using card nb fin by simp
qed

subsection \<open>What the operations do\<close>

lemma enter_bcache [simp]:
  "buf (enter lk s) = buf s" "memdisk (enter lk s) = memdisk s" "disksize (enter lk s) = disksize s"
  "hist (enter lk s) = hist s"
  by (simp_all add: enter_def cli_on_def)

lemma upd_buf_simps [simp]:
  "buf (upd_buf i f s) = (buf s)(i := f (buf s i))" "memdisk (upd_buf i f s) = memdisk s"
  "disksize (upd_buf i f s) = disksize s" "ptable (upd_buf i f s) = ptable s"
  "cpus (upd_buf i f s) = cpus s" "locks (upd_buf i f s) = locks s" "fl_if (upd_buf i f s) = fl_if s"
  "lapicid (upd_buf i f s) = lapicid s" "apicid (upd_buf i f s) = apicid s"
  "ncpu (upd_buf i f s) = ncpu s" "hist (upd_buf i f s) = hist s"
  by (simp_all add: upd_buf_def)

lemma upd_buf_upd [simp]: "upd_buf i f (upd_buf i g s) = upd_buf i (\<lambda>b. f (g b)) s"
  by (simp add: upd_buf_def)

lemma upd_buf_eqI:
  assumes "\<And>h. h \<in> {b_valid, b_dirty} \<Longrightarrow> h (f (buf s i)) = h (g (buf s i))"
    "\<And>h. h \<in> {b_dev, b_blockno, b_prev, b_next} \<Longrightarrow> h (f (buf s i)) = h (g (buf s i))"
    "b_lock (f (buf s i)) = b_lock (g (buf s i))" "b_refcnt (f (buf s i)) = b_refcnt (g (buf s i))"
    "b_data (f (buf s i)) = b_data (g (buf s i))"
  shows "upd_buf i f s = upd_buf i g s"
proof -
  have "f (buf s i) = g (buf s i)" by (rule buf.equality) (use assms in simp_all)
  then show ?thesis by (simp add: upd_buf_def)
qed

lemma dll_length:
  assumes "dll bs xs" "set xs = {..<NBUF}"
  shows "length xs = NBUF"
proof -
  have "distinct xs" using assms(1) unfolding dll_def by simp
  then have "length xs = card {..<NBUF}" unfolding assms(2) [symmetric] by (rule distinct_card [symmetric])
  then show ?thesis by simp
qed

lemma find_unique:
  assumes "i \<in> set xs" "P i" "\<And>j. j \<in> set xs \<Longrightarrow> P j \<Longrightarrow> j = i"
  shows "List.find P xs = Some i"
proof (cases "List.find P xs")
  case None
  then show ?thesis using assms(1,2) by (auto simp: find_None_iff)
next
  case (Some j)
  then have "j \<in> set xs" "P j" by (auto simp: find_Some_iff)
  then show ?thesis using Some assms(3) by blast
qed

text \<open>The end of both branches of \<open>bget\<close>: leave the critical section, lock the buffer.\<close>

lemma bget_finish:
  assumes "idle s p" "\<not> sl_locked (b_lock (f (buf s i)))"
  shows "thenk (modk (upd_buf i f)) (thenk (release BcacheLock) (thenk (acquire_buf i) (ret i)))
      (enter BcacheLock s) =
    Ok (i, upd_buf i (\<lambda>b. (f b)\<lparr>b_lock := \<lparr>sl_locked = True, sl_pid = pid (ptable s p)\<rparr>\<rparr>) s)"
proof -
  have rel: "release BcacheLock (upd_buf i f (enter BcacheLock s)) = Ok ((), upd_buf i f s)"
    using assms idle_ok [OF assms(1)] idle_free [OF assms(1)]
    by (subst crit [of s]) (simp_all add: upd_buf_def enter_def cli_on_def)
  have "acquire_buf i (upd_buf i f s) =
      Ok ((), put_b_lock i \<lparr>sl_locked = True, sl_pid = pid (ptable s p)\<rparr> (upd_buf i f s))"
    unfolding acquire_buf_def
    using assms idle_runs [of "upd_buf i f s" p] idle_free [of "upd_buf i f s" p]
    by (subst buf_lk.acquiresleep_free [of _ p]) simp_all
  then show ?thesis using rel by (simp add: run_simps upd_buf_def)
qed

lemma bget_hit:
  assumes "idle s p" "binv s" "holds s b i" "b_refcnt (buf s i) = 0"
  shows "bget 1 b s = Ok (i, upd_buf i (\<lambda>b. b\<lparr>b_refcnt := 1,
     b_lock := \<lparr>sl_locked = True, sl_pid = pid (ptable s p)\<rparr>\<rparr>) s)"
proof -
  from assms(2) obtain xs where xs: "dll (buf s) xs" "set xs = {..<NBUF}" by (auto simp: binv_def)
  let ?P = "\<lambda>b'. b_dev (buf s b') = 1 \<and> b_blockno (buf s b') = b"
  have "List.find ?P xs = Some i"
  proof (rule find_unique)
    show "i \<in> set xs" "?P i" using assms(3) xs(2) by (simp_all add: holds_def)
    show "j = i" if "j \<in> set xs" "?P j" for j
      using that xs(2) holds_unique [OF assms(2) _ assms(3), of j] by (simp add: holds_def)
  qed
  then have sc: "scan 31 (\<lambda>b. b_next (buf s b)) ?P (b_next (buf s HEAD)) = Some (Some i)"
    using scan_dll(1) [OF xs(1)] dll_length [OF xs] by simp
  have "\<not> sl_locked (b_lock (buf s i))"
    using binv_buf_ok [OF assms(2)] assms(3,4) by (auto simp: buf_ok_def holds_def)
  then have "thenk (modk (upd_buf i (\<lambda>b. b\<lparr>b_refcnt := b_refcnt b + 1\<rparr>)))
      (thenk (release BcacheLock) (thenk (acquire_buf i) (ret i))) (enter BcacheLock s) =
    Ok (i, upd_buf i (\<lambda>b. b\<lparr>b_refcnt := b_refcnt b + 1,
       b_lock := \<lparr>sl_locked = True, sl_pid = pid (ptable s p)\<rparr>\<rparr>) s)"
    using bget_finish [OF assms(1), of "\<lambda>b. b\<lparr>b_refcnt := b_refcnt b + 1\<rparr>" i] by simp
  then show ?thesis
    using assms sc idle_ok [OF assms(1)] idle_free [OF assms(1)]
    by (simp add: bget_def thenk_run [of "acquire _"] bindk_run [of "getk _"] getk_run acquire_run upd_buf_def)
qed

abbreviation recyclable :: "'z bcache_scheme \<Rightarrow> nat \<Rightarrow> bool" where
  "recyclable s i \<equiv> b_refcnt (buf s i) = 0 \<and> \<not> b_dirty (buf s i)"

lemma bget_scans:
  assumes "idle s p" "dll (buf s) xs" "set xs = {..<NBUF}" "\<And>i. \<not> holds s b i"
  shows "bget 1 b s = (case List.find (recyclable s) (rev xs) of
     None \<Rightarrow> Panic ''bget: no buffers''
   | Some i \<Rightarrow> thenk (modk (upd_buf i (\<lambda>x. x\<lparr>b_dev := 1, b_blockno := b, b_valid := False,
       b_dirty := False, b_refcnt := 1\<rparr>)))
      (thenk (release BcacheLock) (thenk (acquire_buf i) (ret i))) (enter BcacheLock s))"
proof -
  let ?P = "\<lambda>b'. b_dev (buf s b') = 1 \<and> b_blockno (buf s b') = b"
  have "List.find ?P xs = None"
    using assms(3,4) by (auto simp: find_None_iff holds_def)
  then have sc1: "scan 31 (\<lambda>b. b_next (buf s b)) ?P (b_next (buf s HEAD)) = Some None"
    using scan_dll(1) [OF assms(2)] dll_length [OF assms(2,3)] by simp
  have sc2: "scan 31 (\<lambda>b. b_prev (buf s b)) (recyclable s) (b_prev (buf s HEAD)) =
      Some (List.find (recyclable s) (rev xs))"
    using scan_dll(2) [OF assms(2)] dll_length [OF assms(2,3)] by simp
  show ?thesis
    using sc1 sc2 idle_ok [OF assms(1)] idle_free [OF assms(1)]
    by (simp add: bget_def thenk_run [of "acquire _"] bindk_run [of "getk _"] getk_run acquire_run
        panic_run split: option.split)
qed

lemma bget_miss_lru:
  assumes "idle s p" "binv s" "\<And>i. \<not> holds s b i" "dll (buf s) xs" "set xs = {..<NBUF}"
    and "List.find (recyclable s) (rev xs) = Some i"
  shows "i < NBUF" "recyclable s i"
    "bget 1 b s = Ok (i, upd_buf i (\<lambda>x. x\<lparr>b_dev := 1, b_blockno := b, b_valid := False,
       b_dirty := False, b_refcnt := 1,
       b_lock := \<lparr>sl_locked = True, sl_pid = pid (ptable s p)\<rparr>\<rparr>) s)"
proof -
  have "i \<in> set (rev xs)" "recyclable s i"
    using find_Some_set [OF assms(6)] by auto
  then show iQ: "i < NBUF" "recyclable s i" using assms(5) by simp_all
  then have "\<not> sl_locked (b_lock (buf s i))"
    using binv_buf_ok [OF assms(2) iQ(1)] by (auto simp: buf_ok_def)
  then show "bget 1 b s = Ok (i, upd_buf i (\<lambda>x. x\<lparr>b_dev := 1, b_blockno := b, b_valid := False,
       b_dirty := False, b_refcnt := 1,
       b_lock := \<lparr>sl_locked = True, sl_pid = pid (ptable s p)\<rparr>\<rparr>) s)"
    unfolding bget_scans [OF assms(1,4,5,3)] assms(6) option.case
    by (intro bget_finish [OF assms(1)]) simp
qed

lemma bget_miss:
  assumes "idle s p" "binv s" "\<And>i. \<not> holds s b i"
    and "card (insert b (taken s \<union> dirties s)) \<le> NBUF"
  obtains i where "i < NBUF" "b_refcnt (buf s i) = 0" "\<not> b_dirty (buf s i)"
    "bget 1 b s = Ok (i, upd_buf i (\<lambda>x. x\<lparr>b_dev := 1, b_blockno := b, b_valid := False,
       b_dirty := False, b_refcnt := 1,
       b_lock := \<lparr>sl_locked = True, sl_pid = pid (ptable s p)\<rparr>\<rparr>) s)"
proof -
  from assms(2) obtain xs where xs: "dll (buf s) xs" "set xs = {..<NBUF}" by (auto simp: binv_def)
  obtain j where "j < NBUF" "recyclable s j" using free_buffer [OF assms(2,3,4)] by blast
  then have "List.find (recyclable s) (rev xs) \<noteq> None"
    using xs(2) by (auto simp: find_None_iff)
  then obtain i where "List.find (recyclable s) (rev xs) = Some i" by blast
  from bget_miss_lru [OF assms(1-3) xs this] show ?thesis using that by blast
qed

text \<open>None of these notions depends on what components above the cache keep.\<close>

lemma bcache_cong:
  assumes "buf t = buf s" "memdisk t = memdisk s" "disksize t = disksize s" "ptable t = ptable s"
    "lapicid t = lapicid s" "fl_if t = fl_if s" "apicid t = apicid s" "cpus t = cpus s" "ncpu t = ncpu s"
    "locks t = locks s"
  shows "holds t b i = holds s b i" "view t = view s" "taken t = taken s" "dirties t = dirties s"
    "binv t = binv s" "idle t p = idle s p"
proof -
  have h: "holds t b i = holds s b i" for b i using assms by (simp add: holds_def)
  show "view t = view s" using assms by (simp add: fun_eq_iff view_def h split: option.split)
  show "holds t b i = holds s b i" "taken t = taken s" "dirties t = dirties s"
    using assms by (simp_all add: taken_def dirties_def h)
  show "binv t = binv s" "idle t p = idle s p"
    using assms by (simp_all add: binv_def idle_def runs_def cpu_ok_def settled_def me_def free_lock_def)
qed

text \<open>The two directions of the driver, on a buffer the running process has locked.\<close>

abbreviation mine :: "'z bcache_scheme \<Rightarrow> nat \<Rightarrow> nat \<Rightarrow> bool" where
  "mine s p i \<equiv> sl_locked (b_lock (buf s i)) \<and> sl_pid (b_lock (buf s i)) = pid (ptable s p)"

lemma holding_buf_run: "idle s p \<Longrightarrow> holding_buf i s = Ok (mine s p i, s)"
  by (simp add: holding_buf_def buf_lk.holdingsleep_eq idle_runs idle_free)

lemma iderw_read:
  assumes "idle s p" "mine s p i" "\<not> b_valid (buf s i)" "\<not> b_dirty (buf s i)"
    and "b_dev (buf s i) = 1" "b_blockno (buf s i) < disksize s"
  shows "iderw i s = Ok ((), upd_buf i (\<lambda>b. b\<lparr>b_data := memdisk s (b_blockno b), b_valid := True\<rparr>) s)"
  using assms by (simp add: iderw_def run_simps holding_buf_run) (simp add: upd_buf_def)

lemma iderw_write:
  assumes "idle s p" "mine s p i" "b_dirty (buf s i)"
    and "b_dev (buf s i) = 1" "b_blockno (buf s i) < disksize s"
  shows "iderw i s = Ok ((), upd_buf i (\<lambda>b. b\<lparr>b_dirty := False, b_valid := True\<rparr>)
    (s\<lparr>memdisk := (memdisk s)(b_blockno (buf s i) := b_data (buf s i)),
       hist := hist s @ [(b_blockno (buf s i), b_data (buf s i))]\<rparr>))"
  using assms by (simp add: iderw_def run_simps holding_buf_run) (simp add: upd_buf_def)

text \<open>The state after process \<open>p\<close> has read block \<open>b\<close> into buffer \<open>i\<close>.\<close>

definition take_buf :: "nat \<Rightarrow> nat \<Rightarrow> nat \<Rightarrow> 'z bcache_scheme \<Rightarrow> 'z bcache_scheme" where
  "take_buf p i b s = upd_buf i (\<lambda>x. x\<lparr>b_valid := True, b_dirty := holds s b i \<and> b_dirty x,
       b_dev := 1, b_blockno := b, b_lock := \<lparr>sl_locked = True, sl_pid = pid (ptable s p)\<rparr>,
       b_refcnt := 1, b_data := view s b\<rparr>) s"

definition takes :: "'z bcache_scheme \<Rightarrow> nat \<Rightarrow> nat \<Rightarrow> bool" where
  "takes s b i \<longleftrightarrow> i < NBUF \<and> b_refcnt (buf s i) = 0 \<and> b < disksize s \<and>
     (holds s b i \<or> (\<forall>j. \<not> holds s b j) \<and> \<not> b_dirty (buf s i))"

lemma bread_run:
  assumes "idle s p" "binv s" "b < disksize s" "b \<notin> taken s"
    and "card (insert b (taken s \<union> dirties s)) \<le> NBUF"
  obtains i where "takes s b i" "bread 1 b s = Ok (i, take_buf p i b s)"
proof (cases "\<exists>i. holds s b i")
  case True
  then obtain i where i: "holds s b i" by blast
  then have r: "b_refcnt (buf s i) = 0" using assms(4) by (auto simp: taken_def)
  note get = bget_hit [OF assms(1,2) i r]
  have ok: "buf_ok (memdisk s) (disksize s) (buf s i)"
    using i binv_buf_ok [OF assms(2)] by (simp add: holds_def)
  have "bread 1 b s = Ok (i, take_buf p i b s)"
  proof (cases "b_valid (buf s i)")
    case True
    then have "b_data (buf s i) = view s b" using view_cached [OF assms(2) i] by simp
    moreover have "bread 1 b s = bget 1 b s" using True get by (simp add: bread_def run_simps)
    ultimately show ?thesis
      using True i unfolding get take_buf_def by (auto simp: holds_def intro!: upd_buf_eqI)
  next
    case False
    then have v: "view s b = memdisk s b" "\<not> b_dirty (buf s i)"
      using view_uncached [of s b] holds_unique [OF assms(2) i] ok by (auto simp: buf_ok_def)
    show ?thesis
      unfolding take_buf_def
      using False i get v assms(1,3)
      by (auto simp: bread_def run_simps holds_def iderw_read [of _ p] intro!: upd_buf_eqI)
  qed
  with i r assms(3) show ?thesis by (intro that [of i]) (simp_all add: takes_def holds_def)
next
  case False
  then have nh: "\<not> holds s b i" for i by blast
  then have v: "view s b = memdisk s b" by (auto intro: view_uncached)
  obtain i where i: "i < NBUF" "b_refcnt (buf s i) = 0" "\<not> b_dirty (buf s i)"
    and get: "bget 1 b s = Ok (i, upd_buf i (\<lambda>x. x\<lparr>b_dev := 1, b_blockno := b, b_valid := False,
       b_dirty := False, b_refcnt := 1,
       b_lock := \<lparr>sl_locked = True, sl_pid = pid (ptable s p)\<rparr>\<rparr>) s)"
    using bget_miss [OF assms(1,2) nh assms(5)] by blast
  then have "bread 1 b s = Ok (i, take_buf p i b s)"
    unfolding take_buf_def
    using nh v assms(1,3) by (auto simp: bread_def run_simps iderw_read [of _ p] intro!: upd_buf_eqI)
  with i nh assms(3) show ?thesis by (intro that [of i]) (simp_all add: takes_def)
qed

subsection \<open>The cache as a store of blocks\<close>

text \<open>Block \<open>b\<close> is in the hands of process \<open>p\<close>, in buffer \<open>i\<close>.\<close>

definition loaded :: "'z bcache_scheme \<Rightarrow> nat \<Rightarrow> nat \<Rightarrow> nat \<Rightarrow> bool" where
  "loaded s p b i \<longleftrightarrow> holds s b i \<and> b_valid (buf s i) \<and> b_refcnt (buf s i) = 1 \<and>
     b_lock (buf s i) = \<lparr>sl_locked = True, sl_pid = pid (ptable s p)\<rparr>"

lemma binv_upd:
  assumes "binv s" "buf t = (buf s)(i := x)" "memdisk t = memdisk s" "disksize t = disksize s"
    and "buf_ok (memdisk s) (disksize s) x"
    and "b_next x = b_next (buf s i)" "b_prev x = b_prev (buf s i)"
    and "\<And>j. b_dev x = 1 \<Longrightarrow> holds s (b_blockno x) j \<Longrightarrow> j = i"
  shows "binv t"
proof -
  from assms(1) obtain xs where xs: "dll (buf s) xs" "set xs = {..<NBUF}" by (auto simp: binv_def)
  from xs(1) have "dll (buf t) xs" by (rule dll_congI) (simp_all add: assms)
  moreover have "j = k" if "j < NBUF" "k < NBUF" "b_dev (buf t j) = 1" "b_dev (buf t k) = 1"
      "b_blockno (buf t j) = b_blockno (buf t k)" for j k
  proof (rule ccontr)
    assume ne: "j \<noteq> k"
    show False
    proof (cases "j = i \<or> k = i")
      case True
      let ?l = "if j = i then k else j"
      have "?l \<noteq> i" "holds s (b_blockno x) ?l" "b_dev x = 1"
        using that ne assms(2) True by (auto simp: holds_def)
      then show False using assms(8) by blast
    next
      case False
      with that assms(2) have "holds s (b_blockno (buf s j)) j" "holds s (b_blockno (buf s j)) k"
        by (auto simp: holds_def)
      then show False using ne holds_unique [OF assms(1)] by blast
    qed
  qed
  moreover have "buf_ok (memdisk s) (disksize s) (buf t j)" if "j < NBUF" for j
    using binv_buf_ok [OF assms(1) that] assms(2,5) by simp
  moreover have "length (memdisk s b) = BSIZE" if "b < disksize s" for b
    using that assms(1) by (simp add: binv_def)
  ultimately show ?thesis
    using xs(2) unfolding binv_def assms(3,4) by blast
qed

lemma holds_upd: "holds (upd_buf i f s) b j \<longleftrightarrow>
   (if j = i then i < NBUF \<and> b_dev (f (buf s i)) = 1 \<and> b_blockno (f (buf s i)) = b else holds s b j)"
  by (auto simp: holds_def)

lemma view_eqI:
  assumes "binv s" "binv t"
    and "\<And>i. holds t c i \<Longrightarrow> b_valid (buf t i) \<Longrightarrow> b_data (buf t i) = view s c"
    and "(\<And>i. holds t c i \<Longrightarrow> \<not> b_valid (buf t i)) \<Longrightarrow> memdisk t c = view s c"
  shows "view t c = view s c"
proof (cases "\<exists>i. holds t c i \<and> b_valid (buf t i)")
  case True
  then show ?thesis using assms(3) view_cached [OF assms(2)] by metis
next
  case False
  then have nv: "\<not> b_valid (buf t i)" if "holds t c i" for i using that by blast
  then have "view t c = memdisk t c" by (rule view_uncached)
  also have "\<dots> = view s c" using nv by (rule assms(4))
  finally show ?thesis .
qed

lemma view_clean:
  assumes "binv s" "b < disksize s" "\<And>i. holds s b i \<Longrightarrow> \<not> b_dirty (buf s i) \<and> \<not> sl_locked (b_lock (buf s i))"
  shows "view s b = memdisk s b"
proof (cases "\<exists>i. holds s b i \<and> b_valid (buf s i)")
  case True
  then obtain i where i: "holds s b i" "b_valid (buf s i)" by blast
  then have "buf_ok (memdisk s) (disksize s) (buf s i)"
    using binv_buf_ok [OF assms(1)] by (simp add: holds_def)
  then show ?thesis
    using i assms(3) [OF i(1)] view_cached [OF assms(1) i] by (auto simp: buf_ok_def holds_def)
next
  case False
  then show ?thesis using view_uncached [of s b] by blast
qed

lemma length_view: "binv s \<Longrightarrow> b < disksize s \<Longrightarrow> length (view s b) = BSIZE"
proof (cases "\<exists>i. holds s b i \<and> b_valid (buf s i)")
  case True
  then obtain i where i: "holds s b i" "b_valid (buf s i)" by blast
  assume inv: "binv s"
  then show ?thesis
    using i view_cached [OF inv i] binv_buf_ok [OF inv, of i] by (auto simp: buf_ok_def holds_def)
next
  case False
  assume "binv s" "b < disksize s"
  then show ?thesis using False view_uncached [of s b] by (auto simp: binv_def)
qed

text \<open>The operations of this theory change the disk, the buffers, and the process table only
  in that sleeping processes wake up.\<close>

definition woken :: "proc \<Rightarrow> proc \<Rightarrow> bool" where
  "woken q q' \<longleftrightarrow> q' = q \<or> state q = SLEEPING \<and> q' = q\<lparr>state := RUNNABLE\<rparr>"

definition bframe :: "'z bcache_scheme \<Rightarrow> 'z bcache_scheme \<Rightarrow> bool" where
  "bframe s t \<longleftrightarrow> t = s\<lparr>memdisk := memdisk t, hist := hist t, buf := buf t, ptable := ptable t\<rparr> \<and>
     (\<forall>i. woken (ptable s i) (ptable t i))"

definition same_blocks :: "'z bcache_scheme \<Rightarrow> 'z bcache_scheme \<Rightarrow> bool" where
  "same_blocks s t \<longleftrightarrow> bframe s t \<and> memdisk t = memdisk s \<and> hist t = hist s \<and> view t = view s \<and>
     dirties t = dirties s"

lemma woken_refl [simp]: "woken q q"
  by (simp add: woken_def)

lemma woken_trans: "woken q r \<Longrightarrow> woken r u \<Longrightarrow> woken q u"
  by (auto simp: woken_def)

lemma woken_wake_all [simp]: "woken (pt i) (wake_all ch pt i)"
  by (simp add: woken_def wake_all_def wake_def)

lemma woken_simps:
  assumes "woken q r"
  shows "pid r = pid q" "killed r = killed q" "ofile r = ofile q" "cwd r = cwd q" "parent r = parent q"
    "sz r = sz q" "pgdir r = pgdir q" "tf r = tf q" "pname r = pname q"
  using assms by (auto simp: woken_def)

lemma bframe_refl [simp]: "bframe s s"
  by (simp add: bframe_def)

lemma bframe_trans: "bframe s t \<Longrightarrow> bframe t u \<Longrightarrow> bframe s u"
proof -
  assume a: "bframe s t" "bframe t u"
  then have "t = s\<lparr>memdisk := memdisk t, hist := hist t, buf := buf t, ptable := ptable t\<rparr>"
    "u = t\<lparr>memdisk := memdisk u, hist := hist u, buf := buf u, ptable := ptable u\<rparr>"
    unfolding bframe_def by blast+
  then obtain m h b pt where "t = s\<lparr>memdisk := m, hist := h, buf := b, ptable := pt\<rparr>" by blast
  then have "u = s\<lparr>memdisk := memdisk u, hist := hist u, buf := buf u, ptable := ptable u\<rparr>"
    using \<open>u = _\<close> by simp
  moreover have "woken (ptable s i) (ptable u i)" for i
    using a woken_trans unfolding bframe_def by blast
  ultimately show ?thesis unfolding bframe_def by blast
qed

lemma bframe_simps:
  assumes "bframe s t"
  shows "disksize t = disksize s" "locks t = locks s" "cpus t = cpus s" "nextpid t = nextpid s"
    "initproc t = initproc s" "bcache.more t = bcache.more s" "pid (ptable t q) = pid (ptable s q)"
    "me t = me s"
proof -
  have eq: "t = s\<lparr>memdisk := memdisk t, hist := hist t, buf := buf t, ptable := ptable t\<rparr>"
    and w: "woken (ptable s q) (ptable t q)" for q using assms unfolding bframe_def by blast+
  show "disksize t = disksize s" "locks t = locks s" "cpus t = cpus s" "nextpid t = nextpid s"
    "initproc t = initproc s" "bcache.more t = bcache.more s" "me t = me s"
    using arg_cong [OF eq, of disksize] arg_cong [OF eq, of locks] arg_cong [OF eq, of nextpid]
      arg_cong [OF eq, of cpus] arg_cong [OF eq, of bcache.more] arg_cong [OF eq, of initproc]
      arg_cong [OF eq, of me] by (simp_all add: me_def)
  show "pid (ptable t q) = pid (ptable s q)" using woken_simps(1) [OF w] .
qed

lemma same_blocksD:
  assumes "same_blocks s t"
  shows "bframe s t" "memdisk t = memdisk s" "hist t = hist s" "view t = view s" "dirties t = dirties s"
    "disksize t = disksize s"
  using assms bframe_simps(1) by (auto simp: same_blocks_def)

lemma take_buf_simps [simp]:
  "ptable (take_buf p i b s) = ptable s" "memdisk (take_buf p i b s) = memdisk s"
  "disksize (take_buf p i b s) = disksize s" "idle (take_buf p i b s) q = idle s q"
  "hist (take_buf p i b s) = hist s"
  "b_valid (buf (take_buf p i b s) i)" "b_refcnt (buf (take_buf p i b s) i) = 1"
  "b_lock (buf (take_buf p i b s) i) = \<lparr>sl_locked = True, sl_pid = pid (ptable s p)\<rparr>"
  "b_data (buf (take_buf p i b s) i) = view s b"
  "b_dirty (buf (take_buf p i b s) i) = (holds s b i \<and> b_dirty (buf s i))"
  "j \<noteq> i \<Longrightarrow> buf (take_buf p i b s) j = buf s j"
  by (simp_all add: take_buf_def)

lemma take_buf_holds:
  "takes s b i \<Longrightarrow> holds (take_buf p i b s) c j \<longleftrightarrow> (if j = i then c = b else holds s c j)"
  by (auto simp: take_buf_def holds_upd takes_def)

lemma take_buf_binv:
  assumes "binv s" "takes s b i"
  shows "binv (take_buf p i b s)"
proof (rule binv_upd [OF assms(1), where i = i and x = "buf (take_buf p i b s) i"])
  have "b < disksize s" "buf_ok (memdisk s) (disksize s) (buf s i)"
    using assms by (simp_all add: takes_def binv_buf_ok)
  then show "buf_ok (memdisk s) (disksize s) (buf (take_buf p i b s) i)"
    using length_view [OF assms(1)] by (simp add: buf_ok_def take_buf_def)
  show "j = i" if "holds s (b_blockno (buf (take_buf p i b s) i)) j" for j
  proof -
    have "holds s b j" using that by (simp add: take_buf_def)
    then show ?thesis using assms holds_unique [OF assms(1)] unfolding takes_def by blast
  qed
qed (simp_all add: take_buf_def)

lemma take_buf_view:
  assumes "binv s" "takes s b i"
  shows "view (take_buf p i b s) c = view s c"
proof (rule view_eqI [OF assms(1) take_buf_binv [OF assms]])
  let ?t = "take_buf p i b s"
  note h = take_buf_holds [OF assms(2), of p]
  have ok: "buf_ok (memdisk s) (disksize s) (buf s i)" "\<not> sl_locked (b_lock (buf s i))"
    using assms binv_buf_ok [OF assms(1), of i] by (auto simp: takes_def buf_ok_def)
  show "b_data (buf ?t j) = view s c" if "holds ?t c j" "b_valid (buf ?t j)" for j
    using that h view_cached [OF assms(1), of c j] by (cases "j = i") auto
  assume nv: "holds ?t c j \<Longrightarrow> \<not> b_valid (buf ?t j)" for j
  have "c \<noteq> b" using nv [of i] by (auto simp: h)
  show "memdisk ?t c = view s c"
  proof (cases "holds s c i \<and> b_valid (buf s i)")
    case True
    then have "\<not> b_dirty (buf s i)" using assms(2) \<open>c \<noteq> b\<close> by (auto simp: takes_def holds_def)
    then show ?thesis
      using True ok view_cached [OF assms(1), of c i] by (auto simp: buf_ok_def holds_def)
  next
    case False
    have "\<not> b_valid (buf s j)" if "holds s c j" for j
      using that False nv [of j] h [of c j] by (cases "j = i") auto
    then have "view s c = memdisk s c" by (rule view_uncached)
    then show ?thesis by simp
  qed
qed

lemma take_buf_taken:
  assumes "takes s b i"
  shows "taken (take_buf p i b s) = insert b (taken s)"
proof -
  have "c \<in> taken (take_buf p i b s) \<longleftrightarrow> c = b \<or> c \<in> taken s" for c
  proof -
    have "c \<in> taken (take_buf p i b s) \<longleftrightarrow> c = b \<or> (\<exists>j. j \<noteq> i \<and> holds s c j \<and> b_refcnt (buf s j) \<noteq> 0)"
      unfolding taken_def by (auto simp: take_buf_holds [OF assms] split: if_splits)
    then show ?thesis using assms unfolding taken_def takes_def by auto
  qed
  then show ?thesis by blast
qed

lemma take_buf_dirties:
  assumes "takes s b i"
  shows "dirties (take_buf p i b s) = dirties s"
proof -
  have "c \<in> dirties (take_buf p i b s) \<longleftrightarrow> c \<in> dirties s" for c
  proof -
    have "c \<in> dirties (take_buf p i b s) \<longleftrightarrow> (c = b \<and> holds s b i \<and> b_dirty (buf s i)) \<or>
        (\<exists>j. j \<noteq> i \<and> holds s c j \<and> b_dirty (buf s j))"
      unfolding dirties_def by (auto simp: take_buf_holds [OF assms] split: if_splits)
    moreover have "holds s c i \<and> b_dirty (buf s i) \<longleftrightarrow> c = b \<and> holds s b i \<and> b_dirty (buf s i)"
      using assms by (auto simp: takes_def holds_def)
    ultimately show ?thesis unfolding dirties_def mem_Collect_eq by metis
  qed
  then show ?thesis by blast
qed

lemma bread_spec:
  assumes "idle s p" "binv s" "b < disksize s" "b \<notin> taken s"
    and "card (insert b (taken s \<union> dirties s)) \<le> NBUF"
  obtains i t where "bread 1 b s = Ok (i, t)" "idle t p" "binv t" "same_blocks s t"
    "loaded t p b i" "taken t = insert b (taken s)"
    "\<forall>c j. loaded s p c j \<longrightarrow> loaded t p c j"
proof -
  obtain i where i: "takes s b i" and rd: "bread 1 b s = Ok (i, take_buf p i b s)"
    using bread_run [OF assms] by blast
  note h = take_buf_holds [OF i, of p]
  show ?thesis
  proof (rule that [OF rd])
    show "loaded (take_buf p i b s) p b i" by (simp add: loaded_def h)
    show "same_blocks s (take_buf p i b s)"
      using take_buf_view [OF assms(2) i] take_buf_dirties [OF i]
      by (simp add: same_blocks_def bframe_def fun_eq_iff) (simp add: take_buf_def upd_buf_def)
    have "loaded (take_buf p i b s) p c j" if "loaded s p c j" for c j
      using that i h [of c j] by (cases "j = i") (auto simp: loaded_def takes_def)
    then show "\<forall>c j. loaded s p c j \<longrightarrow> loaded (take_buf p i b s) p c j" by blast
  qed (simp_all add: assms(1) take_buf_binv [OF assms(2) i] take_buf_taken [OF i])
qed

text \<open>Releasing a buffer: unlock it, drop the reference, and move it to the front of the list
  when that was the last one.\<close>

definition drop_buf :: "nat \<Rightarrow> 'z bcache_scheme \<Rightarrow> nat \<Rightarrow> buf" where
  "drop_buf i s =
     (let bs = (buf s)(i := (buf s i)\<lparr>b_lock := \<lparr>sl_locked = False, sl_pid = 0\<rparr>,
        b_refcnt := b_refcnt (buf s i) - 1\<rparr>)
      in if b_refcnt (buf s i) = 1 then link_front i (unlink_buf i bs) else bs)"

lemma crit_buf:
  assumes "idle s p"
  shows "release lk ((enter lk s)\<lparr>buf := x\<rparr>) = Ok ((), s\<lparr>buf := x\<rparr>)"
  using idle_ok [OF assms] idle_free [OF assms, of lk]
  by (subst crit [of s]) (simp_all, simp add: enter_def cli_on_def)

lemma brelse_run:
  assumes "idle s p" "mine s p i"
  shows "brelse i s = Ok ((), s\<lparr>ptable := wake_all (ChanBufLock i) (ptable s), buf := drop_buf i s\<rparr>)"
proof -
  define u where
    "u = (put_b_lock i \<lparr>sl_locked = False, sl_pid = 0\<rparr> s)\<lparr>ptable := wake_all (ChanBufLock i) (ptable s)\<rparr>"
  have rel: "release_buf i s = Ok ((), u)"
    using assms(1) by (simp add: release_buf_def buf_lk.releasesleep_eq [of s p] idle_runs idle_free u_def)
  have u: "idle u p" using assms(1) by (simp add: u_def)
  let ?v = "upd_buf i (\<lambda>b. b\<lparr>b_refcnt := b_refcnt b - 1\<rparr>) (enter BcacheLock u)"
  have b: "buf ?v = (buf s)(i := (buf s i)\<lparr>b_lock := \<lparr>sl_locked = False, sl_pid = 0\<rparr>,
        b_refcnt := b_refcnt (buf s i) - 1\<rparr>)" by (simp add: u_def)
  have "(if b_refcnt (buf ?v i) = 0 then ?v\<lparr>buf := link_front i (unlink_buf i (buf ?v))\<rparr> else ?v) =
      (enter BcacheLock u)\<lparr>buf := drop_buf i s\<rparr>"
    unfolding b drop_buf_def by (simp add: upd_buf_def) (simp add: u_def upd_buf_def)
  then have "brelse i s = Ok ((), u\<lparr>buf := drop_buf i s\<rparr>)"
    using assms(2) idle_ok [OF u] idle_free [OF u]
    by (simp only: brelse_def bindk_run thenk_run holding_buf_run [OF assms(1)] rel acquire_run modk_run
        outcome.case fst_conv snd_conv simp_thms if_False crit_buf [OF u])
  then show ?thesis by (simp add: u_def upd_buf_def)
qed

lemma brelse_unheld: "idle s p \<Longrightarrow> \<not> mine s p i \<Longrightarrow> brelse i s = Panic ''brelse''"
  by (simp add: brelse_def run_simps holding_buf_run)

lemma bwrite_unheld: "idle s p \<Longrightarrow> \<not> mine s p i \<Longrightarrow> bwrite i s = Panic ''bwrite''"
  by (simp add: bwrite_def run_simps holding_buf_run)

lemma drop_buf_simps [simp]:
  "b_valid (drop_buf i s j) = b_valid (buf s j)" "b_dirty (drop_buf i s j) = b_dirty (buf s j)"
  "b_dev (drop_buf i s j) = b_dev (buf s j)" "b_blockno (drop_buf i s j) = b_blockno (buf s j)"
  "b_data (drop_buf i s j) = b_data (buf s j)"
  "b_lock (drop_buf i s j) = (if j = i then \<lparr>sl_locked = False, sl_pid = 0\<rparr> else b_lock (buf s j))"
  "b_refcnt (drop_buf i s j) = (if j = i then b_refcnt (buf s i) - 1 else b_refcnt (buf s j))"
  by (simp_all add: drop_buf_def Let_def)

lemma dll_drop_buf:
  assumes "dll (buf s) xs" "i \<in> set xs"
  shows "dll (drop_buf i s) (if b_refcnt (buf s i) = 1 then i # remove1 i xs else xs)"
proof -
  let ?bs = "(buf s)(i := (buf s i)\<lparr>b_lock := \<lparr>sl_locked = False, sl_pid = 0\<rparr>,
        b_refcnt := b_refcnt (buf s i) - 1\<rparr>)"
  have "dll ?bs xs" using assms(1) by (rule dll_congI) simp_all
  then show ?thesis
    using dll_move_front [of ?bs xs i] assms(2)
    by (cases "b_refcnt (buf s i) = 1") (simp_all add: drop_buf_def)
qed

lemma holds_cong: "buf t = drop_buf i s \<Longrightarrow> holds t b j = holds s b j"
  by (simp add: holds_def)

lemma drop_buf_binv:
  assumes "binv s" "i < NBUF" "t = s\<lparr>ptable := pt, buf := drop_buf i s\<rparr>" "b_refcnt (buf s i) \<noteq> 0"
    and "b_valid (buf s i) \<Longrightarrow> \<not> b_dirty (buf s i) \<Longrightarrow> b_data (buf s i) = memdisk s (b_blockno (buf s i))"
  shows "binv t"
proof -
  from assms(1) obtain xs where xs: "dll (buf s) xs" "set xs = {..<NBUF}" by (auto simp: binv_def)
  have i: "i \<in> set xs" using assms(2) xs(2) by simp
  have d: "distinct xs" using xs(1) by (simp add: dll_def)
  have "set (if b_refcnt (buf s i) = 1 then i # remove1 i xs else xs) = {..<NBUF}"
    using i d xs(2) by (auto simp: set_remove1_eq)
  then have "\<exists>ys. dll (buf t) ys \<and> set ys = {..<NBUF}"
    using dll_drop_buf [OF xs(1) i] assms(3) by auto
  moreover have "buf_ok (memdisk t) (disksize t) (buf t j)" if "j < NBUF" for j
    using binv_buf_ok [OF assms(1) that] assms(3,4,5) by (auto simp: buf_ok_def)
  moreover have "j = k" if "j < NBUF" "k < NBUF" "b_dev (buf t j) = 1 \<and> b_dev (buf t k) = 1 \<and>
      b_blockno (buf t j) = b_blockno (buf t k)" for j k
    using that holds_unique [OF assms(1), of "b_blockno (buf s j)" j k] assms(3) by (simp add: holds_def)
  moreover have "length (memdisk t b) = BSIZE" if "b < disksize t" for b
    using that assms(1,3) by (simp add: binv_def)
  ultimately show ?thesis unfolding binv_def by blast
qed

lemma drop_buf_taken:
  assumes "binv s" "holds s b i" "b_refcnt (buf s i) = 1" "t = s\<lparr>ptable := pt, buf := drop_buf i s\<rparr>"
  shows "taken t = taken s - {b}"
proof -
  have h: "holds t c j = holds s c j" for c j by (rule holds_cong [of _ i]) (simp add: assms(4))
  have ne: "j \<noteq> i \<longleftrightarrow> c \<noteq> b" if "holds s c j" for c j
  proof -
    have "c = b \<Longrightarrow> j = i" using that assms(2) holds_unique [OF assms(1)] by simp
    then show ?thesis using that assms(2) by (auto simp: holds_def)
  qed
  have "c \<in> taken t \<longleftrightarrow> (\<exists>j. holds s c j \<and> j \<noteq> i \<and> b_refcnt (buf s j) \<noteq> 0)" for c
    unfolding taken_def mem_Collect_eq h using assms(3) by (auto simp: assms(4) split: if_splits)
  then have "c \<in> taken t \<longleftrightarrow> c \<noteq> b \<and> c \<in> taken s" for c
    by (auto simp: taken_def ne cong: conj_cong)
  then show ?thesis by blast
qed

lemma brelse_spec:
  assumes "idle s p" "binv s" "loaded s p b i" "b_dirty (buf s i) \<or> view s b = memdisk s b"
  obtains t where "brelse i s = Ok ((), t)" "idle t p" "binv t" "same_blocks s t"
    "taken t = taken s - {b}" "\<forall>c j. c \<noteq> b \<longrightarrow> loaded s p c j \<longrightarrow> loaded t p c j"
proof -
  define t where "t = s\<lparr>ptable := wake_all (ChanBufLock i) (ptable s), buf := drop_buf i s\<rparr>"
  have i: "holds s b i" "i < NBUF" "b_blockno (buf s i) = b" "b_refcnt (buf s i) = 1" "b_valid (buf s i)"
    and m: "mine s p i" using assms(3) by (auto simp: loaded_def holds_def)
  have h: "holds t c j = holds s c j" for c j by (rule holds_cong [of _ i]) (simp add: t_def)
  have "b_data (buf s i) = memdisk s (b_blockno (buf s i))" if "\<not> b_dirty (buf s i)"
    using that assms(4) view_cached [OF assms(2) i(1,5)] i by simp
  then have inv: "binv t" using i by (intro drop_buf_binv [OF assms(2) i(2) t_def]) simp_all
  have "view t c = view s c" for c
    unfolding view_def h by (simp add: t_def split: option.split)
  moreover have "dirties t = dirties s" by (simp add: dirties_def h) (simp add: t_def)
  ultimately have sb: "same_blocks s t"
    by (auto simp: same_blocks_def bframe_def fun_eq_iff t_def)
  have other: "j \<noteq> i \<Longrightarrow> b_refcnt (buf t j) = b_refcnt (buf s j) \<and> b_lock (buf t j) = b_lock (buf s j)" for j
    by (simp add: t_def)
  show ?thesis
  proof (rule that [of t])
    show "brelse i s = Ok ((), t)" using brelse_run [OF assms(1) m] by (simp add: t_def)
    show "idle t p" using assms(1) by (simp add: t_def)
    have "loaded t p c j" if "c \<noteq> b" "loaded s p c j" for c j
      using that i other [of j] by (cases "j = i") (auto simp: loaded_def h holds_def t_def)
    then show "\<forall>c j. c \<noteq> b \<longrightarrow> loaded s p c j \<longrightarrow> loaded t p c j" by blast
    show "taken t = taken s - {b}" by (rule drop_buf_taken [OF assms(2) i(1,4) t_def])
  qed (rule inv sb)+
qed

text \<open>What the holder of a block does to it: give its buffer another content \<open>v\<close> and dirty bit
  \<open>d\<close>, and its place on the disk another content \<open>w\<close>; the disk's history becomes \<open>h\<close>.\<close>

definition touch :: "nat \<Rightarrow> nat \<Rightarrow> byte list \<Rightarrow> bool \<Rightarrow> byte list \<Rightarrow> (nat \<times> byte list) list
     \<Rightarrow> 'z bcache_scheme \<Rightarrow> 'z bcache_scheme" where
  "touch b i v d w h s =
     upd_buf i (\<lambda>x. x\<lparr>b_data := v, b_dirty := d\<rparr>) (s\<lparr>memdisk := (memdisk s)(b := w), hist := h\<rparr>)"

lemma touch_simps [simp]:
  "ptable (touch b i v d w h s) = ptable s" "disksize (touch b i v d w h s) = disksize s"
  "hist (touch b i v d w h s) = h" "memdisk (touch b i v d w h s) = (memdisk s)(b := w)" "idle (touch b i v d w h s) q = idle s q"
  "holds (touch b i v d w h s) c j = holds s c j"
  "b_valid (buf (touch b i v d w h s) j) = b_valid (buf s j)"
  "b_refcnt (buf (touch b i v d w h s) j) = b_refcnt (buf s j)"
  "b_lock (buf (touch b i v d w h s) j) = b_lock (buf s j)"
  "b_data (buf (touch b i v d w h s) j) = (if j = i then v else b_data (buf s j))"
  "b_dirty (buf (touch b i v d w h s) j) = (if j = i then d else b_dirty (buf s j))"
  "b_dev (buf (touch b i v d w h s) j) = b_dev (buf s j)"
  "b_blockno (buf (touch b i v d w h s) j) = b_blockno (buf s j)"
  "b_next (buf (touch b i v d w h s) j) = b_next (buf s j)"
  "b_prev (buf (touch b i v d w h s) j) = b_prev (buf s j)"
  by (simp_all add: touch_def holds_def)

lemma touch_loaded [simp]: "loaded (touch b i v d w h s) p c j = loaded s p c j"
  by (simp add: loaded_def)

lemma touch_bframe [simp]: "bframe s (touch b i v d w h s)"
  by (simp add: bframe_def) (simp add: touch_def upd_buf_def)

lemma touch_taken [simp]: "taken (touch b i v d w h s) = taken s"
  by (simp add: taken_def)

lemma touch_binv:
  assumes "binv s" "loaded s p b i" "length v = BSIZE" "length w = BSIZE"
  shows "binv (touch b i v d w h s)"
proof -
  let ?t = "touch b i v d w h s"
  from assms(1) obtain xs where xs: "dll (buf s) xs" "set xs = {..<NBUF}" by (auto simp: binv_def)
  have i: "holds s b i" "b_valid (buf s i)" "sl_locked (b_lock (buf s i))"
    using assms(2) by (auto simp: loaded_def)
  have "dll (buf ?t) xs" using xs(1) by (rule dll_congI) simp_all
  moreover have "buf_ok (memdisk ?t) (disksize ?t) (buf ?t j)" if "j < NBUF" for j
  proof (cases "j = i")
    case True
    then show ?thesis using binv_buf_ok [OF assms(1) that] i assms(3) by (simp add: buf_ok_def)
  next
    case False
    then have "\<not> holds s b j" using holds_unique [OF assms(1) i(1)] by blast
    then show ?thesis
      using False that binv_buf_ok [OF assms(1) that] by (auto simp: buf_ok_def holds_def)
  qed
  moreover have "j = k" if "j < NBUF" "k < NBUF" "b_dev (buf ?t j) = 1 \<and> b_dev (buf ?t k) = 1 \<and>
      b_blockno (buf ?t j) = b_blockno (buf ?t k)" for j k
    using that holds_unique [OF assms(1), of "b_blockno (buf s j)" j k] by (simp add: holds_def)
  moreover have "length (memdisk ?t c) = BSIZE" if "c < disksize ?t" for c
    using that assms(1,4) by (simp add: binv_def)
  ultimately show ?thesis using xs(2) unfolding binv_def by blast
qed

lemma touch_view:
  assumes "binv s" "loaded s p b i" "length v = BSIZE" "length w = BSIZE"
  shows "view (touch b i v d w h s) = (view s)(b := v)"
proof
  fix c
  have i: "holds s b i" "b_valid (buf s i)" using assms(2) by (auto simp: loaded_def)
  show "view (touch b i v d w h s) c = ((view s)(b := v)) c"
  proof (cases "c = b")
    case True
    then show ?thesis using view_cached [OF touch_binv [OF assms, where d = d and h = h], of b i] i by simp
  next
    case False
    then have "j \<noteq> i" if "holds s c j" for j using that i(1) by (auto simp: holds_def)
    then have "j \<noteq> i" if "find_slot (\<lambda>i. holds s c i \<and> b_valid (buf s i)) 0 NBUF = Some j" for j
      using find_slot_Some [OF that] by blast
    then show ?thesis using False by (auto simp: view_def split: option.split)
  qed
qed

lemma touch_dirties:
  assumes "binv s" "loaded s p b i"
  shows "dirties (touch b i v d w h s) = (if d then insert b (dirties s) else dirties s - {b})"
proof -
  have i: "holds s b i" using assms(2) by (auto simp: loaded_def)
  have ne: "j \<noteq> i \<longleftrightarrow> c \<noteq> b" if "holds s c j" for c j
  proof -
    have "c = b \<Longrightarrow> j = i" using that i holds_unique [OF assms(1)] by simp
    then show ?thesis using that i by (auto simp: holds_def)
  qed
  have ci: "holds s c i \<longleftrightarrow> c = b" for c using i by (auto simp: holds_def)
  have "c \<in> dirties (touch b i v d w h s) \<longleftrightarrow>
      (holds s c i \<and> d) \<or> (\<exists>j. holds s c j \<and> j \<noteq> i \<and> b_dirty (buf s j))" for c
    unfolding dirties_def by (auto split: if_splits)
  moreover have "(\<exists>j. holds s c j \<and> j \<noteq> i \<and> b_dirty (buf s j)) \<longleftrightarrow>
      (\<exists>j. holds s c j \<and> c \<noteq> b \<and> b_dirty (buf s j))" for c
    by (simp only: ne cong: conj_cong)
  moreover have "(\<exists>j. holds s c j \<and> c \<noteq> b \<and> b_dirty (buf s j)) \<longleftrightarrow> c \<noteq> b \<and> c \<in> dirties s" for c
    unfolding dirties_def by blast
  ultimately have "c \<in> dirties (touch b i v d w h s) \<longleftrightarrow> c = b \<and> d \<or> c \<noteq> b \<and> c \<in> dirties s" for c
    by (simp only: ci)
  then show ?thesis by (cases d) (simp_all add: set_eq_iff, blast+)
qed

lemma loaded_data: "binv s \<Longrightarrow> loaded s p b i \<Longrightarrow> b_data (buf s i) = view s b"
  using view_cached [of s b i] by (simp add: loaded_def)

lemma loaded_size: "binv s \<Longrightarrow> loaded s p b i \<Longrightarrow> b < disksize s"
  using binv_buf_ok [of s i] by (auto simp: loaded_def holds_def buf_ok_def)

lemma set_data_touch:
  "binv s \<Longrightarrow> loaded s p b i \<Longrightarrow>
   set_data i f s = Ok ((), touch b i (f (view s b)) (b_dirty (buf s i)) (memdisk s b) (hist s) s)"
  using loaded_data [of s p b i]
  by (simp add: set_data_def run_simps touch_def) (simp add: upd_buf_def)

lemma bwrite_touch:
  assumes "idle s p" "binv s" "loaded s p b i"
  shows "bwrite i s = Ok ((), touch b i (view s b) False (view s b) (hist s @ [(b, view s b)]) s)"
proof -
  have i: "mine s p i" "b_dev (buf s i) = 1" "b_blockno (buf s i) = b" "b_valid (buf s i)"
    using assms(3) by (auto simp: loaded_def holds_def)
  then have "bwrite i s = Ok ((), upd_buf i (\<lambda>x. x\<lparr>b_dirty := False, b_valid := True\<rparr>)
      (s\<lparr>memdisk := (memdisk s)(b := view s b), hist := hist s @ [(b, view s b)]\<rparr>))"
    using assms(1) loaded_size [OF assms(2,3)] loaded_data [OF assms(2,3)]
    by (simp add: bwrite_def run_simps holding_buf_run [of s p] iderw_write [of _ p]) (simp add: upd_buf_def)
  also have "upd_buf i (\<lambda>x. x\<lparr>b_dirty := False, b_valid := True\<rparr>)
      (s\<lparr>memdisk := (memdisk s)(b := view s b), hist := hist s @ [(b, view s b)]\<rparr>) = touch b i (view s b) False (view s b) (hist s @ [(b, view s b)]) s"
    unfolding touch_def using i loaded_data [OF assms(2,3)] by (intro upd_buf_eqI) auto
  finally show ?thesis .
qed

subsection \<open>Initialisation\<close>

text \<open>Buffers as the boot loader leaves them: the kernel's zero-initialised data.\<close>

definition blank :: "buf \<Rightarrow> bool" where
  "blank b \<longleftrightarrow> \<not> b_valid b \<and> \<not> b_dirty b \<and> b_dev b = 0 \<and> b_blockno b = 0 \<and>
     \<not> sl_locked (b_lock b) \<and> b_refcnt b = 0"

lemma binit_run:
  assumes "\<And>i. blank (buf s i)" "\<And>lk. free_lock lk s"
  shows "wp binit (\<lambda>_ t. dll (buf t) (rev [0..<NBUF]) \<and> (\<forall>i. blank (buf t i)) \<and>
     t = s\<lparr>buf := buf t\<rparr>) s"
proof -
  let ?I = "\<lambda>k t. dll (buf t) (rev [0..<k]) \<and> (\<forall>i. blank (buf t i)) \<and> t = s\<lparr>buf := buf t\<rparr>"
  let ?s = "s\<lparr>buf := set_next HEAD HEAD (set_prev HEAD HEAD (buf s))\<rparr>"
  have lk: "(locks s)(lk := \<lparr>locked = False, lk_cpu = None\<rparr>) = locks s" for lk
    using assms(2) [of lk] by (simp add: free_lock_def fun_upd_idem)
  have "wp (for_each [0..<NBUF] (\<lambda>b. thenk (initsleeplock (BufSpin b) (put_b_lock b))
         (modk (\<lambda>s. s\<lparr>buf := link_front b (buf s)\<rparr>)))) (\<lambda>_ t. ?I NBUF t) ?s"
  proof (rule wp_for_upt)
    show "?I 0 ?s"
      using assms(1) by (simp add: dll_def next_prev_upd blank_def) (simp add: set_next_def set_prev_def)
  next
    fix k t assume k: "k < NBUF" and I: "?I k t"
    from I obtain bs where t: "t = s\<lparr>buf := bs\<rparr>" by blast
    with I have bs: "dll bs (rev [0..<k])" "\<And>i. blank (bs i)" by auto
    let ?b = "bs(k := (bs k)\<lparr>b_lock := \<lparr>sl_locked = False, sl_pid = 0\<rparr>\<rparr>)"
    have "dll ?b (rev [0..<k])" using bs(1) by (rule dll_congI) simp_all
    then have "dll (link_front k ?b) (rev [0..<Suc k])"
      using k by (simp add: dll_link_front)
    moreover have "blank (link_front k ?b i)" for i using bs(2) [of i] by (auto simp: blank_def)
    ultimately show "wp (thenk (initsleeplock (BufSpin k) (put_b_lock k))
         (modk (\<lambda>s. s\<lparr>buf := link_front k (buf s)\<rparr>))) (\<lambda>_ u. ?I (Suc k) u) t"
      unfolding t using lk [of "BufSpin k"]
      by (simp add: wp_simps initsleeplock_def initlock_def upd_buf_def)
  qed
  then show ?thesis
    using lk [of BcacheLock] by (simp add: binit_def wp_simps initlock_def)
qed

lemma blank_binv:
  assumes "dll (buf t) (rev [0..<NBUF])" "\<And>i. blank (buf t i)" "\<And>b. b < disksize t \<Longrightarrow> length (memdisk t b) = BSIZE"
  shows "binv t" "view t = memdisk t" "taken t = {}" "dirties t = {}"
proof -
  have nh: "\<not> holds t b i" for b i using assms(2) [of i] by (simp add: holds_def blank_def)
  have "set (rev [0..<NBUF]) = {..<NBUF}" by auto
  moreover have "buf_ok (memdisk t) (disksize t) (buf t i)" for i
    using assms(2) [of i] by (simp add: buf_ok_def blank_def)
  moreover have "b_dev (buf t i) \<noteq> 1" for i using assms(2) [of i] by (simp add: blank_def)
  ultimately show "binv t" using assms(1,3) unfolding binv_def by blast
  show "view t = memdisk t" "taken t = {}" "dirties t = {}"
    using nh view_uncached [of t] by (auto simp: taken_def dirties_def)
qed

subsection \<open>An example state\<close>

text \<open>One processor, process 0 running, no lock held, 20 zeroed blocks on the disk, and the
  buffer list as \<open>binit\<close> leaves it; \<open>z\<close> is the state of the components above.\<close>

definition demo_buf :: "nat \<Rightarrow> buf" where
  "demo_buf i = \<lparr>b_valid = False, b_dirty = False, b_dev = 0, b_blockno = 0,
     b_lock = \<lparr>sl_locked = False, sl_pid = 0\<rparr>, b_refcnt = 0,
     b_prev = (if i = HEAD then 0 else i + 1), b_next = (if i = 0 then HEAD else i - 1), b_data = []\<rparr>"

definition demo_bcache :: "(nat \<Rightarrow> byte list) \<Rightarrow> nat \<Rightarrow> 'z \<Rightarrow> 'z bcache_scheme" where
  "demo_bcache d n z = demo_vm \<lparr>memdisk = d, hist = [], disksize = n, buf = demo_buf, \<dots> = z\<rparr>"

lemmas demo_defs = demo_bcache_def demo_vm_def demo_kmem_def demo_console_def demo_machine_def

lemma demo_idle: "idle (demo_bcache d n z) 0"
  unfolding demo_bcache_def by (rule demo_vm_idle)

lemma demo_dll: "dll demo_buf (rev [0..<NBUF])"
proof -
  have "[0..<NBUF] = [0,1,2,3,4,5,6,7,8,9,10,11,12,13,14,15,16,17,18,19,20,21,22,23,24,25,26,27,28,29]"
    by (simp add: upt_conv_Cons)
  then show ?thesis by (simp add: dll_def demo_buf_def)
qed

lemma demo_binv:
  assumes "\<And>b. b < n \<Longrightarrow> length (d b) = BSIZE"
  shows "binv (demo_bcache d n z)" "view (demo_bcache d n z) = d"
    "taken (demo_bcache d n z) = {}" "dirties (demo_bcache d n z) = {}"
proof -
  let ?t = "demo_bcache d n z"
  have "dll (buf ?t) (rev [0..<NBUF])" using demo_dll by (simp add: demo_defs)
  moreover have "blank (buf ?t i)" for i by (simp add: demo_defs demo_buf_def blank_def)
  moreover have "length (memdisk ?t b) = BSIZE" if "b < disksize ?t" for b
    using assms that by (simp add: demo_defs)
  ultimately show "binv ?t" "view ?t = d" "taken ?t = {}" "dirties ?t = {}"
    using blank_binv [of ?t] by (simp_all add: demo_defs)
qed

lemma demo_disksize [simp]: "disksize (demo_bcache d n z) = n" "memdisk (demo_bcache d n z) = d"
  by (simp_all add: demo_defs)

abbreviation zeros :: "nat \<Rightarrow> byte list" where
  "zeros \<equiv> \<lambda>_. replicate BSIZE 0"

subsection \<open>Properties\<close>

text \<open>C3. The cache is transparent. Reading a block that nobody has taken, while some buffer is
  left, returns a buffer locked by the caller that holds the block's current content; the
  content of every block, the disk and the set of dirty blocks stay as they were, and the
  cache stays well-formed.\<close>

theorem bread_transparent:
  assumes "idle s p" "binv s" "b < disksize s" "b \<notin> taken s"
    and "card (insert b (taken s \<union> dirties s)) \<le> NBUF"
  shows "\<exists>i t. bread 1 b s = Ok (i, t) \<and> loaded t p b i \<and> b_data (buf t i) = view s b \<and>
     view t = view s \<and> memdisk t = memdisk s \<and> dirties t = dirties s \<and>
     taken t = insert b (taken s) \<and> binv t \<and> idle t p"
proof -
  obtain i t where t: "bread 1 b s = Ok (i, t)" "idle t p" "binv t" "same_blocks s t"
    "loaded t p b i" "taken t = insert b (taken s)" by (rule bread_spec [OF assms])
  moreover have "b_data (buf t i) = view s b"
    using same_blocksD(4) [OF t(4)] loaded_data [OF t(3,5)] by simp
  ultimately show ?thesis using same_blocksD [OF t(4)] by blast
qed

theorem bread_transparent_witness:
  "binv (demo_bcache zeros 20 ()) \<and>
   (\<exists>i t. bread 1 5 (demo_bcache zeros 20 ()) = Ok (i, t) \<and> loaded t 0 5 i \<and>
     b_data (buf t i) = replicate BSIZE 0 \<and> taken t = {5})"
proof -
  let ?s = "demo_bcache zeros 20 ()"
  have s: "binv ?s" "view ?s = zeros" "taken ?s = {}" "dirties ?s = {}"
    by (rule demo_binv, simp)+
  have "\<exists>i t. bread 1 5 ?s = Ok (i, t) \<and> loaded t 0 5 i \<and> b_data (buf t i) = view ?s 5 \<and>
     view t = view ?s \<and> memdisk t = memdisk ?s \<and> dirties t = dirties ?s \<and>
     taken t = insert 5 (taken ?s) \<and> binv t \<and> idle t 0"
    by (rule bread_transparent) (simp_all add: demo_idle s)
  then show ?thesis using s by auto
qed

text \<open>C11. On a miss, \<open>bget\<close> takes over the least recently used buffer that is neither referenced
  nor dirty, whatever the other buffers hold, and panics exactly when there is none.\<close>

theorem bget_recycles_lru:
  assumes "idle s p" "binv s" "\<And>i. \<not> holds s b i" "dll (buf s) xs" "set xs = {..<NBUF}"
  shows "case List.find (recyclable s) (rev xs) of
     None \<Rightarrow> bget 1 b s = Panic ''bget: no buffers''
   | Some i \<Rightarrow> \<exists>t. bget 1 b s = Ok (i, t) \<and> holds t b i \<and> \<not> b_valid (buf t i) \<and> mine t p i \<and>
       (\<forall>j. j \<noteq> i \<longrightarrow> buf t j = buf s j) \<and> memdisk t = memdisk s \<and> idle t p"
proof (cases "List.find (recyclable s) (rev xs)")
  case None
  then show ?thesis using bget_scans [OF assms(1,4,5,3)] by simp
next
  case (Some i)
  note get = bget_miss_lru [OF assms(1-5) Some]
  then show ?thesis using assms(1) Some by (simp add: holds_upd)
qed

theorem bget_recycles_lru_witness:
  "\<exists>t. bget 1 5 (demo_bcache zeros 20 ()) = Ok (0, t) \<and> holds t 5 0 \<and> mine t 0 0"
proof -
  let ?s = "demo_bcache zeros 20 ()"
  have inv: "binv ?s" by (rule demo_binv) simp
  have l: "dll (buf ?s) (rev [0..<NBUF])" using demo_dll by (simp add: demo_defs)
  have nh: "\<not> holds ?s 5 i" for i by (simp add: holds_def demo_defs demo_buf_def)
  have st: "set (rev [0..<NBUF]) = {..<NBUF}" by auto
  have "List.find (recyclable ?s) (rev (rev [0..<NBUF])) = Some 0"
    by (simp add: upt_conv_Cons demo_defs demo_buf_def)
  then show ?thesis
    using bget_recycles_lru [OF demo_idle inv nh l st] by auto
qed

text \<open>\<open>brelse\<close> of a block that is dirty or unchanged gives it up, makes its buffer the most
  recently used one and leaves every block's content as it was.\<close>

lemma brelse_mru:
  assumes "idle s p" "binv s" "loaded s p b i" "b_dirty (buf s i) \<or> view s b = memdisk s b"
    and "dll (buf s) xs" "set xs = {..<NBUF}"
  shows "\<exists>t. brelse i s = Ok ((), t) \<and> dll (buf t) (i # remove1 i xs) \<and> view t = view s \<and>
     memdisk t = memdisk s \<and> dirties t = dirties s \<and> taken t = taken s - {b} \<and> binv t \<and> idle t p"
proof -
  obtain t where t: "brelse i s = Ok ((), t)" "idle t p" "binv t" "same_blocks s t"
    "taken t = taken s - {b}" by (rule brelse_spec [OF assms(1-4)])
  have i: "mine s p i" "i \<in> set xs" "b_refcnt (buf s i) = 1"
    using assms(3,6) by (auto simp: loaded_def holds_def)
  have "dll (buf t) (i # remove1 i xs)"
    using t(1) brelse_run [OF assms(1) i(1)] dll_drop_buf [OF assms(5) i(2)] i(3) by auto
  then show ?thesis using t same_blocksD [OF t(4)] by blast
qed

end
