(* ===== verification/Log.thy ===== *)
theory Log
  imports Bio
begin

text \<open>
  The write-ahead log (\<open>log.c\<close>) and the superblock it reads (\<open>readsb\<close> of \<open>fs.c\<close>).

  The fields of \<open>struct log\<close> are the fields of the record \<open>logs\<close>; the counters that C keeps
  as \<open>int\<close> are integers here, the block numbers of \<open>log.lh.block\<close> are the unsigned values
  \<open>bread\<close> takes them as. The on-disk header is read and written as the bytes of
  \<open>struct logheader\<close>: the count at offset 0, the block numbers from offset 4 on.

  Shown: committing a transaction moves exactly the pending contents to their home blocks;
  and a power failure after any number of the disk writes of a commit, followed by the
  recovery of \<open>initlog\<close>, leaves every home block with its old content, or every home block
  with its new content. The same holds when recovery itself is interrupted.
\<close>

abbreviation (input) MAXOPBLOCKS :: nat where "MAXOPBLOCKS \<equiv> 10"
abbreviation (input) LOGSIZE :: nat where "LOGSIZE \<equiv> 30"

subsection \<open>Data\<close>

record superblock =
  sb_size :: nat
  sb_nblocks :: nat
  sb_ninodes :: nat
  sb_nlog :: nat
  sb_logstart :: nat
  sb_inodestart :: nat
  sb_bmapstart :: nat

record logs = bcache +
  log_start :: nat
  log_size :: int
  log_outstanding :: int
  log_committing :: bool
  log_dev :: nat
  log_n :: int
  log_block :: "nat \<Rightarrow> nat"

definition enc_int :: "int \<Rightarrow> byte list" where
  "enc_int n = enc32 (nat (n mod 4294967296))"

definition dec_int :: "byte list \<Rightarrow> nat \<Rightarrow> int" where
  "dec_int bs i =
     (let u = int (dec32 bs i) in if u < 2147483648 then u else u - 4294967296)"

definition sb_of :: "byte list \<Rightarrow> superblock" where
  "sb_of d = \<lparr>sb_size = dec32 d 0, sb_nblocks = dec32 d 4, sb_ninodes = dec32 d 8,
     sb_nlog = dec32 d 12, sb_logstart = dec32 d 16, sb_inodestart = dec32 d 20,
     sb_bmapstart = dec32 d 24\<rparr>"

definition readsb :: "nat \<Rightarrow> ('z bcache_scheme, superblock) kop" where
  "readsb dev =
     bindk (bread dev 1) (\<lambda>bp.
     bindk (get_data bp) (\<lambda>d.
     thenk (brelse bp) (ret (sb_of d))))"

subsection \<open>Operations\<close>

definition install_one :: "nat \<Rightarrow> ('z logs_scheme, unit) kop" where
  "install_one tail =
     bindk (getk (\<lambda>s. log_start s + tail + 1)) (\<lambda>l.
     bindk (getk log_dev) (\<lambda>dev.
     bindk (bread dev l) (\<lambda>lbuf.
     bindk (getk (\<lambda>s. log_block s tail)) (\<lambda>h.
     bindk (bread dev h) (\<lambda>dbuf.
     bindk (get_data lbuf) (\<lambda>d.
     thenk (set_data dbuf (\<lambda>_. d)) (
     thenk (bwrite dbuf) (
     thenk (brelse lbuf)
       (brelse dbuf)))))))))"

definition install_trans :: "('z logs_scheme, unit) kop" where
  "install_trans = bindk (getk log_n) (\<lambda>n. for_each [0..<nat n] install_one)"

definition read_blocks :: "int \<Rightarrow> byte list \<Rightarrow> (nat \<Rightarrow> nat) \<Rightarrow> (nat \<Rightarrow> nat)" where
  "read_blocks n d blk = fold (\<lambda>i blk. blk(i := dec32 d (4 + 4 * i))) [0..<nat n] blk"

definition read_head :: "('z logs_scheme, unit) kop" where
  "read_head =
     bindk (getk (\<lambda>s. (log_dev s, log_start s))) (\<lambda>(dev, start).
     bindk (bread dev start) (\<lambda>b.
     bindk (get_data b) (\<lambda>d.
     thenk (modk (\<lambda>s. s\<lparr>log_n := dec_int d 0\<rparr>)) (
     thenk (modk (\<lambda>s. s\<lparr>log_block := read_blocks (log_n s) d (log_block s)\<rparr>))
       (brelse b)))))"

definition fill_head :: "int \<Rightarrow> (nat \<Rightarrow> nat) \<Rightarrow> byte list \<Rightarrow> byte list" where
  "fill_head n blk d =
     fold (\<lambda>i d. overwrite d (4 + 4 * i) (enc32 (blk i))) [0..<nat n] (overwrite d 0 (enc_int n))"

definition write_head :: "('z logs_scheme, unit) kop" where
  "write_head =
     bindk (getk (\<lambda>s. (log_dev s, log_start s))) (\<lambda>(dev, start).
     bindk (bread dev start) (\<lambda>b.
     bindk (getk (\<lambda>s. (log_n s, log_block s))) (\<lambda>(n, blk).
     thenk (set_data b (fill_head n blk)) (
     thenk (bwrite b)
       (brelse b)))))"

definition recover_from_log :: "('z logs_scheme, unit) kop" where
  "recover_from_log =
     thenk read_head (
     thenk install_trans (
     thenk (modk (\<lambda>s. s\<lparr>log_n := 0\<rparr>))
       write_head))"

text \<open>\<open>sizeof(struct logheader)\<close> is 4 bytes for the count and 4 for each of \<open>LOGSIZE\<close> blocks.\<close>

definition initlog :: "nat \<Rightarrow> ('z logs_scheme, unit) kop" where
  "initlog dev =
     (if BSIZE \<le> 4 + 4 * LOGSIZE then panic ''initlog: too big logheader''
      else thenk (initlock LogLock) (
        bindk (readsb dev) (\<lambda>sb.
        thenk (modk (\<lambda>s. s\<lparr>log_start := sb_logstart sb\<rparr>)) (
        thenk (modk (\<lambda>s. s\<lparr>log_size := int (sb_nlog sb)\<rparr>)) (
        thenk (modk (\<lambda>s. s\<lparr>log_dev := dev\<rparr>))
          recover_from_log)))))"

definition begin_op :: "('z logs_scheme, unit) kop" where
  "begin_op =
     thenk (acquire LogLock) (
     bindk (getk id) (\<lambda>s.
     if log_committing s then sleep ChanLog LogLock
     else if int LOGSIZE < log_n s + (log_outstanding s + 1) * int MAXOPBLOCKS
     then sleep ChanLog LogLock
     else thenk (modk (\<lambda>s. s\<lparr>log_outstanding := log_outstanding s + 1\<rparr>)) (release LogLock)))"

definition write_one :: "nat \<Rightarrow> ('z logs_scheme, unit) kop" where
  "write_one tail =
     bindk (getk (\<lambda>s. log_start s + tail + 1)) (\<lambda>l.
     bindk (getk log_dev) (\<lambda>dev.
     bindk (bread dev l) (\<lambda>to.
     bindk (getk (\<lambda>s. log_block s tail)) (\<lambda>h.
     bindk (bread dev h) (\<lambda>from.
     bindk (get_data from) (\<lambda>d.
     thenk (set_data to (\<lambda>_. d)) (
     thenk (bwrite to) (
     thenk (brelse from)
       (brelse to)))))))))"

definition write_log :: "('z logs_scheme, unit) kop" where
  "write_log = bindk (getk log_n) (\<lambda>n. for_each [0..<nat n] write_one)"

definition commit :: "('z logs_scheme, unit) kop" where
  "commit =
     bindk (getk log_n) (\<lambda>n.
     whenk (0 < n) (
       thenk write_log (
       thenk write_head (
       thenk install_trans (
       thenk (modk (\<lambda>s. s\<lparr>log_n := 0\<rparr>))
         write_head)))))"

definition end_op :: "('z logs_scheme, unit) kop" where
  "end_op =
     thenk (acquire LogLock) (
     thenk (modk (\<lambda>s. s\<lparr>log_outstanding := log_outstanding s - 1\<rparr>)) (
     bindk (getk log_committing) (\<lambda>c.
     if c then panic ''log.committing''
     else bindk (getk (\<lambda>s. log_outstanding s = 0)) (\<lambda>do_commit.
       thenk (if do_commit then modk (\<lambda>s. s\<lparr>log_committing := True\<rparr>) else wakeup ChanLog) (
       thenk (release LogLock)
         (whenk do_commit (
           thenk commit (
           thenk (acquire LogLock) (
           thenk (modk (\<lambda>s. s\<lparr>log_committing := False\<rparr>)) (
           thenk (wakeup ChanLog)
             (release LogLock)))))))))))"

definition log_slot :: "'z logs_scheme \<Rightarrow> nat \<Rightarrow> nat" where
  "log_slot s b = (case find_slot (\<lambda>i. log_block s i = b) 0 (nat (log_n s)) of
     Some i \<Rightarrow> i | None \<Rightarrow> nat (log_n s))"

definition log_write :: "nat \<Rightarrow> ('z logs_scheme, unit) kop" where
  "log_write b =
     bindk (getk id) (\<lambda>s.
     if int LOGSIZE \<le> log_n s \<or> log_size s - 1 \<le> log_n s then panic ''too big a transaction''
     else if log_outstanding s < 1 then panic ''log_write outside of trans''
     else thenk (acquire LogLock) (
       bindk (getk (\<lambda>s. log_slot s (b_blockno (buf s b)))) (\<lambda>i.
       thenk (modk (\<lambda>s. s\<lparr>log_block := (log_block s)(i := b_blockno (buf s b))\<rparr>)) (
       thenk (modk (\<lambda>s. if int i = log_n s then s\<lparr>log_n := log_n s + 1\<rparr> else s)) (
       thenk (modk (upd_buf b (\<lambda>b. b\<lparr>b_dirty := True\<rparr>)))
         (release LogLock))))))"

subsection \<open>The header's bytes\<close>

lemma length_enc_int [simp]: "length (enc_int n) = 4"
  by (simp add: enc_int_def)

lemma dec_int_same:
  assumes "off + 4 \<le> length bs" "0 \<le> n" "n < 2147483648"
  shows "dec_int (overwrite bs off (enc_int n)) off = n"
  using assms by (simp add: dec_int_def enc_int_def dec32_overwrite_same Let_def)

lemma dec_int_other:
  assumes "off + length xs \<le> length bs" "i + 4 \<le> length bs" "i + 4 \<le> off \<or> off + length xs \<le> i"
  shows "dec_int (overwrite bs off xs) i = dec_int bs i"
  using assms by (simp add: dec_int_def dec32_overwrite_other)

lemma fill_fold:
  assumes "length d = BSIZE" "k \<le> LOGSIZE" "\<And>i. i < k \<Longrightarrow> blk i < 4294967296"
  shows "length (fold (\<lambda>i d. overwrite d (4 + 4 * i) (enc32 (blk i))) [0..<k] d) = BSIZE \<and>
    dec_int (fold (\<lambda>i d. overwrite d (4 + 4 * i) (enc32 (blk i))) [0..<k] d) 0 = dec_int d 0 \<and>
    (\<forall>i<k. dec32 (fold (\<lambda>i d. overwrite d (4 + 4 * i) (enc32 (blk i))) [0..<k] d) (4 + 4 * i) = blk i)"
  using assms(2,3)
proof (induction k)
  case 0
  then show ?case using assms(1) by simp
next
  case (Suc k)
  let ?d = "fold (\<lambda>i d. overwrite d (4 + 4 * i) (enc32 (blk i))) [0..<k] d"
  have l: "length ?d = BSIZE" and n: "dec_int ?d 0 = dec_int d 0"
    and b: "\<And>i. i < k \<Longrightarrow> dec32 ?d (4 + 4 * i) = blk i" using Suc by auto
  have "dec32 (overwrite ?d (4 + 4 * k) (enc32 (blk k))) (4 + 4 * i) = blk i" if "i < Suc k" for i
  proof (cases "i = k")
    case True
    then show ?thesis using l Suc.prems by (simp add: dec32_overwrite_same)
  next
    case False
    then show ?thesis
      using that l b [of i] Suc.prems(1) dec32_overwrite_other [of "4 + 4 * k" "enc32 (blk k)" ?d "4 + 4 * i"]
      by simp
  qed
  then show ?case using l n Suc.prems(1) by (simp add: dec_int_other)
qed

lemma fill_head_dec:
  assumes "length d = BSIZE" "0 \<le> n" "n \<le> int LOGSIZE" "\<And>i. i < nat n \<Longrightarrow> blk i < 4294967296"
  shows "length (fill_head n blk d) = BSIZE" "dec_int (fill_head n blk d) 0 = n"
    "i < nat n \<Longrightarrow> dec32 (fill_head n blk d) (4 + 4 * i) = blk i"
proof -
  have k: "nat n \<le> LOGSIZE" using assms(3) by linarith
  have "length (overwrite d 0 (enc_int n)) = BSIZE" using assms(1) by simp
  note f = fill_fold [OF this k, of blk, folded fill_head_def]
  show "length (fill_head n blk d) = BSIZE" "i < nat n \<Longrightarrow> dec32 (fill_head n blk d) (4 + 4 * i) = blk i"
    using f assms(4) by blast+
  show "dec_int (fill_head n blk d) 0 = n"
    using f assms by (simp add: dec_int_same)
qed

lemma read_blocks_nth:
  "read_blocks n d blk i = (if i < nat n then dec32 d (4 + 4 * i) else blk i)"
proof -
  have "fold (\<lambda>i blk. blk(i := dec32 d (4 + 4 * i))) [0..<k] blk i =
      (if i < k then dec32 d (4 + 4 * i) else blk i)" for k
    by (induction k) auto
  then show ?thesis by (simp add: read_blocks_def)
qed

subsection \<open>Writing one block through the cache\<close>

lemma bframe_log:
  assumes "bframe s t"
  shows "log_start t = log_start s" "log_size t = log_size s" "log_outstanding t = log_outstanding s"
    "log_committing t = log_committing s" "log_dev t = log_dev s" "log_n t = log_n s"
    "log_block t = log_block s" "logs.more t = logs.more s"
proof -
  have eq: "t = s\<lparr>memdisk := memdisk t, hist := hist t, buf := buf t, ptable := ptable t\<rparr>"
    using assms unfolding bframe_def by blast
  show "log_start t = log_start s" "log_size t = log_size s" "log_outstanding t = log_outstanding s"
    "log_committing t = log_committing s" "log_dev t = log_dev s" "log_n t = log_n s"
    "log_block t = log_block s" "logs.more t = logs.more s"
    using arg_cong [OF eq, of log_start] arg_cong [OF eq, of log_size]
      arg_cong [OF eq, of log_outstanding] arg_cong [OF eq, of log_committing]
      arg_cong [OF eq, of log_dev] arg_cong [OF eq, of log_n] arg_cong [OF eq, of log_block]
      arg_cong [OF eq, of logs.more] by simp_all
qed

text \<open>A quiet state: \<open>p\<close> runs, the cache is well-formed and nobody holds a buffer.\<close>

definition quiet :: "'z bcache_scheme \<Rightarrow> nat \<Rightarrow> bool" where
  "quiet s p \<longleftrightarrow> idle s p \<and> binv s \<and> taken s = {}"

text \<open>\<open>wrote s t a v\<close>: between the quiet states \<open>s\<close> and \<open>t\<close>, just block \<open>a\<close> was written to disk.\<close>

definition wrote :: "'z bcache_scheme \<Rightarrow> 'z bcache_scheme \<Rightarrow> nat \<Rightarrow> byte list \<Rightarrow> bool" where
  "wrote s t a v \<longleftrightarrow> bframe s t \<and> view t = (view s)(a := v) \<and> dirties t = dirties s - {a} \<and>
     memdisk t = (memdisk s)(a := v) \<and> hist t = hist s @ [(a, v)]"

text \<open>From a state where \<open>p\<close> holds the block: change it, write it.\<close>

lemma store_block:
  assumes "idle s p" "binv s" "loaded s p a i" "length (f (view s a)) = BSIZE"
  obtains t where "thenk (set_data i f) (bwrite i) s = Ok ((), t)" "wrote s t a (f (view s a))"
    "idle t p" "binv t" "taken t = taken s" "\<forall>c j. loaded t p c j = loaded s p c j"
proof -
  define v where "v = f (view s a)"
  have lv: "length v = BSIZE" using assms(4) by (simp add: v_def)
  have ld: "length (memdisk s a) = BSIZE"
    using assms(2) loaded_size [OF assms(2,3)] by (simp add: binv_def)
  define u where "u = touch a i v (b_dirty (buf s i)) (memdisk s a) (hist s) s"
  have u: "binv u" "loaded u p a i" "view u = (view s)(a := v)" "idle u p"
    unfolding u_def using assms touch_binv [OF assms(2,3) lv ld] touch_view [OF assms(2,3) lv ld] by simp_all
  define t where "t = touch a i v False v (hist s @ [(a, v)]) u"
  have wr: "bwrite i u = Ok ((), t)"
    using bwrite_touch [OF u(4,1,2)] u(3) by (simp add: t_def u_def)
  have "dirties t = dirties s - {a}"
    using touch_dirties [OF u(1,2)] touch_dirties [OF assms(2,3)]
    by (auto simp: t_def u_def split: if_splits)
  moreover have "view t = (view s)(a := v)"
    using touch_view [OF u(1,2) lv lv] u(3) by (simp add: t_def)
  moreover have "bframe s t" unfolding t_def u_def by (rule bframe_trans [OF touch_bframe touch_bframe])
  ultimately have "wrote s t a v"
    unfolding wrote_def by (simp add: t_def u_def)
  moreover have "binv t" unfolding t_def by (rule touch_binv [OF u(1,2) lv lv])
  ultimately show ?thesis
    using wr assms u by (intro that [of t])
      (simp_all add: v_def [symmetric] run_simps set_data_touch [OF assms(2,3)] u_def [symmetric], simp_all add: t_def u_def)
qed

lemma quiet_clean:
  assumes "quiet s p" "b < disksize s" "b \<notin> dirties s"
  shows "view s b = memdisk s b"
proof (rule view_clean)
  show "binv s" "b < disksize s" using assms by (simp_all add: quiet_def)
  fix i assume h: "holds s b i"
  then have "b_refcnt (buf s i) = 0" using assms(1) by (auto simp: quiet_def taken_def)
  then have "\<not> sl_locked (b_lock (buf s i))"
    using h assms(1) binv_buf_ok [of s i] by (auto simp: quiet_def holds_def buf_ok_def)
  then show "\<not> b_dirty (buf s i) \<and> \<not> sl_locked (b_lock (buf s i))"
    using h assms(3) by (auto simp: dirties_def)
qed

lemma loaded_dirty:
  assumes "binv s" "loaded s p b i"
  shows "b_dirty (buf s i) \<longleftrightarrow> b \<in> dirties s"
proof
  show "b_dirty (buf s i) \<Longrightarrow> b \<in> dirties s" using assms(2) by (auto simp: dirties_def loaded_def)
  assume "b \<in> dirties s"
  then obtain j where j: "holds s b j" "b_dirty (buf s j)" by (auto simp: dirties_def)
  have "i = j" using holds_unique [OF assms(1) _ j(1)] assms(2) by (simp add: loaded_def)
  then show "b_dirty (buf s i)" using j(2) by simp
qed

lemma finite_dirties: "finite (dirties s)"
proof (rule finite_subset)
  show "dirties s \<subseteq> (\<lambda>i. b_blockno (buf s i)) ` {..<NBUF}" by (auto simp: dirties_def holds_def)
qed simp

lemma load_two:
  assumes "quiet s p" "a < disksize s" "b < disksize s" "a \<noteq> b"
    and "card (insert a (insert b (dirties s))) \<le> NBUF"
  obtains i j u t where "bread 1 a s = Ok (i, u)" "bread 1 b u = Ok (j, t)" "idle t p" "binv t"
    "same_blocks s u" "same_blocks s t" "loaded t p a i" "loaded t p b j" "taken t = {a, b}"
proof -
  have s: "idle s p" "binv s" "taken s = {}" using assms(1) by (auto simp: quiet_def)
  have "card (insert a (dirties s)) \<le> card (insert a (insert b (dirties s)))"
    using finite_dirties by (intro card_mono) auto
  then have c: "card (insert a (taken s \<union> dirties s)) \<le> NBUF" using assms(5) s(3) by simp
  obtain i u where u: "bread 1 a s = Ok (i, u)" "idle u p" "binv u" "same_blocks s u"
    "loaded u p a i" "taken u = insert a (taken s)"
    by (rule bread_spec [OF s(1,2) assms(2) _ c]) (simp add: s(3))
  note su = same_blocksD [OF u(4)]
  have c2: "card (insert b (taken u \<union> dirties u)) \<le> NBUF"
    using assms(5) su u(6) s(3) by (simp add: insert_commute)
  obtain j t where t: "bread 1 b u = Ok (j, t)" "idle t p" "binv t" "same_blocks u t"
    "loaded t p b j" "taken t = insert b (taken u)" "\<forall>c j. loaded u p c j \<longrightarrow> loaded t p c j"
    by (rule bread_spec [OF u(2,3) _ _ c2]) (use assms(3,4) su u(6) s(3) in simp_all)
  have "same_blocks s t"
    using u(4) t(4) bframe_trans unfolding same_blocks_def by (metis (full_types))
  then show ?thesis
    using u t s(3) by (intro that [of i u j t]) auto
qed

lemma copy_tail:
  assumes "idle s p" "binv s" "loaded s p a i" "loaded s p b j" "a \<noteq> b" "taken s = {a, b}"
    and "b \<in> dirties s \<or> view s b = memdisk s b"
  obtains t where "thenk (set_data i (\<lambda>_. view s b)) (thenk (bwrite i) (thenk (brelse j) (brelse i))) s = Ok ((), t)"
    "wrote s t a (view s b)" "quiet t p"
proof -
  have lb: "length (view s b) = BSIZE"
    by (rule length_view [OF assms(2) loaded_size [OF assms(2,4)]])
  obtain u where u: "thenk (set_data i (\<lambda>_. view s b)) (bwrite i) s = Ok ((), u)" "wrote s u a (view s b)"
    "idle u p" "binv u" "taken u = taken s" and lu: "\<forall>c k. loaded u p c k = loaded s p c k"
    by (rule store_block [OF assms(1-3), of "\<lambda>_. view s b", OF lb])
  have wu: "bframe s u" "view u = (view s)(a := view s b)" "dirties u = dirties s - {a}"
    "memdisk u = (memdisk s)(a := view s b)" using u(2) by (auto simp: wrote_def)
  have jl: "loaded u p b j" and il: "loaded u p a i" using lu assms(3,4) by simp_all
  have "b_dirty (buf u j) \<or> view u b = memdisk u b"
    unfolding loaded_dirty [OF u(4) jl] using assms(5,7) wu by auto
  then obtain w where w: "brelse j u = Ok ((), w)" "idle w p" "binv w" "same_blocks u w"
    "taken w = taken u - {b}" and lw: "\<forall>c k. c \<noteq> b \<longrightarrow> loaded u p c k \<longrightarrow> loaded w p c k"
    by (rule brelse_spec [OF u(3,4) jl])
  note sw = same_blocksD [OF w(4)]
  have "loaded w p a i" using lw il assms(5) by blast
  moreover have "b_dirty (buf w i) \<or> view w a = memdisk w a" using sw wu by simp
  ultimately obtain t where t: "brelse i w = Ok ((), t)" "idle t p" "binv t" "same_blocks w t"
    "taken t = taken w - {a}" by (rule brelse_spec [OF w(2,3)])
  note st = same_blocksD [OF t(4)]
  have "wrote s t a (view s b)"
    using u(2) sw st bframe_trans [OF bframe_trans [OF wu(1) sw(1)] st(1)] by (simp add: wrote_def)
  moreover have "quiet t p" using t w(5) u(5) assms(6) by (auto simp: quiet_def)
  moreover have "thenk (thenk (set_data i (\<lambda>_. view s b)) (bwrite i)) (thenk (brelse j) (brelse i)) s = Ok ((), t)"
    unfolding thenk_Ok [where m = "thenk _ _", OF u(1)] using w(1) t(1) by (simp add: thenk_run)
  ultimately show ?thesis using that unfolding thenk_assoc by blast
qed

lemma quiet_settled:
  "quiet s p \<Longrightarrow> b < disksize s \<Longrightarrow> same_blocks s t \<Longrightarrow> b \<in> dirties t \<or> view t b = memdisk t b"
  using quiet_clean [of s p b] same_blocksD [of s t] by auto

lemma write_one_spec:
  assumes "quiet s p" "log_dev s = 1" "log_start s + tail + 1 < disksize s" "log_block s tail < disksize s"
    and "log_block s tail \<noteq> log_start s + tail + 1"
    and "card (insert (log_start s + tail + 1) (insert (log_block s tail) (dirties s))) \<le> NBUF"
  obtains t where "write_one tail s = Ok ((), t)" "quiet t p"
    "wrote s t (log_start s + tail + 1) (view s (log_block s tail))"
proof -
  let ?a = "log_start s + tail + 1" and ?b = "log_block s tail"
  obtain i j u t where t: "bread 1 ?a s = Ok (i, u)" "bread 1 ?b u = Ok (j, t)" "idle t p" "binv t"
    "same_blocks s u" "same_blocks s t" "loaded t p ?a i" "loaded t p ?b j" "taken t = {?a, ?b}"
    by (rule load_two [OF assms(1,3,4) assms(5) [symmetric] assms(6)])
  note st = same_blocksD [OF t(6)]
  obtain r where r: "thenk (set_data i (\<lambda>_. view t ?b)) (thenk (bwrite i) (thenk (brelse j) (brelse i))) t = Ok ((), r)"
    "wrote t r ?a (view t ?b)" "quiet r p"
    by (rule copy_tail [OF t(3,4,7,8) assms(5) [symmetric] t(9) quiet_settled [OF assms(1,4) t(6)]])
  have "write_one tail s = Ok ((), r)"
    using r(1) t(1,2) loaded_data [OF t(4,8)] bframe_log [OF same_blocksD(1) [OF t(5)]] assms(2)
    by (simp add: write_one_def bindk_run getk_run get_data_def)
  moreover have "wrote s r ?a (view s ?b)"
    using r(2) st bframe_trans [OF st(1)] by (simp add: wrote_def)
  ultimately show ?thesis using that r(3) by blast
qed

lemma install_one_spec:
  assumes "quiet s p" "log_dev s = 1" "log_start s + tail + 1 < disksize s" "log_block s tail < disksize s"
    and "log_block s tail \<noteq> log_start s + tail + 1"
    and "card (insert (log_start s + tail + 1) (insert (log_block s tail) (dirties s))) \<le> NBUF"
  obtains t where "install_one tail s = Ok ((), t)" "quiet t p"
    "wrote s t (log_block s tail) (view s (log_start s + tail + 1))"
proof -
  let ?a = "log_start s + tail + 1" and ?b = "log_block s tail"
  obtain i j u t where t: "bread 1 ?a s = Ok (i, u)" "bread 1 ?b u = Ok (j, t)" "idle t p" "binv t"
    "same_blocks s u" "same_blocks s t" "loaded t p ?a i" "loaded t p ?b j" "taken t = {?a, ?b}"
    by (rule load_two [OF assms(1,3,4) assms(5) [symmetric] assms(6)])
  note st = same_blocksD [OF t(6)]
  have tk: "taken t = {?b, ?a}" using t(9) by blast
  obtain r where r: "thenk (set_data j (\<lambda>_. view t ?a)) (thenk (bwrite j) (thenk (brelse i) (brelse j))) t = Ok ((), r)"
    "wrote t r ?b (view t ?a)" "quiet r p"
    by (rule copy_tail [OF t(3,4,8,7) assms(5) tk quiet_settled [OF assms(1,3) t(6)]])
  have "install_one tail s = Ok ((), r)"
    using r(1) t(1,2) loaded_data [OF t(4,7)] bframe_log [OF same_blocksD(1) [OF t(5)]] assms(2)
    by (simp add: install_one_def bindk_run getk_run get_data_def)
  moreover have "wrote s r ?b (view s ?a)"
    using r(2) st bframe_trans [OF st(1)] by (simp add: wrote_def)
  ultimately show ?thesis using that r(3) by blast
qed

lemma write_head_spec:
  assumes "quiet s p" "log_dev s = 1" "log_start s < disksize s" "0 \<le> log_n s" "log_n s \<le> int LOGSIZE"
    and "\<And>i. i < nat (log_n s) \<Longrightarrow> log_block s i < 4294967296"
    and "card (insert (log_start s) (dirties s)) \<le> NBUF"
  obtains t where "write_head s = Ok ((), t)" "quiet t p"
    "wrote s t (log_start s) (fill_head (log_n s) (log_block s) (view s (log_start s)))"
proof -
  let ?a = "log_start s" and ?f = "fill_head (log_n s) (log_block s)"
  have s: "idle s p" "binv s" "taken s = {}" using assms(1) by (auto simp: quiet_def)
  have c: "card (insert ?a (taken s \<union> dirties s)) \<le> NBUF" using assms(7) s(3) by simp
  obtain i u where u: "bread 1 ?a s = Ok (i, u)" "idle u p" "binv u" "same_blocks s u"
    "loaded u p ?a i" "taken u = insert ?a (taken s)"
    by (rule bread_spec [OF s(1,2) assms(3) _ c]) (simp add: s(3))
  note su = same_blocksD [OF u(4)]
  have "length (?f (view u ?a)) = BSIZE"
    using fill_head_dec(1) [OF length_view [OF s(2) assms(3)] assms(4-6)] su by simp
  then obtain w where w: "thenk (set_data i ?f) (bwrite i) u = Ok ((), w)" "wrote u w ?a (?f (view u ?a))"
    "idle w p" "binv w" "taken w = taken u" and lw: "\<forall>c j. loaded w p c j = loaded u p c j"
    by (rule store_block [OF u(2,3,5)])
  have lw: "loaded w p ?a i" using lw u(5) by blast
  have "b_dirty (buf w i) \<or> view w ?a = memdisk w ?a" using w(2) by (simp add: wrote_def)
  then obtain t where t: "brelse i w = Ok ((), t)" "idle t p" "binv t" "same_blocks w t"
    "taken t = taken w - {?a}" by (rule brelse_spec [OF w(3,4) lw])
  note stt = same_blocksD [OF t(4)]
  have "thenk (thenk (set_data i ?f) (bwrite i)) (brelse i) u = Ok ((), t)"
    unfolding thenk_Ok [where m = "thenk _ _", OF w(1)] by (rule t(1))
  then have "write_head s = Ok ((), t)"
    using u(1) assms(2) bframe_log [OF su(1)]
    by (simp add: write_head_def bindk_run getk_run thenk_assoc)
  moreover have "wrote s t ?a (?f (view s ?a))"
    using w(2) su stt bframe_trans [OF bframe_trans [OF su(1)] stt(1)] by (simp add: wrote_def)
  moreover have "quiet t p" using t u(6) w(5) s(3) by (auto simp: quiet_def)
  ultimately show ?thesis using that by blast
qed

subsection \<open>Sequences of disk writes\<close>

definition apply_writes :: "(nat \<times> byte list) list \<Rightarrow> (nat \<Rightarrow> byte list) \<Rightarrow> (nat \<Rightarrow> byte list)" where
  "apply_writes ws d = fold (\<lambda>(b, v) d. d(b := v)) ws d"

lemma apply_writes_simps [simp]:
  "apply_writes [] d = d"
  "apply_writes ((b, v) # ws) d = apply_writes ws (d(b := v))"
  "apply_writes (ws @ ws') d = apply_writes ws' (apply_writes ws d)"
  by (simp_all add: apply_writes_def)

lemma apply_writes_other: "b \<notin> fst ` set ws \<Longrightarrow> apply_writes ws d b = d b"
  by (induction ws arbitrary: d) auto

lemma apply_writes_distinct:
  "(b, v) \<in> set ws \<Longrightarrow> distinct (map fst ws) \<Longrightarrow> apply_writes ws d b = v"
proof (induction ws arbitrary: d)
  case (Cons w ws)
  then show ?case by (cases w) (auto simp: apply_writes_other)
qed simp

lemma apply_writes_same:
  "(\<And>b v. (b, v) \<in> set ws \<Longrightarrow> d b = v) \<Longrightarrow> apply_writes ws d = d"
proof (induction ws arbitrary: d)
  case (Cons w ws)
  then show ?case by (cases w) (auto simp: fun_upd_idem)
qed simp

definition wrote_list :: "'z bcache_scheme \<Rightarrow> 'z bcache_scheme \<Rightarrow> (nat \<times> byte list) list \<Rightarrow> bool" where
  "wrote_list s t ws \<longleftrightarrow> bframe s t \<and> view t = apply_writes ws (view s) \<and>
     dirties t = dirties s - fst ` set ws \<and> memdisk t = apply_writes ws (memdisk s) \<and>
     hist t = hist s @ ws"

lemma wrote_list_Nil: "wrote_list s s []"
  by (simp add: wrote_list_def)

lemma wrote_list_snoc: "wrote_list s t ws \<Longrightarrow> wrote t u a v \<Longrightarrow> wrote_list s u (ws @ [(a, v)])"
  using bframe_trans [of s t u] by (auto simp: wrote_list_def wrote_def)

text \<open>A loop whose \<open>k\<close>-th pass copies block \<open>c k\<close> to block \<open>a k\<close>, where no block is both read
  and written.\<close>

lemma copy_loop:
  assumes "quiet s p"
    and step: "\<And>k t. k < n \<Longrightarrow> quiet t p \<Longrightarrow> bframe s t \<Longrightarrow> dirties t \<subseteq> dirties s \<Longrightarrow>
      \<exists>u. op k t = Ok ((), u) \<and> quiet u p \<and> wrote t u (a k) (view t (c k))"
    and ac: "\<And>i j. i < n \<Longrightarrow> j < n \<Longrightarrow> a i \<noteq> c j"
  obtains t where "for_each [0..<n] op s = Ok ((), t)" "quiet t p"
    "wrote_list s t (map (\<lambda>i. (a i, view s (c i))) [0..<n])"
proof -
  let ?I = "\<lambda>k t. quiet t p \<and> wrote_list s t (map (\<lambda>i. (a i, view s (c i))) [0..<k])"
  have "wp (for_each [0..<n] op) (\<lambda>_ t. ?I n t) s"
  proof (rule wp_for_upt)
    show "?I 0 s" using assms(1) wrote_list_Nil by simp
    fix k t assume k: "k < n" and I: "?I k t"
    then have t: "bframe s t" "dirties t \<subseteq> dirties s"
      "view t = apply_writes (map (\<lambda>i. (a i, view s (c i))) [0..<k]) (view s)"
      by (auto simp: wrote_list_def)
    obtain u where u: "op k t = Ok ((), u)" "quiet u p" "wrote t u (a k) (view t (c k))"
      using step [OF k _ t(1,2)] I by blast
    have "c k \<noteq> a i" if "i < k" for i using ac [of i k] that k by simp
    then have "c k \<notin> a ` {0..<k}" by (metis atLeastLessThan_iff imageE)
    then have "view t (c k) = view s (c k)"
      unfolding t(3) by (intro apply_writes_other) (simp add: image_image)
    then show "wp (op k) (\<lambda>_ t. ?I (Suc k) t) t"
      using u I wrote_list_snoc [of s t _ u "a k" "view s (c k)"] by (simp add: wp_Ok)
  qed
  from wpD [OF this] obtain t where "for_each [0..<n] op s = Ok ((), t)" "?I n t" by auto
  then show ?thesis using that by blast
qed

subsection \<open>Well-formed logs\<close>

text \<open>The log lies inside the disk and is no larger than \<open>LOGSIZE\<close>, as \<open>mkfs\<close> lays it out; the
  blocks recorded in memory are distinct and lie outside of it.\<close>

definition log_region :: "'z logs_scheme \<Rightarrow> nat set" where
  "log_region s = {log_start s ..< log_start s + nat (log_size s)}"

definition log_geom :: "'z logs_scheme \<Rightarrow> bool" where
  "log_geom s \<longleftrightarrow> log_dev s = 1 \<and> 0 < log_size s \<and> log_size s \<le> int LOGSIZE \<and>
     log_start s + nat (log_size s) \<le> disksize s \<and> disksize s \<le> 4294967296"

definition pending :: "'z logs_scheme \<Rightarrow> bool" where
  "pending s \<longleftrightarrow> 0 \<le> log_n s \<and> log_n s < log_size s \<and> inj_on (log_block s) {..<nat (log_n s)} \<and>
     (\<forall>i<nat (log_n s). log_block s i < disksize s \<and> log_block s i \<notin> log_region s)"

lemma log_geomD:
  assumes "log_geom s" "pending s" "k < nat (log_n s)"
  shows "log_dev s = 1" "log_start s + k + 1 < disksize s" "log_block s k < disksize s"
    "log_start s + k + 1 \<in> log_region s" "log_block s k \<notin> log_region s" "log_start s < disksize s"
    "log_block s k \<noteq> log_start s + k + 1"
  using assms by (auto simp: log_geom_def pending_def log_region_def)

lemma log_cards:
  assumes "log_geom s" "pending s" "dirties t \<subseteq> log_block s ` {..<nat (log_n s)}"
  shows "card (insert a (dirties t)) \<le> NBUF"
    "k < nat (log_n s) \<Longrightarrow> card (insert a (insert (log_block s k) (dirties t))) \<le> NBUF"
proof -
  have n: "nat (log_n s) < NBUF" using assms(1,2) by (auto simp: log_geom_def pending_def)
  have B: "card (log_block s ` {..<nat (log_n s)}) < NBUF"
    using card_image_le [of "{..<nat (log_n s)}" "log_block s"] n by simp
  have *: "card (insert a X) \<le> NBUF" if "X \<subseteq> log_block s ` {..<nat (log_n s)}" for X
    using card_mono [OF _ that] card_insert_le_m1 [of NBUF X a] B by simp
  show "card (insert a (dirties t)) \<le> NBUF" by (rule * [OF assms(3)])
  show "card (insert a (insert (log_block s k) (dirties t))) \<le> NBUF" if "k < nat (log_n s)"
    by (rule *) (use that assms(3) in auto)
qed

lemma bframe_geom: "bframe s t \<Longrightarrow> log_geom t = log_geom s \<and> pending t = pending s \<and> log_region t = log_region s"
  using bframe_log [of s t] bframe_simps(1) [of s t] by (simp add: log_geom_def pending_def log_region_def)

definition log_writes :: "'z logs_scheme \<Rightarrow> (nat \<times> byte list) list" where
  "log_writes s = map (\<lambda>i. (log_start s + i + 1, view s (log_block s i))) [0..<nat (log_n s)]"

definition home_writes :: "'z logs_scheme \<Rightarrow> (nat \<times> byte list) list" where
  "home_writes s = map (\<lambda>i. (log_block s i, view s (log_start s + i + 1))) [0..<nat (log_n s)]"

lemma write_log_spec:
  assumes "quiet s p" "log_geom s" "pending s" "dirties s \<subseteq> log_block s ` {..<nat (log_n s)}"
  obtains t where "write_log s = Ok ((), t)" "quiet t p" "wrote_list s t (log_writes s)"
proof -
  obtain t where "for_each [0..<nat (log_n s)] write_one s = Ok ((), t)" "quiet t p"
    "wrote_list s t (map (\<lambda>i. (log_start s + i + 1, view s (log_block s i))) [0..<nat (log_n s)])"
  proof (rule copy_loop [OF assms(1), of "nat (log_n s)" write_one "\<lambda>i. log_start s + i + 1" "log_block s"])
    fix k t assume k: "k < nat (log_n s)" and t: "quiet t p" "bframe s t" "dirties t \<subseteq> dirties s"
    note g = log_geomD [OF assms(2,3) k] and f = bframe_log [OF t(2)] bframe_simps(1) [OF t(2)]
    have "card (insert (log_start s + k + 1) (insert (log_block s k) (dirties t))) \<le> NBUF"
      using log_cards(2) [OF assms(2,3) _ k] t(3) assms(4) by (meson subset_trans)
    then obtain u where "write_one k t = Ok ((), u)" "quiet u p"
        "wrote t u (log_start s + k + 1) (view t (log_block s k))"
      by (rule write_one_spec [OF t(1), of k, unfolded f, OF g(1,2,3,7)])
    then show "\<exists>u. write_one k t = Ok ((), u) \<and> quiet u p \<and>
        wrote t u (log_start s + k + 1) (view t (log_block s k))" by blast
  next
    fix i j assume "i < nat (log_n s)" "j < nat (log_n s)"
    then show "log_start s + i + 1 \<noteq> log_block s j"
      using log_geomD(4) [OF assms(2,3)] log_geomD(5) [OF assms(2,3)] by metis
  qed
  then show ?thesis by (intro that [of t]) (simp_all add: write_log_def log_writes_def run_simps)
qed

lemma install_trans_spec:
  assumes "quiet s p" "log_geom s" "pending s" "dirties s \<subseteq> log_block s ` {..<nat (log_n s)}"
  obtains t where "install_trans s = Ok ((), t)" "quiet t p" "wrote_list s t (home_writes s)"
proof -
  obtain t where "for_each [0..<nat (log_n s)] install_one s = Ok ((), t)" "quiet t p"
    "wrote_list s t (map (\<lambda>i. (log_block s i, view s (log_start s + i + 1))) [0..<nat (log_n s)])"
  proof (rule copy_loop [OF assms(1), of "nat (log_n s)" install_one "log_block s" "\<lambda>i. log_start s + i + 1"])
    fix k t assume k: "k < nat (log_n s)" and t: "quiet t p" "bframe s t" "dirties t \<subseteq> dirties s"
    note g = log_geomD [OF assms(2,3) k] and f = bframe_log [OF t(2)] bframe_simps(1) [OF t(2)]
    have "card (insert (log_start s + k + 1) (insert (log_block s k) (dirties t))) \<le> NBUF"
      using log_cards(2) [OF assms(2,3) _ k] t(3) assms(4) by (meson subset_trans)
    then obtain u where "install_one k t = Ok ((), u)" "quiet u p"
        "wrote t u (log_block s k) (view t (log_start s + k + 1))"
      by (rule install_one_spec [OF t(1), of k, unfolded f, OF g(1,2,3,7)])
    then show "\<exists>u. install_one k t = Ok ((), u) \<and> quiet u p \<and>
        wrote t u (log_block s k) (view t (log_start s + k + 1))" by blast
  next
    fix i j assume "i < nat (log_n s)" "j < nat (log_n s)"
    then show "log_block s i \<noteq> log_start s + j + 1"
      using log_geomD(4) [OF assms(2,3)] log_geomD(5) [OF assms(2,3)] by metis
  qed
  then show ?thesis by (intro that [of t]) (simp_all add: install_trans_def home_writes_def run_simps)
qed

subsection \<open>Commit\<close>

text \<open>Log operations change the state only here.\<close>

definition lframe :: "'z logs_scheme \<Rightarrow> 'z logs_scheme \<Rightarrow> bool" where
  "lframe s t \<longleftrightarrow> t = s\<lparr>memdisk := memdisk t, hist := hist t, buf := buf t, ptable := ptable t,
       log_outstanding := log_outstanding t, log_committing := log_committing t,
       log_n := log_n t, log_block := log_block t\<rparr> \<and>
     (\<forall>i. woken (ptable s i) (ptable t i))"

lemma lframeI: "bframe s t \<Longrightarrow> lframe s (t\<lparr>log_outstanding := o', log_committing := c, log_n := n, log_block := b\<rparr>)"
proof -
  assume a: "bframe s t"
  then obtain m h b pt where "t = s\<lparr>memdisk := m, hist := h, buf := b, ptable := pt\<rparr>"
    unfolding bframe_def by blast
  with a show ?thesis by (simp add: lframe_def bframe_def)
qed

lemma bframe_lframe: "bframe s t \<Longrightarrow> lframe s t"
  using lframeI [of s t, where o' = "log_outstanding t" and c = "log_committing t" and n = "log_n t"
    and b = "log_block t"] by simp

lemma lframe_refl [simp]: "lframe s s"
  by (simp add: lframe_def)

lemma lframe_trans: "lframe s t \<Longrightarrow> lframe t u \<Longrightarrow> lframe s u"
proof -
  assume a: "lframe s t" "lframe t u"
  then obtain m h b pt o' c n bl where
    t: "t = s\<lparr>memdisk := m, hist := h, buf := b, ptable := pt, log_outstanding := o',
      log_committing := c, log_n := n, log_block := bl\<rparr>" unfolding lframe_def by blast
  from a obtain m' h' b' pt' o'' c' n' bl' where
    u: "u = t\<lparr>memdisk := m', hist := h', buf := b', ptable := pt', log_outstanding := o'',
      log_committing := c', log_n := n', log_block := bl'\<rparr>" unfolding lframe_def by blast
  have "woken (ptable s i) (ptable u i)" for i
    using a woken_trans unfolding lframe_def by blast
  then show ?thesis unfolding lframe_def by (simp add: u t)
qed

lemma lframe_simps:
  assumes "lframe s t"
  shows "disksize t = disksize s" "locks t = locks s" "cpus t = cpus s" "log_start t = log_start s"
    "log_size t = log_size s" "log_dev t = log_dev s" "logs.more t = logs.more s" "me t = me s"
    "nextpid t = nextpid s" "initproc t = initproc s" "pid (ptable t q) = pid (ptable s q)"
proof -
  from assms obtain m h b pt o' c n bl where
    t: "t = s\<lparr>memdisk := m, hist := h, buf := b, ptable := pt, log_outstanding := o',
      log_committing := c, log_n := n, log_block := bl\<rparr>" unfolding lframe_def by blast
  show "disksize t = disksize s" "locks t = locks s" "cpus t = cpus s" "log_start t = log_start s"
    "log_size t = log_size s" "log_dev t = log_dev s" "logs.more t = logs.more s" "me t = me s"
    "nextpid t = nextpid s" "initproc t = initproc s" by (simp_all add: t me_def)
  show "pid (ptable t q) = pid (ptable s q)"
    using assms woken_simps(1) [of "ptable s q" "ptable t q"] by (simp add: lframe_def)
qed

text \<open>The disk writes of a commit, in order.\<close>

definition commit_writes :: "'z logs_scheme \<Rightarrow> (nat \<times> byte list) list" where
  "commit_writes s =
     (let h = fill_head (log_n s) (log_block s) (view s (log_start s)) in
      log_writes s @ [(log_start s, h)] @
      map (\<lambda>i. (log_block s i, view s (log_block s i))) [0..<nat (log_n s)] @
      [(log_start s, overwrite h 0 (enc_int 0))])"

lemma bcache_log_upd [simp]:
  "view (s\<lparr>log_n := n\<rparr>) = view s" "dirties (s\<lparr>log_n := n\<rparr>) = dirties s" "taken (s\<lparr>log_n := n\<rparr>) = taken s"
  "binv (s\<lparr>log_n := n\<rparr>) = binv s" "idle (s\<lparr>log_n := n\<rparr>) p = idle s p" "quiet (s\<lparr>log_n := n\<rparr>) p = quiet s p"
  "loaded (s\<lparr>log_n := n\<rparr>) p b i = loaded s p b i"
  "view (s\<lparr>log_block := k\<rparr>) = view s" "dirties (s\<lparr>log_block := k\<rparr>) = dirties s"
  "taken (s\<lparr>log_block := k\<rparr>) = taken s" "binv (s\<lparr>log_block := k\<rparr>) = binv s"
  "idle (s\<lparr>log_block := k\<rparr>) p = idle s p" "quiet (s\<lparr>log_block := k\<rparr>) p = quiet s p"
  "loaded (s\<lparr>log_block := k\<rparr>) p b i = loaded s p b i"
  "view (s\<lparr>log_outstanding := o'\<rparr>) = view s" "dirties (s\<lparr>log_outstanding := o'\<rparr>) = dirties s"
  "taken (s\<lparr>log_outstanding := o'\<rparr>) = taken s" "binv (s\<lparr>log_outstanding := o'\<rparr>) = binv s"
  "idle (s\<lparr>log_outstanding := o'\<rparr>) p = idle s p" "quiet (s\<lparr>log_outstanding := o'\<rparr>) p = quiet s p"
  "view (s\<lparr>log_committing := c\<rparr>) = view s" "dirties (s\<lparr>log_committing := c\<rparr>) = dirties s"
  "taken (s\<lparr>log_committing := c\<rparr>) = taken s" "binv (s\<lparr>log_committing := c\<rparr>) = binv s"
  "idle (s\<lparr>log_committing := c\<rparr>) p = idle s p" "quiet (s\<lparr>log_committing := c\<rparr>) p = quiet s p"
  using bcache_cong [of "s\<lparr>log_n := n\<rparr>" s] bcache_cong [of "s\<lparr>log_block := k\<rparr>" s]
    bcache_cong [of "s\<lparr>log_outstanding := o'\<rparr>" s] bcache_cong [of "s\<lparr>log_committing := c\<rparr>" s]
  by (simp_all add: quiet_def loaded_def)

lemma log_writes_dest: "fst ` set (log_writes s) \<subseteq> (\<lambda>i. log_start s + i + 1) ` {..<nat (log_n s)}"
  by (auto simp: log_writes_def)

lemma view_after_log_writes:
  assumes "log_geom s" "pending s"
  shows "apply_writes (log_writes s) d (log_start s) = d (log_start s)"
    "k < nat (log_n s) \<Longrightarrow> apply_writes (log_writes s) d (log_start s + k + 1) = view s (log_block s k)"
    "b \<notin> log_region s \<Longrightarrow> apply_writes (log_writes s) d b = d b"
proof -
  show "apply_writes (log_writes s) d (log_start s) = d (log_start s)"
    by (rule apply_writes_other) (auto simp: log_writes_def)
  have "distinct (map fst (log_writes s))"
    by (simp add: log_writes_def comp_def distinct_map inj_on_def)
  then show "apply_writes (log_writes s) d (log_start s + k + 1) = view s (log_block s k)"
    if "k < nat (log_n s)" using that by (intro apply_writes_distinct) (auto simp: log_writes_def)
  show "apply_writes (log_writes s) d b = d b" if "b \<notin> log_region s"
    using that log_geomD(4) [OF assms] by (intro apply_writes_other) (auto simp: log_writes_def)
qed

lemma wrote_listD:
  assumes "wrote_list s t ws"
  shows "bframe s t" "view t = apply_writes ws (view s)" "dirties t = dirties s - fst ` set ws"
    "memdisk t = apply_writes ws (memdisk s)" "hist t = hist s @ ws"
  using assms by (auto simp: wrote_list_def)

lemma wrote_list_trans: "wrote_list s t ws \<Longrightarrow> wrote_list t u vs \<Longrightarrow> wrote_list s u (ws @ vs)"
  using bframe_trans [of s t u] by (auto simp: wrote_list_def)

abbreviation log_header :: "'z logs_scheme \<Rightarrow> byte list" where
  "log_header s \<equiv> fill_head (log_n s) (log_block s) (view s (log_start s))"

lemma log_writes_dirties:
  assumes "log_geom s" "pending s" "D \<subseteq> log_block s ` {..<nat (log_n s)}"
  shows "D - fst ` set (log_writes s) = D"
proof -
  have "x \<notin> D" if x: "x \<in> fst ` set (log_writes s)" for x
  proof -
    obtain i where i: "i < nat (log_n s)" "x = log_start s + i + 1"
      using x by (auto simp: log_writes_def)
    then have "x \<in> log_region s" using log_geomD(4) [OF assms(1,2)] by blast
    then show ?thesis using assms(3) log_geomD(5) [OF assms(1,2)] by blast
  qed
  then show ?thesis by blast
qed

lemma commit_log_phase:
  assumes "quiet s p" "log_geom s" "pending s" "dirties s = log_block s ` {..<nat (log_n s)}" "0 < log_n s"
  obtains a b where "write_log s = Ok ((), a)" "write_head a = Ok ((), b)" "quiet b p"
    "wrote_list s b (log_writes s @ [(log_start s, log_header s)])"
proof -
  have n: "0 \<le> log_n s" "log_n s \<le> int LOGSIZE" using assms(2,3) by (auto simp: log_geom_def pending_def)
  have k0: "0 < nat (log_n s)" using assms(5) by simp
  note g = log_geomD [OF assms(2,3)]
  have bl: "log_block s i < 4294967296" if "i < nat (log_n s)" for i
    using g(3) [OF that] assms(2) by (simp add: log_geom_def)
  have ds: "dirties s \<subseteq> log_block s ` {..<nat (log_n s)}" using assms(4) by simp
  obtain a where a: "write_log s = Ok ((), a)" "quiet a p" "wrote_list s a (log_writes s)"
    by (rule write_log_spec [OF assms(1-3) ds])
  note aw = wrote_listD [OF a(3)] and af = bframe_log [OF wrote_listD(1) [OF a(3)]]
  have ad: "dirties a = dirties s" using aw(3) log_writes_dirties [OF assms(2,3) ds] by simp
  obtain b where b: "write_head a = Ok ((), b)" "quiet b p"
    "wrote a b (log_start a) (fill_head (log_n a) (log_block a) (view a (log_start a)))"
  proof (rule write_head_spec [OF a(2)])
    show "log_dev a = 1" "log_start a < disksize a" "0 \<le> log_n a" "log_n a \<le> int LOGSIZE"
      using af bframe_simps(1) [OF aw(1)] g(1,6) [OF k0] n by simp_all
    show "log_block a i < 4294967296" if "i < nat (log_n a)" for i using that bl af by simp
    show "card (insert (log_start a) (dirties a)) \<le> NBUF"
      unfolding ad by (rule log_cards(1) [OF assms(2,3) ds])
  qed
  have "wrote_list s b (log_writes s @ [(log_start s, log_header s)])"
    using wrote_list_snoc [OF a(3) b(3)] by (simp add: af aw(2) view_after_log_writes(1) [OF assms(2,3)])
  then show ?thesis using that a(1) b(1,2) by blast
qed

lemma commit_install_phase:
  assumes "log_geom s" "pending s" "dirties s = log_block s ` {..<nat (log_n s)}"
    and "quiet b p" "wrote_list s b (log_writes s @ [(log_start s, h)])"
  obtains c where "install_trans b = Ok ((), c)" "quiet c p" "dirties c = {}" "view c (log_start s) = h"
    "wrote_list s c (log_writes s @ [(log_start s, h)] @
       map (\<lambda>i. (log_block s i, view s (log_block s i))) [0..<nat (log_n s)])"
proof -
  let ?hw = "map (\<lambda>i. (log_block s i, view s (log_block s i))) [0..<nat (log_n s)]"
  note bw = wrote_listD [OF assms(5)] and bf = bframe_log [OF wrote_listD(1) [OF assms(5)]]
    and bg = bframe_geom [OF wrote_listD(1) [OF assms(5)]]
  have lb: "log_geom b" "pending b" using bg assms(1,2) by blast+
  obtain c where c: "install_trans b = Ok ((), c)" "quiet c p" "wrote_list b c (home_writes b)"
    by (rule install_trans_spec [OF assms(4) lb]) (use bw(3) assms(3) bf in auto)
  have "view b (log_start s + i + 1) = view s (log_block s i)" if "i < nat (log_n s)" for i
    using that bw(2) view_after_log_writes(2) [OF assms(1,2) that] by simp
  then have hw: "home_writes b = ?hw" by (simp add: home_writes_def bf)
  have wc: "wrote_list s c (log_writes s @ [(log_start s, h)] @ ?hw)"
    using wrote_list_trans [OF assms(5) c(3)] by (simp add: hw)
  note cw = wrote_listD [OF wc]
  have cd: "dirties c = {}" unfolding cw(3) assms(3) by force
  have "log_start s \<in> log_region s" using assms(1) by (simp add: log_region_def log_geom_def)
  then have "log_start s \<notin> fst ` set ?hw" using log_geomD(5) [OF assms(1,2)] by auto
  then have "view c (log_start s) = h" unfolding cw(2) by (simp add: apply_writes_other)
  then show ?thesis using that c(1,2) cd wc by blast
qed

text \<open>Both commit and recovery end by clearing the header.\<close>

lemma clear_head:
  assumes "quiet b p" "log_geom b" "dirties b = {}"
  obtains t where "write_head (b\<lparr>log_n := 0\<rparr>) = Ok ((), t)" "quiet t p" "lframe b t" "log_n t = 0"
    "log_outstanding t = log_outstanding b" "log_committing t = log_committing b" "dirties t = {}"
    "view t = (view b)(log_start b := overwrite (view b (log_start b)) 0 (enc_int 0))"
    "memdisk t = (memdisk b)(log_start b := overwrite (view b (log_start b)) 0 (enc_int 0))"
    "hist t = hist b @ [(log_start b, overwrite (view b (log_start b)) 0 (enc_int 0))]"
proof -
  let ?b = "b\<lparr>log_n := 0\<rparr>"
  have g: "log_start b < disksize b" "log_dev b = 1" using assms(2) by (auto simp: log_geom_def)
  obtain t where t: "write_head ?b = Ok ((), t)" "quiet t p"
    "wrote ?b t (log_start ?b) (fill_head (log_n ?b) (log_block ?b) (view ?b (log_start ?b)))"
    by (rule write_head_spec [of ?b p]) (use assms g in simp_all)
  then have tw: "bframe ?b t" by (simp add: wrote_def)
  have "lframe b ?b"
    using lframeI [OF bframe_refl [of b], where o' = "log_outstanding b" and c = "log_committing b" and n = 0 and b = "log_block b"] by simp
  moreover have "lframe ?b t"
    using bframe_lframe [OF tw] by simp
  ultimately have fr: "lframe b t" by (rule lframe_trans)
  show ?thesis
    by (rule that [OF t(1,2) fr]) (use bframe_log [OF tw] t(3) assms(3) in \<open>simp_all add: wrote_def fill_head_def\<close>)
qed

lemma commit_spec:
  assumes "quiet s p" "log_geom s" "pending s" "dirties s = log_block s ` {..<nat (log_n s)}" "0 < log_n s"
  obtains t where "commit s = Ok ((), t)" "quiet t p" "lframe s t" "log_n t = 0"
    "log_committing t = log_committing s" "log_outstanding t = log_outstanding s"
    "view t = apply_writes (commit_writes s) (view s)"
    "memdisk t = apply_writes (commit_writes s) (memdisk s)"
    "hist t = hist s @ commit_writes s" "dirties t = {}"
proof -
  obtain a b where b: "write_log s = Ok ((), a)" "write_head a = Ok ((), b)" "quiet b p"
    "wrote_list s b (log_writes s @ [(log_start s, log_header s)])"
    by (rule commit_log_phase [OF assms])
  obtain c where c: "install_trans b = Ok ((), c)" "quiet c p" "dirties c = {}"
    "view c (log_start s) = log_header s"
    "wrote_list s c (log_writes s @ [(log_start s, log_header s)] @
       map (\<lambda>i. (log_block s i, view s (log_block s i))) [0..<nat (log_n s)])"
    by (rule commit_install_phase [OF assms(2-4) b(3,4)])
  note cw = wrote_listD [OF c(5)] and cf = bframe_log [OF wrote_listD(1) [OF c(5)]]
  have "log_geom c" using bframe_geom [OF cw(1)] assms(2) by blast
  then obtain t where t: "write_head (c\<lparr>log_n := 0\<rparr>) = Ok ((), t)" "quiet t p" "lframe c t" "log_n t = 0"
    "log_outstanding t = log_outstanding c" "log_committing t = log_committing c" "dirties t = {}"
    "view t = (view c)(log_start c := overwrite (view c (log_start c)) 0 (enc_int 0))"
    "memdisk t = (memdisk c)(log_start c := overwrite (view c (log_start c)) 0 (enc_int 0))"
    "hist t = hist c @ [(log_start c, overwrite (view c (log_start c)) 0 (enc_int 0))]"
    by (rule clear_head [OF c(2) _ c(3)])
  have "lframe s c"
    using bframe_lframe [OF cw(1)] by simp
  then have fr: "lframe s t" using t(3) by (rule lframe_trans)
  have run: "commit s = Ok ((), t)"
    using assms(5) b(1,2) c(1) t(1) by (simp add: commit_def run_simps)
  show ?thesis
    by (rule that [OF run t(2) fr])
       (use t cf cw c(4) in \<open>simp_all add: commit_writes_def Let_def\<close>)
qed

subsection \<open>Recovery\<close>

text \<open>The header on disk \<open>d\<close>, and the writes that recovery makes.\<close>

definition hdr_n :: "nat \<Rightarrow> (nat \<Rightarrow> byte list) \<Rightarrow> int" where
  "hdr_n start d = dec_int (d start) 0"

definition hdr_block :: "nat \<Rightarrow> (nat \<Rightarrow> byte list) \<Rightarrow> nat \<Rightarrow> nat" where
  "hdr_block start d i = dec32 (d start) (4 + 4 * i)"

definition good_header :: "nat \<Rightarrow> nat \<Rightarrow> nat \<Rightarrow> (nat \<Rightarrow> byte list) \<Rightarrow> bool" where
  "good_header start nl N d \<longleftrightarrow> 0 \<le> hdr_n start d \<and> hdr_n start d < int nl \<and>
     inj_on (hdr_block start d) {..<nat (hdr_n start d)} \<and>
     (\<forall>i<nat (hdr_n start d). hdr_block start d i < N \<and> hdr_block start d i \<notin> {start..<start + nl})"

definition recover_writes :: "nat \<Rightarrow> (nat \<Rightarrow> byte list) \<Rightarrow> (nat \<times> byte list) list" where
  "recover_writes start d =
     map (\<lambda>i. (hdr_block start d i, d (start + i + 1))) [0..<nat (hdr_n start d)] @
     [(start, overwrite (d start) 0 (enc_int 0))]"

lemma read_head_spec:
  assumes "quiet s p" "log_geom s" "dirties s = {}"
  obtains t where "read_head s = Ok ((), t)" "quiet t p" "lframe s t"
    "log_n t = hdr_n (log_start s) (view s)" "\<forall>i<nat (log_n t). log_block t i = hdr_block (log_start s) (view s) i"
    "view t = view s" "memdisk t = memdisk s" "hist t = hist s" "dirties t = {}"
    "log_outstanding t = log_outstanding s" "log_committing t = log_committing s"
proof -
  let ?a = "log_start s"
  have s: "idle s p" "binv s" "taken s = {}" using assms(1) by (auto simp: quiet_def)
  have a: "?a < disksize s" "log_dev s = 1" using assms(2) by (auto simp: log_geom_def)
  obtain i u where u: "bread 1 ?a s = Ok (i, u)" "idle u p" "binv u" "same_blocks s u"
    "loaded u p ?a i" "taken u = insert ?a (taken s)"
    by (rule bread_spec [OF s(1,2) a(1)]) (use s(3) assms(3) in simp_all)
  note su = same_blocksD [OF u(4)] and fu = bframe_log [OF same_blocksD(1) [OF u(4)]]
  define w where "w = u\<lparr>log_n := hdr_n ?a (view s), log_block := read_blocks (hdr_n ?a (view s)) (view s ?a) (log_block u)\<rparr>"
  have w: "idle w p" "binv w" "loaded w p ?a i" using u(2,3,5) by (simp_all add: w_def)
  have "view w ?a = memdisk w ?a"
    using quiet_clean [OF assms(1) a(1)] assms(3) su by (simp add: w_def)
  then obtain t where t: "brelse i w = Ok ((), t)" "idle t p" "binv t" "same_blocks w t"
    "taken t = taken w - {?a}" by (rule brelse_spec [OF w disjI2])
  note st = same_blocksD [OF t(4)] and ft = bframe_log [OF same_blocksD(1) [OF t(4)]]
  have "read_head s = Ok ((), t)"
    using u(1) t(1) a(2) loaded_data [OF u(3,5)] su(4) fu
    by (simp add: read_head_def run_simps get_data_def hdr_n_def w_def)
  moreover have "lframe s w"
    using lframeI [OF su(1), where o' = "log_outstanding u" and c = "log_committing u"] by (simp add: w_def)
  then have "lframe s t" using lframe_trans bframe_lframe [OF st(1)] by blast
  moreover have "quiet t p" using t w u(6) s(3) by (auto simp: quiet_def w_def)
  moreover have "log_n t = hdr_n ?a (view s)"
    "\<forall>i<nat (log_n t). log_block t i = hdr_block ?a (view s) i"
    using ft by (simp_all add: w_def read_blocks_nth hdr_block_def)
  moreover have "view t = view s" "memdisk t = memdisk s" "hist t = hist s" "dirties t = {}"
    "log_outstanding t = log_outstanding s" "log_committing t = log_committing s"
    using st su ft fu assms(3) by (simp_all add: w_def)
  ultimately show ?thesis using that by blast
qed

lemma lframe_geom: "lframe s t \<Longrightarrow> log_geom t = log_geom s \<and> log_region t = log_region s"
  using lframe_simps [of s t] by (simp add: log_geom_def log_region_def)

lemma recover_spec:
  assumes "quiet s p" "log_geom s" "dirties s = {}"
    and "good_header (log_start s) (nat (log_size s)) (disksize s) (view s)"
  obtains t where "recover_from_log s = Ok ((), t)" "quiet t p" "lframe s t" "log_n t = 0" "dirties t = {}"
    "view t = apply_writes (recover_writes (log_start s) (view s)) (view s)"
    "memdisk t = apply_writes (recover_writes (log_start s) (view s)) (memdisk s)"
    "hist t = hist s @ recover_writes (log_start s) (view s)"
proof -
  obtain a where a: "read_head s = Ok ((), a)" "quiet a p" "lframe s a"
    "log_n a = hdr_n (log_start s) (view s)" "\<forall>i<nat (log_n a). log_block a i = hdr_block (log_start s) (view s) i"
    "view a = view s" "memdisk a = memdisk s" "hist a = hist s" "dirties a = {}"
    by (rule read_head_spec [OF assms(1-3)])
  note fa = lframe_simps [OF a(3)] and ga = lframe_geom [OF a(3)]
  have g: "log_geom a" using ga assms(2) by blast
  have p: "pending a"
    using assms(2,4) a(4,5) fa ga
    by (auto simp: pending_def good_header_def log_region_def log_geom_def inj_on_def)
  have "dirties a \<subseteq> log_block a ` {..<nat (log_n a)}" using a(9) by simp
  then obtain b where b: "install_trans a = Ok ((), b)" "quiet b p" "wrote_list a b (home_writes a)"
    by (rule install_trans_spec [OF a(2) g p])
  note bw = wrote_listD [OF b(3)] and bf = bframe_log [OF wrote_listD(1) [OF b(3)]]
  have hw: "home_writes a = map (\<lambda>i. (hdr_block (log_start s) (view s) i, view s (log_start s + i + 1)))
      [0..<nat (hdr_n (log_start s) (view s))]"
    using a(4,5,6) fa by (simp add: home_writes_def)
  have "log_start s \<notin> fst ` set (home_writes a)"
    using assms(2,4) by (auto simp: hw good_header_def log_geom_def)
  then have vb: "view b (log_start s) = view s (log_start s)"
    by (simp add: bw(2) apply_writes_other a(6))
  have "log_geom b" using bframe_geom [OF bw(1)] g by blast
  then obtain t where t: "write_head (b\<lparr>log_n := 0\<rparr>) = Ok ((), t)" "quiet t p" "lframe b t" "log_n t = 0"
    "log_outstanding t = log_outstanding b" "log_committing t = log_committing b" "dirties t = {}"
    "view t = (view b)(log_start b := overwrite (view b (log_start b)) 0 (enc_int 0))"
    "memdisk t = (memdisk b)(log_start b := overwrite (view b (log_start b)) 0 (enc_int 0))"
    "hist t = hist b @ [(log_start b, overwrite (view b (log_start b)) 0 (enc_int 0))]"
    by (rule clear_head [OF b(2)]) (use bw(3) a(9) in simp)
  have "lframe a b"
    using bframe_lframe [OF bw(1)] by simp
  then have fr: "lframe s t" using a(3) t(3) lframe_trans by blast
  have run: "recover_from_log s = Ok ((), t)"
    using a(1) b(1) t(1) by (simp add: recover_from_log_def run_simps)
  show ?thesis
    by (rule that [OF run t(2) fr])
       (use t bf fa bw a vb in \<open>simp_all add: recover_writes_def hw\<close>)
qed

subsection \<open>Crashes\<close>

text \<open>What recovery leaves on the disk, as a function of the disk it finds.\<close>

definition recovered :: "nat \<Rightarrow> (nat \<Rightarrow> byte list) \<Rightarrow> (nat \<Rightarrow> byte list)" where
  "recovered start d = apply_writes (recover_writes start d) d"

text \<open>\<open>interrupted start js d\<close>: recovery is started once for each element of \<open>js\<close> and loses
  power after that many disk writes.\<close>

fun interrupted :: "nat \<Rightarrow> nat list \<Rightarrow> (nat \<Rightarrow> byte list) \<Rightarrow> (nat \<Rightarrow> byte list)" where
  "interrupted start [] d = d"
| "interrupted start (j # js) d =
     interrupted start js (apply_writes (take j (recover_writes start d)) d)"

definition redo_writes :: "nat \<Rightarrow> (nat \<Rightarrow> byte list) \<Rightarrow> (nat \<times> byte list) list" where
  "redo_writes start d = map (\<lambda>i. (hdr_block start d i, d (start + i + 1))) [0..<nat (hdr_n start d)]"

lemma recover_writes_redo:
  "recover_writes start d = redo_writes start d @ [(start, overwrite (d start) 0 (enc_int 0))]"
  by (simp add: recover_writes_def redo_writes_def)

lemma redo_home:
  assumes "good_header start nl N d" "b \<in> fst ` set (redo_writes start d)"
  shows "b < N" "b \<notin> {start..<start + nl}"
  using assms by (auto simp: redo_writes_def good_header_def)

lemma redo_distinct: "good_header start nl N d \<Longrightarrow> distinct (map fst (redo_writes start d))"
  by (auto simp: redo_writes_def good_header_def comp_def distinct_map inj_on_def)

lemma good_header_nl: "good_header start nl N d \<Longrightarrow> start \<in> {start..<start + nl}"
  by (auto simp: good_header_def)

lemma set_takeD': "x \<in> fst ` set (take k ws) \<Longrightarrow> x \<in> fst ` set ws"
  by (auto dest: in_set_takeD)

text \<open>While only home blocks have been rewritten, the header and the log are as they were, and
  recovery does the same again.\<close>

lemma redo_again:
  assumes "good_header start nl N d" "ws = take j (redo_writes start d)"
  shows "redo_writes start (apply_writes ws d) = redo_writes start d"
    "apply_writes ws d start = d start" "good_header start nl N (apply_writes ws d)"
proof -
  have out: "apply_writes ws d b = d b" if b: "b \<in> {start..<start + nl}" for b
  proof (intro apply_writes_other notI)
    assume "b \<in> fst ` set ws"
    then have "b \<in> fst ` set (redo_writes start d)" unfolding assms(2) by (rule set_takeD')
    then show False using redo_home(2) [OF assms(1)] b by blast
  qed
  show st: "apply_writes ws d start = d start" by (rule out [OF good_header_nl [OF assms(1)]])
  then have h: "hdr_n start (apply_writes ws d) = hdr_n start d"
    "hdr_block start (apply_writes ws d) = hdr_block start d"
    by (simp_all add: hdr_n_def hdr_block_def fun_eq_iff)
  have "apply_writes ws d (start + i + 1) = d (start + i + 1)" if "i < nat (hdr_n start d)" for i
    using that assms(1) by (intro out) (auto simp: good_header_def)
  then show "redo_writes start (apply_writes ws d) = redo_writes start d"
    by (simp add: redo_writes_def h)
  show "good_header start nl N (apply_writes ws d)" using assms(1) by (simp add: good_header_def h)
qed

lemma redo_absorb:
  assumes "distinct (map fst ws)"
  shows "apply_writes ws (apply_writes (take j ws) d) = apply_writes ws d"
proof
  fix b
  show "apply_writes ws (apply_writes (take j ws) d) b = apply_writes ws d b"
  proof (cases "b \<in> fst ` set ws")
    case True
    then obtain v where "(b, v) \<in> set ws" by auto
    then have "apply_writes ws e b = v" for e using assms by (rule apply_writes_distinct)
    then show ?thesis by simp
  next
    case False
    then have "b \<notin> fst ` set (take j ws)" by (rule contrapos_nn) (rule set_takeD')
    then show ?thesis using False by (simp add: apply_writes_other)
  qed
qed

lemma cleared:
  assumes "length (d start) = BSIZE"
  shows "hdr_n start (d(start := overwrite (d start) 0 (enc_int 0))) = 0"
  using assms by (simp add: hdr_n_def dec_int_same)

lemma recover_empty:
  assumes "hdr_n start d \<le> 0" "b \<noteq> start"
  shows "recovered start d b = d b"
  using assms by (simp add: recovered_def recover_writes_def)

lemma recovered_header:
  assumes "good_header start nl N d" "length (d start) = BSIZE"
  shows "hdr_n start (recovered start d) = 0" "length (recovered start d start) = BSIZE"
proof -
  let ?rw = "redo_writes start d"
  have st: "apply_writes ?rw d start = d start"
    using redo_again(2) [OF assms(1) refl, of "length ?rw"] by simp
  show "hdr_n start (recovered start d) = 0"
    using cleared [of "apply_writes ?rw d" start] assms(2) st
    by (simp add: recovered_def recover_writes_redo)
  show "length (recovered start d start) = BSIZE"
    using assms(2) by (simp add: recovered_def recover_writes_redo)
qed

lemma interrupted_once:
  assumes "good_header start nl N d" "length (d start) = BSIZE" "d' = apply_writes (take j (recover_writes start d)) d"
  shows "good_header start nl N d'" "length (d' start) = BSIZE" "b \<noteq> start \<Longrightarrow> recovered start d' b = recovered start d b"
proof -
  let ?rw = "redo_writes start d"
  have "good_header start nl N d' \<and> length (d' start) = BSIZE \<and> (b \<noteq> start \<longrightarrow> recovered start d' b = recovered start d b)"
  proof (cases "j \<le> length ?rw")
    case True
    then have d': "d' = apply_writes (take j ?rw) d" using assms(3) by (simp add: recover_writes_redo)
    note r = redo_again [OF assms(1) refl, of j, folded d']
    have "recovered start d' = recovered start d"
      unfolding recovered_def recover_writes_redo r(1,2) apply_writes_simps(3)
      by (simp add: d' redo_absorb [OF redo_distinct [OF assms(1)]])
    then show ?thesis using r assms(2) by simp
  next
    case False
    then have d': "d' = recovered start d" using assms(3) by (simp add: recover_writes_redo recovered_def)
    have h0: "hdr_n start d' = 0" using recovered_header(1) [OF assms(1,2)] by (simp add: d')
    have "0 < nl" using assms(1) by (auto simp: good_header_def)
    then have "good_header start nl N d'" using h0 by (simp add: good_header_def)
    moreover have "length (d' start) = BSIZE" using recovered_header(2) [OF assms(1,2)] by (simp add: d')
    moreover have "b \<noteq> start \<longrightarrow> recovered start d' b = recovered start d b"
      using recover_empty [of start d' b] h0 by (simp add: d')
    ultimately show ?thesis by blast
  qed
  then show "good_header start nl N d'" "length (d' start) = BSIZE"
    "b \<noteq> start \<Longrightarrow> recovered start d' b = recovered start d b" by blast+
qed

lemma interrupted_any:
  assumes "good_header start nl N d" "length (d start) = BSIZE"
  shows "good_header start nl N (interrupted start js d) \<and>
    (b \<noteq> start \<longrightarrow> recovered start (interrupted start js d) b = recovered start d b)"
  using assms
proof (induction js arbitrary: d)
  case Nil
  then show ?case by simp
next
  case (Cons j js)
  note i = interrupted_once [OF Cons.prems refl, where j = j]
  show ?case using Cons.IH [OF i(1,2)] i(3) by simp
qed

text \<open>The disk at the commit point: the log is written and the header has just reached the disk.
  What remains of the commit are the writes that recovery would make from there.\<close>

definition commit_point :: "'z logs_scheme \<Rightarrow> (nat \<Rightarrow> byte list)" where
  "commit_point s = apply_writes (log_writes s @ [(log_start s, log_header s)]) (memdisk s)"

definition ready :: "'z logs_scheme \<Rightarrow> nat \<Rightarrow> bool" where
  "ready s p \<longleftrightarrow> quiet s p \<and> log_geom s \<and> pending s \<and> dirties s = log_block s ` {..<nat (log_n s)}"

lemma commit_point_header:
  assumes "ready s p"
  shows "hdr_n (log_start s) (commit_point s) = log_n s"
    "i < nat (log_n s) \<Longrightarrow> hdr_block (log_start s) (commit_point s) i = log_block s i"
    "length (commit_point s (log_start s)) = BSIZE"
    "i < nat (log_n s) \<Longrightarrow> commit_point s (log_start s + i + 1) = view s (log_block s i)"
    "b \<notin> log_region s \<Longrightarrow> commit_point s b = memdisk s b"
proof -
  have r: "quiet s p" "log_geom s" "pending s" using assms by (auto simp: ready_def)
  have n: "0 \<le> log_n s" "log_n s \<le> int LOGSIZE" using r by (auto simp: log_geom_def pending_def)
  have bl: "log_block s i < 4294967296" if "i < nat (log_n s)" for i
    using log_geomD(3) [OF r(2,3) that] r(2) by (simp add: log_geom_def)
  have st: "log_start s < disksize s" "log_start s \<in> log_region s"
    using r(2) by (auto simp: log_geom_def log_region_def)
  have "length (view s (log_start s)) = BSIZE"
    using r(1) st(1) by (simp add: quiet_def length_view)
  note h = fill_head_dec [OF this n bl]
  have c: "commit_point s (log_start s) = log_header s" by (simp add: commit_point_def)
  show "hdr_n (log_start s) (commit_point s) = log_n s" "length (commit_point s (log_start s)) = BSIZE"
    "i < nat (log_n s) \<Longrightarrow> hdr_block (log_start s) (commit_point s) i = log_block s i"
    using h by (simp_all add: hdr_n_def hdr_block_def c)
  show "commit_point s (log_start s + i + 1) = view s (log_block s i)" if "i < nat (log_n s)"
    using view_after_log_writes(2) [OF r(2,3) that] by (simp add: commit_point_def)
  show "commit_point s b = memdisk s b" if "b \<notin> log_region s"
    using view_after_log_writes(3) [OF r(2,3) that] that st(2) by (auto simp: commit_point_def)
qed

lemma commit_writes_split:
  assumes "ready s p"
  shows "commit_writes s = log_writes s @ [(log_start s, log_header s)] @
     recover_writes (log_start s) (commit_point s)"
proof -
  note c = commit_point_header [OF assms]
  have "commit_point s (log_start s) = log_header s" by (simp add: commit_point_def)
  then show ?thesis
    using c(2,4) by (simp add: commit_writes_def recover_writes_def Let_def c(1))
qed

lemma commit_point_recovers:
  assumes "ready s p"
  shows "good_header (log_start s) (nat (log_size s)) (disksize s) (commit_point s)"
    "b \<notin> log_region s \<Longrightarrow> b < disksize s \<Longrightarrow> recovered (log_start s) (commit_point s) b = view s b"
proof -
  let ?e = "commit_point s" and ?a = "log_start s"
  have r: "quiet s p" "log_geom s" "pending s" "dirties s = log_block s ` {..<nat (log_n s)}"
    using assms by (auto simp: ready_def)
  note c = commit_point_header [OF assms]
  show g: "good_header ?a (nat (log_size s)) (disksize s) ?e"
    using r(3) c(1,2) by (auto simp: good_header_def pending_def log_region_def inj_on_def)
  have rw: "redo_writes ?a ?e = map (\<lambda>i. (log_block s i, view s (log_block s i))) [0..<nat (log_n s)]"
    using c(2,4) by (simp add: redo_writes_def c(1))
  assume b: "b \<notin> log_region s" "b < disksize s"
  then have "b \<noteq> ?a" using r(2) by (auto simp: log_region_def log_geom_def)
  then have "recovered ?a ?e b = apply_writes (redo_writes ?a ?e) ?e b"
    by (simp add: recovered_def recover_writes_redo)
  also have "\<dots> = view s b"
  proof (cases "b \<in> dirties s")
    case True
    then have "(b, view s b) \<in> set (redo_writes ?a ?e)" unfolding rw r(4) by auto
    then show ?thesis using redo_distinct [OF g] by (rule apply_writes_distinct)
  next
    case False
    then have "b \<notin> fst ` set (redo_writes ?a ?e)" unfolding rw r(4) by auto
    then show ?thesis using c(5) [OF b(1)] quiet_clean [OF r(1) b(2) False] by (simp add: apply_writes_other)
  qed
  finally show "recovered ?a ?e b = view s b" .
qed

lemma crash_disk:
  assumes "ready s p" "hdr_n (log_start s) (memdisk s) = 0" "length (memdisk s (log_start s)) = BSIZE"
    and "d = apply_writes (take k (commit_writes s)) (memdisk s)"
  shows "good_header (log_start s) (nat (log_size s)) (disksize s) d \<and> length (d (log_start s)) = BSIZE \<and>
    (b \<notin> log_region s \<longrightarrow> b < disksize s \<longrightarrow>
      recovered (log_start s) d b = (if k \<le> nat (log_n s) then memdisk s b else view s b))"
proof (cases "k \<le> nat (log_n s)")
  case True
  have r: "log_geom s" "pending s" using assms(1) by (auto simp: ready_def)
  have l: "length (log_writes s) = nat (log_n s)" by (simp add: log_writes_def)
  have d: "d = apply_writes (take k (log_writes s)) (memdisk s)"
    using True l assms(4) by (simp add: commit_writes_split [OF assms(1)])
  have out: "d b = memdisk s b" if "b \<notin> (\<lambda>i. log_start s + i + 1) ` {..<nat (log_n s)}" for b
    unfolding d
  proof (intro apply_writes_other notI)
    assume "b \<in> fst ` set (take k (log_writes s))"
    then have "b \<in> fst ` set (log_writes s)" by (rule set_takeD')
    then show False using that log_writes_dest [of s] by blast
  qed
  have st: "d (log_start s) = memdisk s (log_start s)" by (rule out) auto
  then have h: "hdr_n (log_start s) d = 0" using assms(2) by (simp add: hdr_n_def)
  have "recovered (log_start s) d b = memdisk s b" if "b \<notin> log_region s"
  proof -
    have "b \<noteq> log_start s" using that r(1) by (auto simp: log_region_def log_geom_def)
    then have "recovered (log_start s) d b = d b" using recover_empty h by simp
    also have "\<dots> = memdisk s b" by (rule out) (use that log_geomD(4) [OF r] in auto)
    finally show ?thesis .
  qed
  then show ?thesis using True h st assms(3) r(1) by (simp add: good_header_def log_geom_def)
next
  case False
  let ?e = "commit_point s"
  note c = commit_point_header [OF assms(1)] and g = commit_point_recovers [OF assms(1)]
  have "length (log_writes s) = nat (log_n s)" by (simp add: log_writes_def)
  then have d: "d = apply_writes (take (k - nat (log_n s) - 1) (recover_writes (log_start s) ?e)) ?e"
    using False assms(4) by (simp add: commit_writes_split [OF assms(1)] take_Cons' commit_point_def)
  note i = interrupted_once [OF g(1) c(3) d]
  have "b \<notin> log_region s \<Longrightarrow> b \<noteq> log_start s"
    using assms(1) by (auto simp: ready_def log_region_def log_geom_def)
  then show ?thesis using i g(2) False by auto
qed

subsection \<open>Transactions\<close>

text \<open>Between the disk writes of two commits: the blocks recorded in the log are the dirty ones,
  and the header on disk is empty.\<close>

definition log_inv :: "'z logs_scheme \<Rightarrow> bool" where
  "log_inv s \<longleftrightarrow> log_geom s \<and> pending s \<and> dirties s = log_block s ` {..<nat (log_n s)} \<and>
     hdr_n (log_start s) (memdisk s) = 0"

lemma log_inv_ready: "log_inv s \<Longrightarrow> quiet s p \<Longrightarrow> ready s p"
  by (simp add: log_inv_def ready_def)

lemma log_n_card: "log_inv s \<Longrightarrow> log_n s = int (card (dirties s))"
  by (simp add: log_inv_def pending_def card_image)

lemma bcache_log_upd' [simp]:
  "loaded (s\<lparr>log_outstanding := o'\<rparr>) p b i = loaded s p b i"
  "loaded (s\<lparr>log_committing := c\<rparr>) p b i = loaded s p b i"
  using bcache_cong [of "s\<lparr>log_outstanding := o'\<rparr>" s] bcache_cong [of "s\<lparr>log_committing := c\<rparr>" s]
  by (simp_all add: loaded_def)

lemma log_slot_cases:
  "log_slot s b < nat (log_n s) \<and> log_block s (log_slot s b) = b \<or>
   log_slot s b = nat (log_n s) \<and> (\<forall>i<nat (log_n s). log_block s i \<noteq> b)"
proof (cases "find_slot (\<lambda>i. log_block s i = b) 0 (nat (log_n s))")
  case None
  then show ?thesis unfolding find_slot_None by (simp add: log_slot_def None)
next
  case (Some i)
  then show ?thesis using find_slot_Some [OF Some] by (simp add: log_slot_def)
qed

text \<open>The new value of the in-memory header after recording block \<open>b\<close>.\<close>

definition record_block :: "nat \<Rightarrow> 'z logs_scheme \<Rightarrow> 'z logs_scheme" where
  "record_block b s = s\<lparr>log_block := (log_block s)(log_slot s b := b),
     log_n := (if int (log_slot s b) = log_n s then log_n s + 1 else log_n s)\<rparr>"

lemma log_write_run:
  assumes "idle s p" "loaded s p b i" "log_n s < int LOGSIZE" "log_n s < log_size s - 1" "1 \<le> log_outstanding s"
  shows "log_write i s = Ok ((), upd_buf i (\<lambda>x. x\<lparr>b_dirty := True\<rparr>) (record_block b s))"
proof -
  have b: "b_blockno (buf s i) = b" using assms(2) by (simp add: loaded_def holds_def)
  obtain C L where cs: "acquire LogLock s = Ok ((), s\<lparr>fl_if := False, cpus := C, locks := L\<rparr>)"
    "\<forall>t. inside s C L t \<longrightarrow> release LogLock t = Ok ((), t\<lparr>fl_if := fl_if s, cpus := cpus s, locks := locks s\<rparr>)"
    by (rule critical_section [OF assms(1)])
  have e: "log_slot (s\<lparr>fl_if := False, cpus := C, locks := L\<rparr>) b = log_slot s b"
    by (simp add: log_slot_def split: option.split)
  show ?thesis
    using assms b e by (simp add: log_write_def run_simps cs record_block_def upd_buf_def)
qed

lemma record_block_pending:
  assumes "pending s" "log_n s < log_size s - 1" "b < disksize s" "b \<notin> log_region s"
    and "D = log_block s ` {..<nat (log_n s)}"
  shows "pending (record_block b s)" "log_block (record_block b s) ` {..<nat (log_n (record_block b s))} = insert b D"
proof -
  let ?t = "record_block b s"
  have n: "0 \<le> log_n s" using assms(1) by (simp add: pending_def)
  consider (old) "log_slot s b < nat (log_n s)" "log_block s (log_slot s b) = b"
    | (new) "log_slot s b = nat (log_n s)" "\<forall>i<nat (log_n s). log_block s i \<noteq> b"
    using log_slot_cases by blast
  then have "pending ?t \<and> log_block ?t ` {..<nat (log_n ?t)} = insert b D"
  proof cases
    case old
    then have t: "?t = s" using n by (simp add: record_block_def fun_upd_idem)
    have "b \<in> D" using old assms(5) by (metis imageI lessThan_iff)
    then show ?thesis using assms(1,5) by (simp add: t insert_absorb)
  next
    case new
    then have t: "?t = s\<lparr>log_block := (log_block s)(nat (log_n s) := b), log_n := log_n s + 1\<rparr>"
      using n by (simp add: record_block_def)
    have m: "{..<nat (log_n s + 1)} = insert (nat (log_n s)) {..<nat (log_n s)}" using n by auto
    have "inj_on ((log_block s)(nat (log_n s) := b)) {..<nat (log_n s + 1)}"
      unfolding m using assms(1) new(2) by (auto simp: pending_def inj_on_def)
    moreover have "((log_block s)(nat (log_n s) := b)) ` {..<nat (log_n s + 1)} = insert b D"
      unfolding m assms(5) by auto
    moreover have "((log_block s)(nat (log_n s) := b)) i < disksize s \<and>
        ((log_block s)(nat (log_n s) := b)) i \<notin> log_region s" if "i < nat (log_n s + 1)" for i
      using that assms(1,3,4) n by (cases "i = nat (log_n s)") (auto simp: pending_def)
    ultimately show ?thesis using n assms(2) by (simp add: t pending_def log_region_def)
  qed
  then show "pending ?t" "log_block ?t ` {..<nat (log_n ?t)} = insert b D" by blast+
qed

lemma record_block_simps [simp]:
  "view (record_block b s) = view s" "binv (record_block b s) = binv s" "idle (record_block b s) p = idle s p"
  "taken (record_block b s) = taken s" "dirties (record_block b s) = dirties s"
  "loaded (record_block b s) p c j = loaded s p c j" "log_geom (record_block b s) = log_geom s"
  "memdisk (record_block b s) = memdisk s" "hist (record_block b s) = hist s" "buf (record_block b s) = buf s"
  "log_start (record_block b s) = log_start s" "log_outstanding (record_block b s) = log_outstanding s"
  "log_committing (record_block b s) = log_committing s" "lframe s (record_block b s)"
  by (simp_all add: record_block_def log_geom_def lframe_def)

lemma log_write_spec:
  assumes "idle s p" "binv s" "loaded s p b i" "log_inv s" "b \<notin> log_region s"
    and "log_n s < log_size s - 1" "1 \<le> log_outstanding s"
  obtains t where "log_write i s = Ok ((), t)" "idle t p" "binv t" "log_inv t" "lframe s t" "view t = view s"
    "memdisk t = memdisk s" "hist t = hist s" "taken t = taken s" "dirties t = insert b (dirties s)"
    "\<forall>c j. loaded t p c j = loaded s p c j" "log_outstanding t = log_outstanding s"
    "log_committing t = log_committing s"
proof -
  have li: "log_geom s" "pending s" "dirties s = log_block s ` {..<nat (log_n s)}"
    "hdr_n (log_start s) (memdisk s) = 0" using assms(4) by (auto simp: log_inv_def)
  have n: "log_n s < int LOGSIZE" using assms(6) li(1) by (simp add: log_geom_def)
  let ?r = "record_block b s"
  define t where "t = touch b i (view s b) True (memdisk s b) (hist s) ?r"
  have d: "length (view s b) = BSIZE" "length (memdisk s b) = BSIZE"
    using loaded_size [OF assms(2,3)] length_view [OF assms(2)] assms(2) by (auto simp: binv_def)
  have l: "binv ?r" "loaded ?r p b i" using assms(2,3) by simp_all
  have "upd_buf i (\<lambda>x. x\<lparr>b_dirty := True\<rparr>) ?r = t"
  proof -
    have e: "?r\<lparr>memdisk := (memdisk ?r)(b := memdisk s b), hist := hist s\<rparr> = ?r"
      by (simp add: fun_upd_idem)
    show ?thesis
      unfolding t_def touch_def e using loaded_data [OF assms(2,3)] by (auto intro!: upd_buf_eqI)
  qed
  then have run: "log_write i s = Ok ((), t)" using log_write_run [OF assms(1,3) n assms(6,7)] by simp
  have td: "dirties t = insert b (dirties s)" using touch_dirties [OF l] by (simp add: t_def)
  note p = record_block_pending [OF li(2) assms(6) loaded_size [OF assms(2,3)] assms(5) li(3)]
  note f = touch_bframe [of ?r b i "view s b" True "memdisk s b" "hist s", folded t_def]
  have "log_inv t"
    using bframe_geom [OF f] bframe_log [OF f] li(1,4) p td by (simp add: log_inv_def) (simp add: t_def)
  moreover have "lframe s t"
    using lframe_trans [of s ?r t] bframe_lframe [OF f] by simp
  moreover have "view t = view s" using touch_view [OF l d] by (simp add: t_def fun_upd_idem)
  moreover have "binv t" using touch_binv [OF l d] by (simp add: t_def)
  ultimately show ?thesis
    using bframe_log [OF f] td assms(1) by (intro that [OF run]) (simp_all add: t_def fun_upd_idem)
qed

lemma begin_op_run:
  assumes "idle s p" "\<not> log_committing s" "log_n s + (log_outstanding s + 1) * int MAXOPBLOCKS \<le> int LOGSIZE"
  shows "begin_op s = Ok ((), s\<lparr>log_outstanding := log_outstanding s + 1\<rparr>)"
proof -
  obtain C L where cs: "acquire LogLock s = Ok ((), s\<lparr>fl_if := False, cpus := C, locks := L\<rparr>)"
    "\<forall>t. inside s C L t \<longrightarrow> release LogLock t = Ok ((), t\<lparr>fl_if := fl_if s, cpus := cpus s, locks := locks s\<rparr>)"
    by (rule critical_section [OF assms(1)])
  show ?thesis using assms by (simp add: begin_op_def run_simps cs)
qed

lemma begin_op_waits:
  assumes "idle s p" "ncli (cpus s (me s)) = 0"
    and "log_committing s \<or> int LOGSIZE < log_n s + (log_outstanding s + 1) * int MAXOPBLOCKS"
  shows "begin_op s = Blocked (asleep p ChanLog LogLock (enter LogLock s))"
proof -
  have s: "cpu_ok s" "free_lock LogLock s" "free_lock PtableLock s" "cpu_proc (cpus s (me s)) = Some p"
    using assms(1) by (simp_all add: idle_def runs_def)
  have "sleep ChanLog LogLock (enter LogLock s) = Blocked (asleep p ChanLog LogLock (enter LogLock s))"
    using s assms(2) unfolding sleep_def
    by (simp add: run_simps sleep_enter_run [where p = p] held_lock_def ncli_enter)
  moreover have "log_committing (enter LogLock s) = log_committing s" "log_n (enter LogLock s) = log_n s"
    "log_outstanding (enter LogLock s) = log_outstanding s" by (simp_all add: enter_def cli_on_def)
  ultimately show ?thesis
    using assms(3) s by (auto simp: begin_op_def run_simps acquire_run)
qed

text \<open>The last part of \<open>end_op\<close>, after a commit.\<close>

lemma end_op_tail:
  assumes "idle s p"
  shows "thenk (acquire LogLock) (thenk (modk (\<lambda>s. s\<lparr>log_committing := False\<rparr>))
      (thenk (wakeup ChanLog) (release LogLock))) s =
    Ok ((), s\<lparr>log_committing := False, ptable := wake_all ChanLog (ptable s)\<rparr>)"
proof -
  obtain C L where cs: "acquire LogLock s = Ok ((), s\<lparr>fl_if := False, cpus := C, locks := L\<rparr>)"
    "\<forall>t. inside s C L t \<longrightarrow> release LogLock t = Ok ((), t\<lparr>fl_if := fl_if s, cpus := cpus s, locks := locks s\<rparr>)"
    "\<forall>t. inside s C L t \<longrightarrow> cpu_ok t \<and> settled t \<and> cpu_proc (cpus t (me t)) = Some p \<and>
       held_lock LogLock t \<and> (\<forall>l. l \<noteq> LogLock \<longrightarrow> free_lock l t)"
    by (rule critical_section [OF assms])
  show ?thesis by (simp add: run_simps cs(1) wakeup_run cs(3)) (simp add: cs(2))
qed

lemma end_op_last:
  assumes "idle s p" "\<not> log_committing s" "log_outstanding s = 1"
    and "commit (s\<lparr>log_outstanding := 0, log_committing := True\<rparr>) = Ok ((), t)" "idle t p"
  shows "end_op s = Ok ((), t\<lparr>log_committing := False, ptable := wake_all ChanLog (ptable t)\<rparr>)"
proof -
  obtain C L where cs: "acquire LogLock s = Ok ((), s\<lparr>fl_if := False, cpus := C, locks := L\<rparr>)"
    "\<forall>t. inside s C L t \<longrightarrow> release LogLock t = Ok ((), t\<lparr>fl_if := fl_if s, cpus := cpus s, locks := locks s\<rparr>)"
    by (rule critical_section [OF assms(1)])
  show ?thesis
    using assms(2-4) end_op_tail [OF assms(5)]
    by (simp add: end_op_def thenk_run bindk_run getk_run modk_run whenk_run cs)
qed

lemma end_op_not_last:
  assumes "idle s p" "\<not> log_committing s" "log_outstanding s \<noteq> 1"
  shows "end_op s = Ok ((), s\<lparr>log_outstanding := log_outstanding s - 1, ptable := wake_all ChanLog (ptable s)\<rparr>)"
proof -
  obtain C L where cs: "acquire LogLock s = Ok ((), s\<lparr>fl_if := False, cpus := C, locks := L\<rparr>)"
    "\<forall>t. inside s C L t \<longrightarrow> release LogLock t = Ok ((), t\<lparr>fl_if := fl_if s, cpus := cpus s, locks := locks s\<rparr>)"
    "\<forall>t. inside s C L t \<longrightarrow> cpu_ok t \<and> settled t \<and> cpu_proc (cpus t (me t)) = Some p \<and>
       held_lock LogLock t \<and> (\<forall>l. l \<noteq> LogLock \<longrightarrow> free_lock l t)"
    by (rule critical_section [OF assms(1)])
  show ?thesis
    using assms(2,3) by (simp add: end_op_def run_simps cs(1) wakeup_run cs(3)) (simp add: cs(2) whenk_run)
qed

lemma commit_recovers:
  "ready s p \<Longrightarrow> apply_writes (commit_writes s) (memdisk s) = recovered (log_start s) (commit_point s)"
  by (simp add: commit_writes_split recovered_def commit_point_def)

lemma quiet_view:
  assumes "quiet s p" "dirties s = {}"
  shows "view s = memdisk s"
proof
  fix b
  show "view s b = memdisk s b"
  proof (cases "b < disksize s")
    case True
    then show ?thesis using quiet_clean [OF assms(1)] assms(2) by simp
  next
    case False
    have "\<not> b_valid (buf s i)" if "holds s b i" for i
      using that False assms(1) binv_buf_ok [of s i] by (auto simp: quiet_def buf_ok_def holds_def)
    then show ?thesis by (rule view_uncached)
  qed
qed

lemma commit_done:
  assumes "ready s p" "hdr_n (log_start s) (memdisk s) = 0"
  obtains t where "commit s = Ok ((), t)" "quiet t p" "lframe s t" "log_inv t" "dirties t = {}"
    "\<forall>b. b \<notin> log_region s \<longrightarrow> b < disksize s \<longrightarrow> memdisk t b = view s b \<and> view t b = view s b"
    "log_committing t = log_committing s" "log_outstanding t = log_outstanding s" "log_n t = 0"
proof -
  have r: "quiet s p" "log_geom s" "pending s" "dirties s = log_block s ` {..<nat (log_n s)}"
    using assms(1) by (auto simp: ready_def)
  show ?thesis
  proof (cases "0 < log_n s")
    case True
    obtain t where t: "commit s = Ok ((), t)" "quiet t p" "lframe s t" "log_n t = 0"
      "log_committing t = log_committing s" "log_outstanding t = log_outstanding s"
      "view t = apply_writes (commit_writes s) (view s)"
      "memdisk t = apply_writes (commit_writes s) (memdisk s)"
      "hist t = hist s @ commit_writes s" "dirties t = {}"
      by (rule commit_spec [OF r True])
    note m = t(8) [unfolded commit_recovers [OF assms(1)]] and c = commit_point_recovers [OF assms(1)]
      and h = recovered_header [OF commit_point_recovers(1) [OF assms(1)] commit_point_header(3) [OF assms(1)]]
    have "log_inv t"
      using lframe_geom [OF t(3)] lframe_simps(4,5) [OF t(3)] r(2) t(4,10) m h(1)
      by (simp add: log_inv_def pending_def log_geom_def)
    then show ?thesis
      using t c(2) m quiet_view [OF t(2,10)] by (intro that [of t]) simp_all
  next
    case False
    then have n: "log_n s = 0" using r(3) by (simp add: pending_def)
    then have d: "dirties s = {}" using r(4) by simp
    show ?thesis
      using n r d assms(2) quiet_view [OF r(1) d]
      by (intro that [of s]) (simp_all add: commit_def run_simps log_inv_def)
  qed
qed

subsection \<open>Reading and updating a block inside a transaction\<close>

lemma log_inv_same:
  assumes "log_inv s" "bframe s t" "dirties t = dirties s" "memdisk t (log_start s) = memdisk s (log_start s)"
  shows "log_inv t"
  using assms bframe_geom [OF assms(2)] bframe_log [OF assms(2)] by (simp add: log_inv_def hdr_n_def)

lemma same_blocks_log: "same_blocks s t \<Longrightarrow> log_inv s \<Longrightarrow> log_inv t"
  using same_blocksD [of s t] log_inv_same [of s t] by simp

lemma set_data_spec:
  assumes "idle s p" "binv s" "loaded s p b i" "length (f (view s b)) = BSIZE"
  obtains t where "set_data i f s = Ok ((), t)" "idle t p" "binv t" "bframe s t"
    "view t = (view s)(b := f (view s b))" "memdisk t = memdisk s" "hist t = hist s" "taken t = taken s"
    "dirties t = dirties s" "\<forall>c j. loaded t p c j = loaded s p c j"
proof -
  let ?t = "touch b i (f (view s b)) (b_dirty (buf s i)) (memdisk s b) (hist s) s"
  have d: "length (memdisk s b) = BSIZE"
    using loaded_size [OF assms(2,3)] assms(2) by (auto simp: binv_def)
  have "dirties ?t = dirties s"
    using touch_dirties [OF assms(2,3)] loaded_dirty [OF assms(2,3)] by auto
  then show ?thesis
    by (intro that [OF set_data_touch [OF assms(2,3)]])
       (simp_all add: assms(1) touch_binv [OF assms(2-4) d] touch_view [OF assms(2-4) d] fun_upd_idem)
qed

definition room :: "'z logs_scheme \<Rightarrow> nat \<Rightarrow> bool" where
  "room s k \<longleftrightarrow> int (card (dirties s) + k) < log_size s \<and> 1 \<le> log_outstanding s"

text \<open>Two quiet states inside a transaction that differ in the content of one home block.\<close>

definition updated :: "'z logs_scheme \<Rightarrow> 'z logs_scheme \<Rightarrow> nat \<Rightarrow> byte list \<Rightarrow> bool" where
  "updated s t b v \<longleftrightarrow> lframe s t \<and> view t = (view s)(b := v) \<and> memdisk t = memdisk s \<and> hist t = hist s \<and>
     dirties t = insert b (dirties s) \<and> log_outstanding t = log_outstanding s \<and>
     log_committing t = log_committing s"

text \<open>\<open>work s p T\<close>: inside a transaction, process \<open>p\<close> runs and the blocks that are held are \<open>T\<close>; at most
  one block is, besides the one an operation takes for itself.\<close>

definition work :: "'z logs_scheme \<Rightarrow> nat \<Rightarrow> nat set \<Rightarrow> bool" where
  "work s p T \<longleftrightarrow> idle s p \<and> binv s \<and> log_inv s \<and> taken s = T"

lemma work_quiet: "work s p {} \<longleftrightarrow> quiet s p \<and> log_inv s"
  by (auto simp: work_def quiet_def)

definition keeps :: "'z bcache_scheme \<Rightarrow> 'z bcache_scheme \<Rightarrow> nat \<Rightarrow> bool" where
  "keeps s t p \<longleftrightarrow> (\<forall>c j. loaded s p c j \<longrightarrow> loaded t p c j)"

lemma keeps_trans: "keeps s t p \<Longrightarrow> keeps t u p \<Longrightarrow> keeps s u p"
  by (simp add: keeps_def)

lemma keeps_other:
  assumes "keeps s u p" "\<forall>c j. c \<noteq> b \<longrightarrow> loaded u p c j \<longrightarrow> loaded t p c j" "b \<notin> taken s"
  shows "keeps s t p"
proof -
  have "loaded s p c j \<Longrightarrow> c \<noteq> b" for c j using assms(3) by (auto simp: loaded_def taken_def)
  then show ?thesis using assms(1,2) unfolding keeps_def by blast
qed

text \<open>There is a buffer for one more block.\<close>

definition spare :: "'z logs_scheme \<Rightarrow> nat set \<Rightarrow> bool" where
  "spare s T \<longleftrightarrow> T = {} \<or> (\<exists>c. T = {c}) \<and> int (card (dirties s)) + 1 < log_size s"

lemma spare_card:
  assumes "log_inv s" "spare s T"
  shows "card (insert b (T \<union> dirties s)) \<le> NBUF"
proof -
  have "card (dirties s) < NBUF" "T \<noteq> {} \<Longrightarrow> card (dirties s) + 1 < NBUF"
    using assms log_n_card [OF assms(1)] by (auto simp: log_inv_def log_geom_def pending_def spare_def)
  moreover have "card (insert b (T \<union> dirties s)) \<le> Suc (card T + card (dirties s))"
    using card_Un_le [of T "dirties s"] card_insert_le_m1 [of "Suc (card T + card (dirties s))" "T \<union> dirties s" b] by simp
  ultimately show ?thesis using assms(2) by (auto simp: spare_def)
qed

lemma untaken_settled:
  assumes "binv s" "b < disksize s" "b \<notin> taken s"
  shows "b \<in> dirties s \<or> view s b = memdisk s b"
proof (cases "b \<in> dirties s")
  case False
  have "view s b = memdisk s b"
  proof (rule view_clean [OF assms(1,2)])
    fix i assume h: "holds s b i"
    then have "b_refcnt (buf s i) = 0" using assms(3) by (auto simp: taken_def)
    then have "\<not> sl_locked (b_lock (buf s i))"
      using h assms(1) binv_buf_ok [of s i] by (auto simp: holds_def buf_ok_def)
    then show "\<not> b_dirty (buf s i) \<and> \<not> sl_locked (b_lock (buf s i))"
      using h False by (auto simp: dirties_def)
  qed
  then show ?thesis ..
qed simp

lemma bread_work:
  assumes "work s p T" "b < disksize s" "b \<notin> T" "spare s T"
  obtains i t where "bread 1 b s = Ok (i, t)" "work t p (insert b T)" "same_blocks s t" "loaded t p b i" "keeps s t p"
proof -
  have s: "idle s p" "binv s" "log_inv s" "taken s = T" using assms(1) by (auto simp: work_def)
  obtain i t where t: "bread 1 b s = Ok (i, t)" "idle t p" "binv t" "same_blocks s t"
    "loaded t p b i" "taken t = insert b (taken s)" "\<forall>c j. loaded s p c j \<longrightarrow> loaded t p c j"
    by (rule bread_spec [OF s(1,2) assms(2)])
       (use s(4) assms(3) spare_card [OF s(3) assms(4), of b] in simp_all)
  then show ?thesis using that [of i t] s(4) same_blocks_log [OF t(4) s(3)] by (simp add: work_def keeps_def)
qed

lemma brelse_work:
  assumes "work s p T" "loaded s p b i" "b \<in> dirties s \<or> view s b = memdisk s b"
  obtains t where "brelse i s = Ok ((), t)" "work t p (T - {b})" "same_blocks s t"
    "\<forall>c j. c \<noteq> b \<longrightarrow> loaded s p c j \<longrightarrow> loaded t p c j"
proof -
  have s: "idle s p" "binv s" "log_inv s" "taken s = T" using assms(1) by (auto simp: work_def)
  have "b_dirty (buf s i) \<or> view s b = memdisk s b" using assms(3) loaded_dirty [OF s(2) assms(2)] by blast
  then obtain t where "brelse i s = Ok ((), t)" "idle t p" "binv t" "same_blocks s t"
    "taken t = taken s - {b}" "\<forall>c j. c \<noteq> b \<longrightarrow> loaded s p c j \<longrightarrow> loaded t p c j"
    by (rule brelse_spec [OF s(1,2) assms(2)])
  then show ?thesis using that [of t] s(3,4) same_blocks_log [of s t] by (simp add: work_def)
qed

lemma set_log_work:
  assumes "work s p T" "loaded s p b i" "b \<notin> log_region s" "room s 1" "length (f (view s b)) = BSIZE"
  obtains t where "thenk (set_data i f) (log_write i) s = Ok ((), t)" "work t p T" "updated s t b (f (view s b))" "keeps s t p"
proof -
  have s: "idle s p" "binv s" "log_inv s" "taken s = T" using assms(1) by (auto simp: work_def)
  obtain u where u: "set_data i f s = Ok ((), u)" "idle u p" "binv u" "bframe s u"
    "view u = (view s)(b := f (view s b))" "memdisk u = memdisk s" "hist u = hist s" "taken u = taken s"
    "dirties u = dirties s" "\<forall>c j. loaded u p c j = loaded s p c j"
    by (rule set_data_spec [OF s(1,2) assms(2), of f, OF assms(5)])
  note fu = bframe_log [OF u(4)] and gu = bframe_geom [OF u(4)]
  have iu: "log_inv u" by (rule log_inv_same [OF s(3) u(4,9)]) (simp add: u(6))
  have lu: "loaded u p b i" using u(10) assms(2) by blast
  have n: "log_n u < log_size u - 1" "1 \<le> log_outstanding u"
    using assms(4) log_n_card [OF iu] u(9) fu by (simp_all add: room_def)
  have bu: "b \<notin> log_region u" using gu assms(3) by blast
  obtain w where w: "log_write i u = Ok ((), w)" "idle w p" "binv w" "log_inv w" "lframe u w" "view w = view u"
    "memdisk w = memdisk u" "hist w = hist u" "taken w = taken u" "dirties w = insert b (dirties u)"
    "\<forall>c j. loaded w p c j = loaded u p c j" "log_outstanding w = log_outstanding u"
    "log_committing w = log_committing u"
    by (rule log_write_spec [OF u(2,3) lu iu bu n])
  have "lframe s w" using lframe_trans [OF bframe_lframe [OF u(4)] w(5)] .
  then have "updated s w b (f (view s b))" using u w fu by (simp add: updated_def)
  then show ?thesis using that [of w] u w s(4) by (simp add: work_def keeps_def run_simps)
qed

lemma finish_update:
  assumes "work s p T" "loaded s p b i" "b \<notin> log_region s" "room s 1" "length (f (view s b)) = BSIZE"
  obtains t where "thenk (set_data i f) (thenk (log_write i) (brelse i)) s = Ok ((), t)"
    "work t p (T - {b})" "updated s t b (f (view s b))" "\<forall>c j. c \<noteq> b \<longrightarrow> loaded s p c j \<longrightarrow> loaded t p c j"
proof -
  obtain w where w: "thenk (set_data i f) (log_write i) s = Ok ((), w)" "work w p T" "updated s w b (f (view s b))" "keeps s w p"
    by (rule set_log_work [OF assms(1-4), of f, OF assms(5)])
  have "loaded w p b i" "b \<in> dirties w" using w(3,4) assms(2) by (auto simp: updated_def keeps_def)
  then obtain t where t: "brelse i w = Ok ((), t)" "work t p (T - {b})" "same_blocks w t"
    "\<forall>c j. c \<noteq> b \<longrightarrow> loaded w p c j \<longrightarrow> loaded t p c j" using brelse_work [OF w(2)] by metis
  note st = same_blocksD [OF t(3)]
  have "updated s t b (f (view s b))"
    using w(3) st bframe_log [OF st(1)] lframe_trans [OF _ bframe_lframe [OF st(1)]] by (simp add: updated_def)
  moreover have "thenk (thenk (set_data i f) (log_write i)) (brelse i) s = Ok ((), t)"
    unfolding thenk_Ok [where m = "thenk _ _", OF w(1)] by (rule t(1))
  ultimately show ?thesis using that t w(4) unfolding thenk_assoc keeps_def by blast
qed

lemma same_updated: "same_blocks s t \<Longrightarrow> updated t u b v \<Longrightarrow> updated s u b v"
  using same_blocksD [of s t] bframe_log [of s t] lframe_trans [OF bframe_lframe]
  by (auto simp: updated_def)

lemma same_room: "same_blocks s t \<Longrightarrow> room t k = room s k"
  using same_blocksD [of s t] bframe_log [of s t] by (simp add: room_def)

text \<open>Updating and reading a block, with another block possibly held meanwhile.\<close>

lemma update_work:
  assumes "work s p T" "b < disksize s" "b \<notin> T" "spare s T" "b \<notin> log_region s" "room s 1" "length (f (view s b)) = BSIZE"
  obtains t where "bindk (bread 1 b) (\<lambda>i. thenk (set_data i f) (thenk (log_write i) (brelse i))) s = Ok ((), t)"
    "work t p T" "updated s t b (f (view s b))" "keeps s t p"
proof -
  obtain i u where u: "bread 1 b s = Ok (i, u)" "work u p (insert b T)" "same_blocks s u" "loaded u p b i" "keeps s u p"
    by (rule bread_work [OF assms(1-4)])
  note su = same_blocksD [OF u(3)]
  have c: "b \<notin> log_region u" "room u 1" "length (f (view u b)) = BSIZE"
    using assms(5-7) su bframe_geom [OF su(1)] same_room [OF u(3)] by auto
  obtain t where t: "thenk (set_data i f) (thenk (log_write i) (brelse i)) u = Ok ((), t)"
    "work t p (insert b T - {b})" "updated u t b (f (view u b))" "\<forall>c j. c \<noteq> b \<longrightarrow> loaded u p c j \<longrightarrow> loaded t p c j"
    by (rule finish_update [OF u(2,4) c(1,2), of f, OF c(3)])
  have "b \<notin> taken s" using assms(1,3) by (simp add: work_def)
  then have "keeps s t p" by (rule keeps_other [OF u(5) t(4)])
  moreover have "insert b T - {b} = T" using assms(3) by simp
  ultimately show ?thesis
    using t u(1) su(4) same_updated [OF u(3)] by (intro that [of t]) (simp_all add: bindk_run)
qed

lemma read_work:
  assumes "work s p T" "b < disksize s" "b \<notin> T" "spare s T"
  obtains t where "bindk (bread 1 b) (\<lambda>i. bindk (get_data i) (\<lambda>d. thenk (brelse i) (ret (f d)))) s = Ok (f (view s b), t)"
    "work t p T" "same_blocks s t" "keeps s t p"
proof -
  obtain i u where u: "bread 1 b s = Ok (i, u)" "work u p (insert b T)" "same_blocks s u" "loaded u p b i" "keeps s u p"
    by (rule bread_work [OF assms])
  note su = same_blocksD [OF u(3)]
  have "binv s" "taken s = T" "binv u" using assms(1) u(2) by (auto simp: work_def)
  then have "b \<in> dirties u \<or> view u b = memdisk u b" using untaken_settled [of s b] assms(2,3) su by simp
  then obtain t where t: "brelse i u = Ok ((), t)" "work t p (insert b T - {b})" "same_blocks u t"
    "\<forall>c j. c \<noteq> b \<longrightarrow> loaded u p c j \<longrightarrow> loaded t p c j" by (rule brelse_work [OF u(2,4)])
  have st: "same_blocks s t"
    using u(3) t(3) bframe_trans unfolding same_blocks_def by (metis (full_types))
  have "keeps s t p" using keeps_other [OF u(5) t(4)] \<open>taken s = T\<close> assms(3) by simp
  moreover have "insert b T - {b} = T" using assms(3) by simp
  ultimately show ?thesis
    using t u(1) loaded_data [OF \<open>binv u\<close> u(4)] su(4) st
    by (intro that [of t]) (simp_all add: run_simps get_data_def)
qed

lemma logged_update:
  assumes "quiet s p" "log_inv s" "b < disksize s" "b \<notin> log_region s" "room s 1"
    and "length (f (view s b)) = BSIZE"
  obtains t where "bindk (bread 1 b) (\<lambda>i. thenk (set_data i f) (thenk (log_write i) (brelse i))) s = Ok ((), t)"
    "quiet t p" "log_inv t" "updated s t b (f (view s b))"
proof -
  have w: "work s p {}" "spare s {}" "b \<notin> {}" using assms by (simp_all add: work_quiet spare_def)
  obtain t where "bindk (bread 1 b) (\<lambda>i. thenk (set_data i f) (thenk (log_write i) (brelse i))) s = Ok ((), t)"
    "work t p {}" "updated s t b (f (view s b))"
    by (rule update_work [OF w(1) assms(3) w(3,2) assms(4,5), of f, OF assms(6)])
  then show ?thesis using that by (simp add: work_quiet)
qed

text \<open>\<open>evolves s t V D\<close>: the same transaction goes on, the contents are \<open>V\<close> and the blocks \<open>D\<close> have been
  logged.\<close>

definition evolves :: "'z logs_scheme \<Rightarrow> 'z logs_scheme \<Rightarrow> (nat \<Rightarrow> byte list) \<Rightarrow> nat set \<Rightarrow> bool" where
  "evolves s t V D \<longleftrightarrow> lframe s t \<and> view t = V \<and> memdisk t = memdisk s \<and> hist t = hist s \<and>
     dirties t = dirties s \<union> D \<and> log_outstanding t = log_outstanding s \<and> log_committing t = log_committing s"

lemma evolves_refl: "evolves s s (view s) {}"
  by (simp add: evolves_def)

lemma evolves_same: "same_blocks s t \<Longrightarrow> evolves s t (view s) {}"
  using same_blocksD [of s t] bframe_log [of s t] bframe_lframe [of s t] by (simp add: evolves_def)

lemma evolves_updated: "updated s t b v \<Longrightarrow> evolves s t ((view s)(b := v)) {b}"
  by (simp add: evolves_def updated_def)

lemma evolves_trans: "evolves s t V D \<Longrightarrow> evolves t u W E \<Longrightarrow> evolves s u W (D \<union> E)"
  using lframe_trans [of s t u] by (auto simp: evolves_def)

lemma evolvesD:
  assumes "evolves s t V D"
  shows "view t = V" "disksize t = disksize s" "log_region t = log_region s" "log_size t = log_size s" "lframe s t"
    "dirties t = dirties s \<union> D"
  using assms lframe_simps [of s t] lframe_geom [of s t] by (auto simp: evolves_def)

lemma evolves_room:
  assumes "evolves s t V D" "room s (card D + k)"
  shows "room t k"
proof -
  have "card (dirties s \<union> D) \<le> card (dirties s) + card D" by (rule card_Un_le)
  then show ?thesis using assms evolvesD [OF assms(1)] by (simp add: room_def evolves_def)
qed

lemma room_spare: "room s 1 \<Longrightarrow> T = {} \<or> (\<exists>c. T = {c}) \<Longrightarrow> spare s T"
  by (auto simp: room_def spare_def)

lemma room_mono: "room s k \<Longrightarrow> j \<le> k \<Longrightarrow> room s j"
  by (simp add: room_def)

subsection \<open>An example state\<close>

definition demo_log_on :: "(nat \<Rightarrow> byte list) \<Rightarrow> nat \<Rightarrow> nat \<Rightarrow> 'z \<Rightarrow> 'z logs_scheme" where
  "demo_log_on d n l z = demo_bcache d n \<lparr>log_start = 2, log_size = int l, log_outstanding = 1,
     log_committing = False, log_dev = 1, log_n = 0, log_block = (\<lambda>_. 0), \<dots> = z\<rparr>"

lemma demo_log_on_simps [simp]:
  "memdisk (demo_log_on d n l z) = d" "disksize (demo_log_on d n l z) = n" "log_region (demo_log_on d n l z) = {2..<2 + l}"
  "log_size (demo_log_on d n l z) = int l" "log_outstanding (demo_log_on d n l z) = 1" "log_start (demo_log_on d n l z) = 2"
  "\<not> log_committing (demo_log_on d n l z)" "hist (demo_log_on d n l z) = []" "log_n (demo_log_on d n l z) = 0"
  "log_dev (demo_log_on d n l z) = 1"
  by (simp_all add: demo_log_on_def log_region_def demo_defs)

lemma demo_log_on:
  assumes "\<And>b. b < n \<Longrightarrow> length (d b) = BSIZE" "d 2 = replicate BSIZE 0" "0 < l" "l \<le> LOGSIZE" "2 + l \<le> n" "n \<le> 1000"
  shows "quiet (demo_log_on d n l z) 0" "log_inv (demo_log_on d n l z)" "dirties (demo_log_on d n l z) = {}"
    "view (demo_log_on d n l z) = d"
proof -
  have b: "binv (demo_log_on d n l z)" "view (demo_log_on d n l z) = d" "taken (demo_log_on d n l z) = {}"
      "dirties (demo_log_on d n l z) = {}"
    unfolding demo_log_on_def by (rule demo_binv, rule assms(1), assumption)+
  then show "dirties (demo_log_on d n l z) = {}" "view (demo_log_on d n l z) = d" by simp_all
  have "idle (demo_log_on d n l z) 0" unfolding demo_log_on_def by (rule demo_idle)
  with b show "quiet (demo_log_on d n l z) 0" by (simp add: quiet_def)
  have "hdr_n 2 d = 0" using assms(2) by (simp add: hdr_n_def dec_int_def dec32_def)
  with b assms show "log_inv (demo_log_on d n l z)" by (simp add: log_inv_def log_geom_def pending_def)
qed

abbreviation demo_log :: "'z \<Rightarrow> 'z logs_scheme" where
  "demo_log \<equiv> demo_log_on zeros 20 5"

lemmas demo_log = demo_log_on [where d = zeros and n = 20 and l = 5, simplified]

text \<open>A transaction that fills block 10 with ones.\<close>

abbreviation ones :: "byte list" where "ones \<equiv> replicate BSIZE 1"

definition demo_op :: "('z logs_scheme, unit) kop" where
  "demo_op = bindk (bread 1 10) (\<lambda>i. thenk (set_data i (\<lambda>_. ones)) (thenk (log_write i) (brelse i)))"

lemma demo_op:
  obtains s where "demo_op (demo_log z) = Ok ((), s)" "quiet s 0" "log_inv s" "updated (demo_log z) s 10 ones"
    "log_n s = 1"
proof -
  obtain s where s: "demo_op (demo_log z) = Ok ((), s)" "quiet s 0" "log_inv s" "updated (demo_log z) s 10 ones"
    unfolding demo_op_def
    by (rule logged_update [OF demo_log(1,2), where b = 10 and f = "\<lambda>_. ones"]) (simp_all add: room_def demo_log)
  moreover have "log_n s = 1" using log_n_card [OF s(3)] s(4) by (simp add: updated_def demo_log)
  ultimately show ?thesis using that by blast
qed

lemma updatedD:
  assumes "updated s t b v"
  shows "lframe s t" "view t = (view s)(b := v)" "memdisk t = memdisk s" "hist t = hist s"
    "dirties t = insert b (dirties s)" "log_outstanding t = log_outstanding s"
    "log_committing t = log_committing s" "disksize t = disksize s" "log_start t = log_start s"
    "log_size t = log_size s" "log_region t = log_region s"
  using assms lframe_simps [of s t] lframe_geom [of s t] by (auto simp: updated_def)

lemma crash_recover:
  assumes "quiet s p" "log_inv s"
    and u: "quiet u q" "log_geom u" "dirties u = {}" "log_start u = log_start s" "log_size u = log_size s"
      "disksize u = disksize s"
    and mu: "memdisk u = interrupted (log_start s) js (apply_writes (take k (commit_writes s)) (memdisk s))"
  shows "\<exists>v. recover_from_log u = Ok ((), v) \<and> quiet v q \<and> log_inv v \<and> dirties v = {} \<and>
        (\<forall>b. b \<notin> log_region s \<and> b < disksize s \<longrightarrow>
          view v b = (if k \<le> nat (log_n s) then memdisk s b else view s b))"
proof -
  have g: "log_geom s" "hdr_n (log_start s) (memdisk s) = 0" using assms(2) by (auto simp: log_inv_def)
  have l0: "length (memdisk s (log_start s)) = BSIZE"
    using assms(1) g(1) by (auto simp: quiet_def binv_def log_geom_def)
  define d where "d = apply_writes (take k (commit_writes s)) (memdisk s)"
  note c = crash_disk [OF log_inv_ready [OF assms(2,1)] g(2) l0 d_def]
  have i: "good_header (log_start s) (nat (log_size s)) (disksize s) (memdisk u)"
    "b \<noteq> log_start s \<Longrightarrow> recovered (log_start s) (memdisk u) b = recovered (log_start s) d b" for b
    using c interrupted_any unfolding mu d_def [symmetric] by blast+
  have vu: "view u = memdisk u" by (rule quiet_view [OF u(1,3)])
  have lu: "length (memdisk u (log_start s)) = BSIZE"
    using u by (auto simp: quiet_def binv_def log_geom_def)
  have "good_header (log_start u) (nat (log_size u)) (disksize u) (view u)" using i(1) u(4-6) vu by simp
  then obtain v where v: "recover_from_log u = Ok ((), v)" "quiet v q" "lframe u v" "log_n v = 0" "dirties v = {}"
    "view v = apply_writes (recover_writes (log_start u) (view u)) (view u)"
    "memdisk v = apply_writes (recover_writes (log_start u) (view u)) (memdisk u)"
    by (rule recover_spec [OF u(1-3)])
  have m: "view v = recovered (log_start s) (memdisk u)" "memdisk v = recovered (log_start s) (memdisk u)"
    using v(6,7) u(4) vu by (simp_all add: recovered_def)
  have "log_inv v"
    using lframe_geom [OF v(3)] lframe_simps(4,5) [OF v(3)] u(2,4) v(4,5) m(2) recovered_header(1) [OF i(1) lu]
    by (simp add: log_inv_def pending_def log_geom_def)
  moreover have "view v b = (if k \<le> nat (log_n s) then memdisk s b else view s b)"
    if "b \<notin> log_region s" "b < disksize s" for b
  proof -
    have "b \<noteq> log_start s" using that(1) g(1) by (auto simp: log_region_def log_geom_def)
    then show ?thesis using m(1) i(2) c that by simp
  qed
  ultimately show ?thesis using v(1,2,5) by blast
qed

subsection \<open>Properties\<close>



text \<open>C9. The last \<open>end_op\<close> of a transaction makes it durable: it returns with the log empty, no
  dirty buffer left, and every block outside the log on disk as the transaction left it.\<close>

theorem end_op_commits:
  assumes "quiet s p" "log_inv s" "\<not> log_committing s" "log_outstanding s = 1"
  shows "\<exists>t. end_op s = Ok ((), t) \<and> quiet t p \<and> log_inv t \<and> log_n t = 0 \<and> log_outstanding t = 0 \<and>
     \<not> log_committing t \<and> dirties t = {} \<and>
     (\<forall>b. b \<notin> log_region s \<and> b < disksize s \<longrightarrow> memdisk t b = view s b \<and> view t b = view s b)"
proof -
  let ?s = "s\<lparr>log_outstanding := 0, log_committing := True\<rparr>"
  have g: "log_region ?s = log_region s" "log_inv ?s"
    using assms(2) by (simp_all add: log_region_def log_inv_def log_geom_def pending_def)
  have "ready ?s p" "hdr_n (log_start ?s) (memdisk ?s) = 0"
    using log_inv_ready [OF g(2), of p] g(2) assms(1) by (simp_all add: log_inv_def)
  then obtain t where t: "commit ?s = Ok ((), t)" "quiet t p" "lframe ?s t" "log_inv t" "dirties t = {}"
    "\<forall>b. b \<notin> log_region ?s \<longrightarrow> b < disksize ?s \<longrightarrow> memdisk t b = view ?s b \<and> view t b = view ?s b"
    "log_committing t = log_committing ?s" "log_outstanding t = log_outstanding ?s" "log_n t = 0"
    by (rule commit_done)
  let ?t = "t\<lparr>log_committing := False, ptable := wake_all ChanLog (ptable t)\<rparr>"
  have "end_op s = Ok ((), ?t)"
    by (rule end_op_last [of s p t, OF _ assms(3,4) t(1)]) (use assms(1) t(2) in \<open>simp_all add: quiet_def\<close>)
  moreover have "view ?t = view t" "dirties ?t = dirties t" "taken ?t = taken t" "binv ?t = binv t"
    by (simp_all add: view_def dirties_def taken_def holds_def binv_def fun_eq_iff split: option.split)
  moreover have "idle ?t p" using t(2) by (simp add: quiet_def)
  moreover have "log_inv ?t"
    using t(4) calculation(3) by (simp add: log_inv_def log_geom_def pending_def log_region_def)
  ultimately show ?thesis
    using t(2,5,6,8,9) g(1) by (intro exI [of _ ?t]) (simp add: quiet_def)
qed

theorem end_op_commits_witness:
  "\<exists>s t. demo_op (demo_log ()) = Ok ((), s) \<and> end_op s = Ok ((), t) \<and> memdisk t 10 = ones \<and> log_n t = 0"
proof -
  obtain s where s: "demo_op (demo_log ()) = Ok ((), s)" "quiet s 0" "log_inv s"
    "updated (demo_log ()) s 10 ones" by (rule demo_op)
  note u = updatedD [OF s(4)]
  obtain t where "end_op s = Ok ((), t)" "log_n t = 0"
    "\<forall>b. b \<notin> log_region s \<and> b < disksize s \<longrightarrow> memdisk t b = view s b \<and> view t b = view s b"
    using end_op_commits [OF s(2,3)] u by auto
  then show ?thesis using s(1) u by (intro exI [of _ s] exI [of _ t]) simp
qed

text \<open>C10. The reservation of \<open>begin_op\<close> exceeds what the log holds. On a log of \<open>LOGSIZE\<close> blocks, the
  size \<open>mkfs\<close> gives it, \<open>begin_op\<close> admits a third operation, promising 30 blocks in all; but once
  29 blocks are recorded every further \<open>log_write\<close> panics, even of a block already recorded.\<close>

theorem begin_op_overcommits:
  assumes "idle s p" "\<not> log_committing s" "log_n s = 0" "log_outstanding s = 2" "log_size s = int LOGSIZE"
  shows "\<exists>t. begin_op s = Ok ((), t) \<and> log_outstanding t = 3 \<and> 3 * MAXOPBLOCKS = LOGSIZE \<and>
     (\<forall>n i. 29 \<le> n \<longrightarrow> log_write i (t\<lparr>log_n := n\<rparr>) = Panic ''too big a transaction'')"
  using assms by (simp add: begin_op_run [OF assms(1,2)] log_write_def run_simps)

theorem begin_op_overcommits_witness:
  "log_write 0 ((demo_log ())\<lparr>log_size := 30, log_outstanding := 3, log_n := 29\<rparr>) = Panic ''too big a transaction''"
proof -
  let ?s = "(demo_log ())\<lparr>log_outstanding := 2, log_size := 30\<rparr>"
  have "idle (demo_log ()) 0" using demo_log(1) [of "()"] by (simp add: quiet_def)
  then have i: "idle ?s 0" using bcache_cong(6) [of ?s "demo_log ()" 0] by simp
  then have "begin_op ?s = Ok ((), ?s\<lparr>log_outstanding := 3\<rparr>)" by (subst begin_op_run [of _ 0]) simp_all
  then show ?thesis using begin_op_overcommits [OF i] by (auto dest!: spec [of _ "29::int"] spec [of _ "0::nat"])
qed

end
