(* ===== verification/Inode.thy ===== *)
theory Inode
  imports Log
begin

text \<open>
  Disk blocks and inodes: the lower half of \<open>fs.c\<close> with the structures of \<open>fs.h\<close> and
  \<open>file.h\<close>. The block allocator keeps its bitmap in disk blocks; an on-disk inode is 64 bytes
  of an inode block, read and written as those bytes; \<open>icache.inode[i]\<close> is \<open>inode s i\<close>, and
  a pointer to an inode is that index. Numbers that C keeps as \<open>uint\<close> are natural numbers
  below \<open>2 ^ 32\<close>, with the wrap-around written out where the code can meet it; a \<open>short\<close>
  is an integer. The device-independent part ends here; reading and writing file contents,
  which may call a device, is in the theory \<open>Fs\<close>.
\<close>

abbreviation (input) NINODE :: nat where "NINODE \<equiv> 100"
abbreviation (input) NDIRECT :: nat where "NDIRECT \<equiv> 12"
abbreviation (input) NINDIRECT :: nat where "NINDIRECT \<equiv> 128"
abbreviation (input) MAXFILE :: nat where "MAXFILE \<equiv> 140"
abbreviation (input) IPB :: nat where "IPB \<equiv> 8"
abbreviation (input) BPB :: nat where "BPB \<equiv> 4096"
abbreviation (input) ROOTDEV :: nat where "ROOTDEV \<equiv> 1"
abbreviation (input) ROOTINO :: nat where "ROOTINO \<equiv> 1"
abbreviation (input) T_DIR :: int where "T_DIR \<equiv> 1"
abbreviation (input) T_FILE :: int where "T_FILE \<equiv> 2"
abbreviation (input) T_DEV :: int where "T_DEV \<equiv> 3"

subsection \<open>Data\<close>

record dinode =
  d_type :: int
  d_major :: int
  d_minor :: int
  d_nlink :: int
  d_size :: nat
  d_addrs :: "nat list"

record inode =
  i_dev :: nat
  i_inum :: nat
  i_ref :: int
  i_lock :: sleeplock
  i_valid :: bool
  i_d :: dinode

record stat =
  st_type :: int
  st_dev :: nat
  st_ino :: nat
  st_nlink :: int
  st_size :: nat

record fsys = logs +
  sb :: superblock
  inode :: "nat \<Rightarrow> inode"

definition IBLOCK :: "nat \<Rightarrow> superblock \<Rightarrow> nat" where
  "IBLOCK i sk = i div IPB + sb_inodestart sk"

definition BBLOCK :: "nat \<Rightarrow> superblock \<Rightarrow> nat" where
  "BBLOCK b sk = b div BPB + sb_bmapstart sk"

subsection \<open>Bytes of an on-disk inode\<close>

definition enc_short :: "int \<Rightarrow> byte list" where
  "enc_short n = enc16 (nat (n mod 65536))"

definition dec_short :: "byte list \<Rightarrow> nat \<Rightarrow> int" where
  "dec_short bs i = (let u = int (dec16 bs i) in if u < 32768 then u else u - 65536)"

definition enc_dinode :: "dinode \<Rightarrow> byte list" where
  "enc_dinode d = enc_short (d_type d) @ enc_short (d_major d) @ enc_short (d_minor d) @
     enc_short (d_nlink d) @ enc32 (d_size d) @ concat (map enc32 (d_addrs d))"

definition dec_dinode :: "byte list \<Rightarrow> nat \<Rightarrow> dinode" where
  "dec_dinode bs i = \<lparr>d_type = dec_short bs i, d_major = dec_short bs (i + 2), d_minor = dec_short bs (i + 4),
     d_nlink = dec_short bs (i + 6), d_size = dec32 bs (i + 8),
     d_addrs = map (\<lambda>k. dec32 bs (i + 12 + 4 * k)) [0..<NDIRECT + 1]\<rparr>"

definition dinode_off :: "nat \<Rightarrow> nat" where
  "dinode_off inum = 64 * (inum mod IPB)"

subsection \<open>Blocks\<close>

definition bzero :: "nat \<Rightarrow> nat \<Rightarrow> ('z logs_scheme, unit) kop" where
  "bzero dev bno =
     bindk (bread dev bno) (\<lambda>bp.
     thenk (set_data bp (\<lambda>_. replicate BSIZE 0)) (
     thenk (log_write bp)
       (brelse bp)))"

definition bit_set :: "byte list \<Rightarrow> nat \<Rightarrow> bool" where
  "bit_set d bi = bit (d ! (bi div 8)) (bi mod 8)"

definition mark_bit :: "bool \<Rightarrow> nat \<Rightarrow> byte list \<Rightarrow> byte list" where
  "mark_bit v bi d = d[bi div 8 := (if v then Bit_Operations.set_bit else unset_bit) (bi mod 8) (d ! (bi div 8))]"

text \<open>The loop of \<open>balloc\<close> over the bitmap blocks; \<open>bs\<close> are the block numbers \<open>0\<close>, \<open>BPB\<close>, \<open>2 * BPB\<close> and
  so on below \<open>sb.size\<close>.\<close>

fun balloc_scan :: "nat \<Rightarrow> nat list \<Rightarrow> ('z fsys_scheme, nat) kop" where
  "balloc_scan dev [] = panic ''balloc: out of blocks''"
| "balloc_scan dev (b # bs) =
     bindk (getk sb) (\<lambda>sb.
     bindk (bread dev (BBLOCK b sb)) (\<lambda>bp.
     bindk (get_data bp) (\<lambda>d.
     case find_slot (\<lambda>bi. \<not> bit_set d bi) 0 (min BPB (sb_size sb - b)) of
       Some bi \<Rightarrow>
         thenk (set_data bp (mark_bit True bi)) (
         thenk (log_write bp) (
         thenk (brelse bp) (
         thenk (bzero dev (b + bi))
           (ret (b + bi)))))
     | None \<Rightarrow> thenk (brelse bp) (balloc_scan dev bs))))"

definition balloc :: "nat \<Rightarrow> ('z fsys_scheme, nat) kop" where
  "balloc dev =
     bindk (getk sb) (\<lambda>sb. balloc_scan dev (map (\<lambda>k. BPB * k) [0..<(sb_size sb + (BPB - 1)) div BPB]))"

definition bfree :: "nat \<Rightarrow> nat \<Rightarrow> ('z fsys_scheme, unit) kop" where
  "bfree dev b =
     bindk (getk sb) (\<lambda>sb.
     bindk (bread dev (BBLOCK b sb)) (\<lambda>bp.
     bindk (get_data bp) (\<lambda>d.
     if \<not> bit_set d (b mod BPB) then panic ''freeing free block''
     else thenk (set_data bp (mark_bit False (b mod BPB))) (
       thenk (log_write bp)
         (brelse bp)))))"

subsection \<open>Inodes\<close>

definition upd_inode :: "nat \<Rightarrow> (inode \<Rightarrow> inode) \<Rightarrow> 'z fsys_scheme \<Rightarrow> 'z fsys_scheme" where
  "upd_inode i f s = s\<lparr>inode := (inode s)(i := f (inode s i))\<rparr>"

definition set_inode :: "nat \<Rightarrow> (inode \<Rightarrow> inode) \<Rightarrow> ('z fsys_scheme, unit) kop" where
  "set_inode i f = modk (upd_inode i f)"

definition get_inode :: "nat \<Rightarrow> ('z fsys_scheme, inode) kop" where
  "get_inode i = getk (\<lambda>s. inode s i)"

definition set_d :: "nat \<Rightarrow> (dinode \<Rightarrow> dinode) \<Rightarrow> ('z fsys_scheme, unit) kop" where
  "set_d i f = set_inode i (\<lambda>ip. ip\<lparr>i_d := f (i_d ip)\<rparr>)"

abbreviation get_i_lock :: "nat \<Rightarrow> 'z fsys_scheme \<Rightarrow> sleeplock" where
  "get_i_lock i s \<equiv> i_lock (inode s i)"

abbreviation put_i_lock :: "nat \<Rightarrow> sleeplock \<Rightarrow> 'z fsys_scheme \<Rightarrow> 'z fsys_scheme" where
  "put_i_lock i l \<equiv> upd_inode i (\<lambda>ip. ip\<lparr>i_lock := l\<rparr>)"

definition acquire_inode :: "nat \<Rightarrow> ('z fsys_scheme, unit) kop" where
  "acquire_inode i = acquiresleep (InodeSpin i) (ChanInodeLock i) (get_i_lock i) (put_i_lock i)"

definition release_inode :: "nat \<Rightarrow> ('z fsys_scheme, unit) kop" where
  "release_inode i = releasesleep (InodeSpin i) (ChanInodeLock i) (put_i_lock i)"

definition holding_inode :: "nat \<Rightarrow> ('z fsys_scheme, bool) kop" where
  "holding_inode i = holdingsleep (InodeSpin i) (get_i_lock i)"

abbreviation num :: "nat \<Rightarrow> carg" where "num n \<equiv> Num (of_nat n)"

definition iinit :: "nat \<Rightarrow> ('z fsys_scheme, unit) kop" where
  "iinit dev =
     thenk (initlock IcacheLock) (
     thenk (for_each [0..<NINODE] (\<lambda>i. initsleeplock (InodeSpin i) (put_i_lock i))) (
     bindk (readsb dev) (\<lambda>b.
     thenk (modk (\<lambda>s. s\<lparr>sb := b\<rparr>))
       (cprintf (''sb: size %d nblocks %d ninodes %d nlog %d logstart %d inodestart %d bmap start %d'' @ [CHR 0x0A])
         [num (sb_size b), num (sb_nblocks b), num (sb_ninodes b), num (sb_nlog b), num (sb_logstart b),
          num (sb_inodestart b), num (sb_bmapstart b)]))))"

definition iget :: "nat \<Rightarrow> nat \<Rightarrow> ('z fsys_scheme, nat) kop" where
  "iget dev inum =
     thenk (acquire IcacheLock) (
     bindk (getk (\<lambda>s. find_slot (\<lambda>i. 0 < i_ref (inode s i) \<and> i_dev (inode s i) = dev \<and>
       i_inum (inode s i) = inum) 0 NINODE)) (\<lambda>r.
     case r of Some i \<Rightarrow>
       thenk (set_inode i (\<lambda>ip. ip\<lparr>i_ref := i_ref ip + 1\<rparr>)) (
       thenk (release IcacheLock) (ret i))
     | None \<Rightarrow>
       bindk (getk (\<lambda>s. find_slot (\<lambda>i. i_ref (inode s i) = 0) 0 NINODE)) (\<lambda>e.
       case e of None \<Rightarrow> panic ''iget: no inodes''
       | Some i \<Rightarrow>
         thenk (set_inode i (\<lambda>ip. ip\<lparr>i_dev := dev, i_inum := inum, i_ref := 1, i_valid := False\<rparr>)) (
         thenk (release IcacheLock) (ret i)))))"

fun ialloc_scan :: "nat \<Rightarrow> int \<Rightarrow> nat list \<Rightarrow> ('z fsys_scheme, nat) kop" where
  "ialloc_scan dev typ [] = panic ''ialloc: no inodes''"
| "ialloc_scan dev typ (inum # inums) =
     bindk (getk sb) (\<lambda>sb.
     bindk (bread dev (IBLOCK inum sb)) (\<lambda>bp.
     bindk (get_data bp) (\<lambda>d.
     if d_type (dec_dinode d (dinode_off inum)) = 0 then
       thenk (set_data bp (\<lambda>d. overwrite d (dinode_off inum) (replicate 64 0))) (
       thenk (set_data bp (\<lambda>d. overwrite d (dinode_off inum) (enc_short typ))) (
       thenk (log_write bp) (
       thenk (brelse bp)
         (iget dev inum))))
     else thenk (brelse bp) (ialloc_scan dev typ inums))))"

definition ialloc :: "nat \<Rightarrow> int \<Rightarrow> ('z fsys_scheme, nat) kop" where
  "ialloc dev typ = bindk (getk sb) (\<lambda>sb. ialloc_scan dev typ [1..<sb_ninodes sb])"

definition iupdate :: "nat \<Rightarrow> ('z fsys_scheme, unit) kop" where
  "iupdate i =
     bindk (get_inode i) (\<lambda>ip.
     bindk (getk sb) (\<lambda>sb.
     bindk (bread (i_dev ip) (IBLOCK (i_inum ip) sb)) (\<lambda>bp.
     thenk (set_data bp (\<lambda>d. overwrite d (dinode_off (i_inum ip)) (enc_dinode (i_d ip)))) (
     thenk (log_write bp)
       (brelse bp)))))"

definition idup :: "nat \<Rightarrow> ('z fsys_scheme, nat) kop" where
  "idup i =
     thenk (acquire IcacheLock) (
     thenk (set_inode i (\<lambda>ip. ip\<lparr>i_ref := i_ref ip + 1\<rparr>)) (
     thenk (release IcacheLock) (ret i)))"

definition ilock :: "nat \<Rightarrow> ('z fsys_scheme, unit) kop" where
  "ilock i =
     bindk (get_inode i) (\<lambda>ip.
     if i_ref ip < 1 then panic ''ilock''
     else thenk (acquire_inode i) (
       bindk (get_inode i) (\<lambda>ip.
       whenk (\<not> i_valid ip) (
         bindk (getk sb) (\<lambda>sb.
         bindk (bread (i_dev ip) (IBLOCK (i_inum ip) sb)) (\<lambda>bp.
         bindk (get_data bp) (\<lambda>d.
         thenk (set_d i (\<lambda>_. dec_dinode d (dinode_off (i_inum ip)))) (
         thenk (brelse bp) (
         thenk (set_inode i (\<lambda>ip. ip\<lparr>i_valid := True\<rparr>)) (
         bindk (get_inode i) (\<lambda>ip.
         whenk (d_type (i_d ip) = 0) (panic ''ilock: no type''))))))))))))"

definition iunlock :: "nat \<Rightarrow> ('z fsys_scheme, unit) kop" where
  "iunlock i =
     bindk (holding_inode i) (\<lambda>h.
     bindk (get_inode i) (\<lambda>ip.
     if \<not> h \<or> i_ref ip < 1 then panic ''iunlock'' else release_inode i))"

subsection \<open>Inode content\<close>

definition bmap :: "nat \<Rightarrow> nat \<Rightarrow> ('z fsys_scheme, nat) kop" where
  "bmap i bn =
     bindk (get_inode i) (\<lambda>ip.
     if bn < NDIRECT then
       (let addr = d_addrs (i_d ip) ! bn in
        if addr = 0 then
          bindk (balloc (i_dev ip)) (\<lambda>addr.
          thenk (set_d i (\<lambda>d. d\<lparr>d_addrs := (d_addrs d)[bn := addr]\<rparr>)) (ret addr))
        else ret addr)
     else if bn - NDIRECT < NINDIRECT then
       bindk
         (let addr = d_addrs (i_d ip) ! NDIRECT in
          if addr = 0 then
            bindk (balloc (i_dev ip)) (\<lambda>addr.
            thenk (set_d i (\<lambda>d. d\<lparr>d_addrs := (d_addrs d)[NDIRECT := addr]\<rparr>)) (ret addr))
          else ret addr) (\<lambda>addr.
       bindk (bread (i_dev ip) addr) (\<lambda>bp.
       bindk (get_data bp) (\<lambda>a.
       let addr = dec32 a (4 * (bn - NDIRECT)) in
       bindk
         (if addr = 0 then
            bindk (balloc (i_dev ip)) (\<lambda>addr.
            thenk (set_data bp (\<lambda>a. overwrite a (4 * (bn - NDIRECT)) (enc32 addr))) (
            thenk (log_write bp) (ret addr)))
          else ret addr) (\<lambda>addr.
       thenk (brelse bp) (ret addr)))))
     else panic ''bmap: out of range'')"

definition itrunc :: "nat \<Rightarrow> ('z fsys_scheme, unit) kop" where
  "itrunc i =
     thenk (for_each [0..<NDIRECT] (\<lambda>k.
       bindk (get_inode i) (\<lambda>ip.
       whenk (d_addrs (i_d ip) ! k \<noteq> 0) (
         thenk (bfree (i_dev ip) (d_addrs (i_d ip) ! k))
           (set_d i (\<lambda>d. d\<lparr>d_addrs := (d_addrs d)[k := 0]\<rparr>)))))) (
     thenk
       (bindk (get_inode i) (\<lambda>ip.
        whenk (d_addrs (i_d ip) ! NDIRECT \<noteq> 0) (
          bindk (bread (i_dev ip) (d_addrs (i_d ip) ! NDIRECT)) (\<lambda>bp.
          bindk (get_data bp) (\<lambda>a.
          thenk (for_each [0..<NINDIRECT] (\<lambda>j.
            whenk (dec32 a (4 * j) \<noteq> 0) (bfree (i_dev ip) (dec32 a (4 * j))))) (
          thenk (brelse bp) (
          thenk (bfree (i_dev ip) (d_addrs (i_d ip) ! NDIRECT))
            (set_d i (\<lambda>d. d\<lparr>d_addrs := (d_addrs d)[NDIRECT := 0]\<rparr>))))))))) (
     thenk (set_d i (\<lambda>d. d\<lparr>d_size := 0\<rparr>))
       (iupdate i)))"

definition iput :: "nat \<Rightarrow> ('z fsys_scheme, unit) kop" where
  "iput i =
     thenk (acquire_inode i) (
     bindk (get_inode i) (\<lambda>ip.
     thenk (whenk (i_valid ip \<and> d_nlink (i_d ip) = 0) (
       thenk (acquire IcacheLock) (
       bindk (getk (\<lambda>s. i_ref (inode s i))) (\<lambda>r.
       thenk (release IcacheLock) (
       whenk (r = 1) (
         thenk (itrunc i) (
         thenk (set_d i (\<lambda>d. d\<lparr>d_type := 0\<rparr>)) (
         thenk (iupdate i)
           (set_inode i (\<lambda>ip. ip\<lparr>i_valid := False\<rparr>))))))))))
     (thenk (release_inode i) (
      thenk (acquire IcacheLock) (
      thenk (set_inode i (\<lambda>ip. ip\<lparr>i_ref := i_ref ip - 1\<rparr>))
        (release IcacheLock))))))"

definition iunlockput :: "nat \<Rightarrow> ('z fsys_scheme, unit) kop" where
  "iunlockput i = thenk (iunlock i) (iput i)"

definition stati :: "nat \<Rightarrow> ('z fsys_scheme, stat) kop" where
  "stati i = getk (\<lambda>s. let ip = inode s i in
     \<lparr>st_type = d_type (i_d ip), st_dev = i_dev ip, st_ino = i_inum ip, st_nlink = d_nlink (i_d ip),
      st_size = d_size (i_d ip)\<rparr>)"

subsection \<open>Storing an inode and getting it back\<close>

definition dinode_ok :: "dinode \<Rightarrow> bool" where
  "dinode_ok d \<longleftrightarrow> (\<forall>x\<in>{d_type d, d_major d, d_minor d, d_nlink d}. - 32768 \<le> x \<and> x < 32768) \<and>
     d_size d < 4294967296 \<and> length (d_addrs d) = NDIRECT + 1 \<and> (\<forall>a\<in>set (d_addrs d). a < 4294967296)"

lemma length_enc_short [simp]: "length (enc_short n) = 2"
  by (simp add: enc_short_def)

lemma length_enc_dinode [simp]: "length (enc_dinode d) = 12 + 4 * length (d_addrs d)"
  by (simp add: enc_dinode_def)

lemma dec_short_append:
  "length xs \<le> i \<Longrightarrow> dec_short (xs @ ys) i = dec_short ys (i - length xs)"
  "- 32768 \<le> n \<Longrightarrow> n < 32768 \<Longrightarrow> dec_short (enc_short n @ ys) 0 = n"
proof -
  show "length xs \<le> i \<Longrightarrow> dec_short (xs @ ys) i = dec_short ys (i - length xs)"
    by (simp add: dec_short_def dec_append)
  assume n: "- 32768 \<le> n" "n < 32768"
  have "(n + 65536) mod 65536 = n + 65536" if "n < 0" using n that by (intro mod_pos_pos_trivial) simp_all
  then have "n mod 65536 = (if 0 \<le> n then n else n + 65536)" using n by simp
  moreover have "nat (n mod 65536) < 65536" by (simp add: nat_less_iff)
  ultimately show "dec_short (enc_short n @ ys) 0 = n"
    using n by (auto simp: dec_short_def enc_short_def dec_append)
qed

lemma dec_enc_dinode:
  assumes "dinode_ok d"
  shows "dec_dinode (enc_dinode d) 0 = d"
proof -
  have "map (\<lambda>k. dec32 (concat (map enc32 (d_addrs d))) (4 * k)) [0..<NDIRECT + 1] = map (\<lambda>k. d_addrs d ! k) [0..<NDIRECT + 1]"
    using assms by (intro map_cong) (auto simp: dinode_ok_def dec32_concat)
  also have "\<dots> = d_addrs d" using assms map_nth [of "d_addrs d"] by (simp add: dinode_ok_def)
  finally show ?thesis
    using assms by (simp add: dec_dinode_def enc_dinode_def dinode_ok_def dec_short_append dec_append)
qed

lemma dec_dinode_overwrite:
  assumes "off + 64 \<le> length bs" "length xs = 64"
  shows "dec_dinode (overwrite bs off xs) off = dec_dinode xs 0"
proof -
  have o: "off + length xs \<le> length bs" using assms by simp
  have "map (\<lambda>k. dec32 (overwrite bs off xs) (off + 12 + 4 * k)) [0..<NDIRECT + 1] = map (\<lambda>k. dec32 xs (12 + 4 * k)) [0..<NDIRECT + 1]"
    using dec_overwrite(1) [OF o] assms(2) by (intro map_cong) (simp_all add: add.assoc)
  then show ?thesis
    using dec_overwrite [OF o, of 0] dec_overwrite [OF o, of 2] dec_overwrite [OF o, of 4] dec_overwrite [OF o, of 6]
      dec_overwrite [OF o, of 8] assms(2)
    by (simp add: dec_dinode_def dec_short_def numeral_2_eq_2)
qed

lemma dec_dinode_other:
  assumes "off + length xs \<le> length bs" "i + 64 \<le> length bs" "i + 64 \<le> off \<or> off + length xs \<le> i"
  shows "dec_dinode (overwrite bs off xs) i = dec_dinode bs i"
  using assms by (auto simp: dec_dinode_def dec_short_def dec16_overwrite_other dec32_overwrite_other)

subsection \<open>Bits of the block bitmap\<close>

lemma length_mark_bit [simp]: "length (mark_bit v k d) = length d"
  by (simp add: mark_bit_def)

lemma bit_set_mark:
  assumes "k div 8 < length d"
  shows "bit_set (mark_bit v k d) j = (if j = k then v else bit_set d j)"
proof (cases "j div 8 = k div 8")
  case True
  then have "j = k \<longleftrightarrow> j mod 8 = k mod 8" by (metis div_mod_decomp)
  moreover have "k mod 8 < 8" by simp
  ultimately show ?thesis using True assms
    by (cases v) (auto simp: bit_set_def mark_bit_def bit_set_bit_iff bit_unset_bit_iff)
next
  case False
  then show ?thesis by (auto simp: bit_set_def mark_bit_def)
qed

lemma mark_bit_idem:
  assumes "bit_set d k = v" "k div 8 < length d"
  shows "mark_bit v k d = d"
proof -
  have "bit x n \<Longrightarrow> Bit_Operations.set_bit n x = x" "\<not> bit x n \<Longrightarrow> unset_bit n x = x" for x :: byte and n
    by (rule bit_word_eqI, auto simp: bit_set_bit_iff bit_unset_bit_iff)+
  then show ?thesis using assms by (cases v) (simp_all add: mark_bit_def bit_set_def list_update_same_conv)
qed

text \<open>The layout that \<open>mkfs\<close> makes: boot and super block and log, inodes, bitmap, data.\<close>

definition data_start :: "'z fsys_scheme \<Rightarrow> nat" where
  "data_start s = sb_bmapstart (sb s) + sb_size (sb s) div BPB + 1"

definition fs_geom :: "'z fsys_scheme \<Rightarrow> bool" where
  "fs_geom s \<longleftrightarrow> sb_size (sb s) \<le> disksize s \<and> (\<forall>b\<in>log_region s. b < sb_inodestart (sb s)) \<and>
     (\<forall>i < sb_ninodes (sb s). IBLOCK i (sb s) < sb_bmapstart (sb s)) \<and> sb_inodestart (sb s) \<le> sb_bmapstart (sb s) \<and>
     data_start s \<le> sb_size (sb s)"

definition used :: "'z fsys_scheme \<Rightarrow> nat \<Rightarrow> bool" where
  "used s b = bit_set (view s (BBLOCK b (sb s))) (b mod BPB)"

text \<open>Every block before the data is marked as used.\<close>

definition fs_ok :: "'z fsys_scheme \<Rightarrow> bool" where
  "fs_ok s \<longleftrightarrow> fs_geom s \<and> (\<forall>b<data_start s. used s b)"

lemma lframe_fs:
  assumes "lframe s t"
  shows "sb t = sb s" "inode t = inode s" "fsys.more t = fsys.more s"
proof -
  from assms obtain m h b pt o' c n bl where
    t: "t = s\<lparr>memdisk := m, hist := h, buf := b, ptable := pt, log_outstanding := o',
      log_committing := c, log_n := n, log_block := bl\<rparr>" unfolding lframe_def by blast
  show "sb t = sb s" "inode t = inode s" "fsys.more t = fsys.more s" by (simp_all add: t)
qed

lemma evolves_geom: "evolves s t V D \<Longrightarrow> fs_geom t = fs_geom s \<and> data_start t = data_start s \<and> sb t = sb s"
  using evolvesD [of s t V D] lframe_fs [of s t] by (simp add: fs_geom_def data_start_def)

lemma bitmap_block:
  assumes "fs_geom s" "b < sb_size (sb s)"
  shows "BBLOCK b (sb s) < data_start s" "BBLOCK b (sb s) < disksize s" "BBLOCK b (sb s) \<notin> log_region s"
    "BBLOCK b (sb s) < sb_size (sb s)"
proof -
  have "b div BPB \<le> sb_size (sb s) div BPB" using assms(2) by (simp add: div_le_mono)
  then show "BBLOCK b (sb s) < data_start s" by (simp add: BBLOCK_def data_start_def)
  then show "BBLOCK b (sb s) < disksize s" "BBLOCK b (sb s) < sb_size (sb s)" using assms(1) by (auto simp: fs_geom_def)
  show "BBLOCK b (sb s) \<notin> log_region s" using assms(1) by (auto simp: fs_geom_def BBLOCK_def)
qed

lemma data_block:
  assumes "fs_geom s" "data_start s \<le> b" "b < sb_size (sb s)"
  shows "b < disksize s" "b \<notin> log_region s" "c < sb_size (sb s) \<Longrightarrow> b \<noteq> BBLOCK c (sb s)"
  using assms bitmap_block(1) [OF assms(1), of c] by (auto simp: fs_geom_def data_start_def)

subsection \<open>Allocating a block\<close>

text \<open>The blocks a caller may hold meanwhile: at most one, and a used data block.\<close>

definition may_hold :: "'z fsys_scheme \<Rightarrow> nat set \<Rightarrow> bool" where
  "may_hold s T \<longleftrightarrow> T = {} \<or> (\<exists>c. T = {c} \<and> data_start s \<le> c \<and> c < sb_size (sb s) \<and> used s c)"

lemma used_split:
  assumes "k < BPB"
  shows "used s (BPB * n + k) = bit_set (view s (sb_bmapstart (sb s) + n)) k"
  using assms by (simp add: used_def BBLOCK_def add.commute)

lemma length_view': "work s p T \<Longrightarrow> b < disksize s \<Longrightarrow> length (view s b) = BSIZE"
  by (simp add: work_def length_view)

definition balloc_view :: "'z fsys_scheme \<Rightarrow> nat \<Rightarrow> nat \<Rightarrow> byte list" where
  "balloc_view s b = (view s)(BBLOCK b (sb s) := mark_bit True (b mod BPB) (view s (BBLOCK b (sb s))), b := replicate BSIZE 0)"

lemma balloc_found:
  assumes w: "work s p T" "may_hold s T" "fs_geom s" "room s 2"
    and b: "b < sb_size (sb s)" "data_start s \<le> b" "\<not> used s b"
    and l: "bread 1 (BBLOCK b (sb s)) s = Ok (i, u)" "work u p (insert (BBLOCK b (sb s)) T)" "same_blocks s u"
      "loaded u p (BBLOCK b (sb s)) i" "keeps s u p"
  obtains t where "thenk (set_data i (mark_bit True (b mod BPB))) (thenk (log_write i) (thenk (brelse i) (bzero 1 b))) u = Ok ((), t)"
    "work t p T" "evolves s t (balloc_view s b) {BBLOCK b (sb s), b}" "keeps s t p"
proof -
  let ?m = "BBLOCK b (sb s)"
  note g = bitmap_block [OF w(3) b(1)] and su = same_blocksD [OF l(3)]
  have T: "?m \<notin> T" "b \<notin> T" using w(2) b(3) g(1) by (auto simp: may_hold_def)
  have c: "?m \<notin> log_region u" "room u 1" "length (mark_bit True (b mod BPB) (view u ?m)) = BSIZE"
    using g su bframe_geom [OF su(1)] same_room [OF l(3)] w(4) room_mono [of s 2 1] length_view' [OF w(1) g(2)] by auto
  obtain v where v: "thenk (set_data i (mark_bit True (b mod BPB))) (thenk (log_write i) (brelse i)) u = Ok ((), v)"
    "work v p (insert ?m T - {?m})" "updated u v ?m (mark_bit True (b mod BPB) (view u ?m))"
    "\<forall>c j. c \<noteq> ?m \<longrightarrow> loaded u p c j \<longrightarrow> loaded v p c j"
    by (rule finish_update [OF l(2,4) c(1,2), of "mark_bit True (b mod BPB)", OF c(3)])
  have v': "work v p T" "keeps s v p" using v(2) T(1) keeps_other [OF l(5) v(4)] w(1) by (simp_all add: work_def)
  have e: "evolves s v ((view s)(?m := mark_bit True (b mod BPB) (view s ?m))) {?m}"
    using evolves_updated [OF same_updated [OF l(3) v(3)]] su(4) by simp
  note ed = evolvesD [OF e]
  have r: "room v 1" using evolves_room [OF e, of 1] w(4) by (simp add: numeral_2_eq_2)
  have "T = {} \<or> (\<exists>c. T = {c})" using w(2) by (auto simp: may_hold_def)
  then have sp: "spare v T" by (rule room_spare [OF r])
  have bd: "b < disksize v" "b \<notin> log_region v" using data_block(1,2) [OF w(3) b(2,1)] ed by simp_all
  obtain t where t: "bzero 1 b v = Ok ((), t)" "work t p T" "updated v t b (replicate BSIZE 0)" "keeps v t p"
    unfolding bzero_def by (rule update_work [OF v'(1) bd(1) T(2) sp bd(2) r, of "\<lambda>_. replicate BSIZE 0"]) simp_all
  have "evolves s t (balloc_view s b) ({?m} \<union> {b})"
    using evolves_trans [OF e evolves_updated [OF t(3)]] ed(1) by (simp add: balloc_view_def)
  moreover have "thenk (thenk (set_data i (mark_bit True (b mod BPB))) (thenk (log_write i) (brelse i))) (bzero 1 b) u = Ok ((), t)"
    unfolding thenk_Ok [where m = "thenk _ _", OF v(1)] by (rule t(1))
  ultimately show ?thesis using that [of t] t(2) keeps_trans [OF v'(2) t(4)] unfolding thenk_assoc by (simp add: insert_commute)
qed

lemma same_fs:
  assumes "same_blocks s t"
  shows "sb t = sb s" "used t = used s" "fs_ok t = fs_ok s" "fs_geom t = fs_geom s" "may_hold t T = may_hold s T"
    "balloc_view t b = balloc_view s b" "data_start t = data_start s"
  using evolves_geom [OF evolves_same [OF assms]] same_blocksD(4) [OF assms]
  by (auto simp: used_def fs_ok_def may_hold_def balloc_view_def fun_eq_iff)

lemma read_bitmap:
  assumes "work s p T" "may_hold s T" "fs_geom s" "room s 1" "b < sb_size (sb s)"
  obtains i u where "bread 1 (BBLOCK b (sb s)) s = Ok (i, u)" "work u p (insert (BBLOCK b (sb s)) T)" "same_blocks s u"
    "loaded u p (BBLOCK b (sb s)) i" "keeps s u p" "get_data i u = Ok (view s (BBLOCK b (sb s)), u)"
    "BBLOCK b (sb s) \<in> dirties u \<or> view u (BBLOCK b (sb s)) = memdisk u (BBLOCK b (sb s))" "BBLOCK b (sb s) \<notin> T"
proof -
  have sp: "spare s T" using room_spare [of s T] assms(2,4) by (auto simp: may_hold_def)
  note g = bitmap_block [OF assms(3,5)]
  have T: "BBLOCK b (sb s) \<notin> T" using assms(2) g(1) by (auto simp: may_hold_def)
  obtain i u where u: "bread 1 (BBLOCK b (sb s)) s = Ok (i, u)" "work u p (insert (BBLOCK b (sb s)) T)" "same_blocks s u"
    "loaded u p (BBLOCK b (sb s)) i" "keeps s u p" by (rule bread_work [OF assms(1) g(2) T sp])
  have d: "get_data i u = Ok (view s (BBLOCK b (sb s)), u)"
    using loaded_data [OF _ u(4)] u(2) same_blocksD(4) [OF u(3)] by (simp add: get_data_def getk_run work_def)
  have "BBLOCK b (sb s) \<in> dirties s \<or> view s (BBLOCK b (sb s)) = memdisk s (BBLOCK b (sb s))"
    using untaken_settled [of s "BBLOCK b (sb s)"] assms(1) T g(2) by (simp add: work_def)
  with that [OF u d] T same_blocksD [OF u(3)] show ?thesis by simp
qed

text \<open>A bitmap block without a free block is passed over.\<close>

lemma scan_full_block:
  assumes "work s p T" "may_hold s T" "fs_geom s" "room s 1" "BPB * k < sb_size (sb s)"
    and full: "\<And>j. j < BPB \<Longrightarrow> BPB * k + j < sb_size (sb s) \<Longrightarrow> used s (BPB * k + j)"
  obtains v where "\<forall>ks. balloc_scan 1 (BPB * k # ks) s = balloc_scan 1 ks v" "work v p T" "same_blocks s v" "keeps s v p"
proof -
  let ?c = "BPB * k" let ?m = "BBLOCK ?c (sb s)"
  obtain i u where u: "bread 1 ?m s = Ok (i, u)" "work u p (insert ?m T)" "same_blocks s u"
    "loaded u p ?m i" "keeps s u p" "get_data i u = Ok (view s ?m, u)" "?m \<in> dirties u \<or> view u ?m = memdisk u ?m" "?m \<notin> T"
    by (rule read_bitmap [OF assms(1-5)])
  have "bit_set (view s ?m) j" if "j < BPB" "?c + j < sb_size (sb s)" for j
    using used_split [OF that(1), of s k] full [OF that] by (simp add: BBLOCK_def add.commute)
  then have f: "find_slot (\<lambda>j. \<not> bit_set (view s ?m) j) 0 (min BPB (sb_size (sb s) - ?c)) = None"
    by (simp add: find_slot_None less_diff_conv add.commute)
  obtain v where v: "brelse i u = Ok ((), v)" "work v p (insert ?m T - {?m})" "same_blocks u v"
    "\<forall>c j. c \<noteq> ?m \<longrightarrow> loaded u p c j \<longrightarrow> loaded v p c j" by (rule brelse_work [OF u(2,4,7)])
  have sv: "same_blocks s v" using u(3) v(3) bframe_trans unfolding same_blocks_def by (metis (full_types))
  have "keeps s v p" using keeps_other [OF u(5) v(4)] assms(1) u(8) by (simp add: work_def)
  moreover have "work v p T" using v(2) u(8) by simp
  moreover have "\<forall>ks. balloc_scan 1 (BPB * k # ks) s = balloc_scan 1 ks v"
    by (simp add: bindk_Ok thenk_Ok getk_run u(1,6) f v(1) del: One_nat_def)
  ultimately show ?thesis using that sv by blast
qed

lemma balloc_scan_run:
  assumes "work s p T" "may_hold s T" "fs_ok s" "room s 2" "b < sb_size (sb s)" "\<not> used s b" "\<forall>c<b. used s c"
    and "n = (sb_size (sb s) + (BPB - 1)) div BPB" "k \<le> b div BPB"
  obtains t where "balloc_scan 1 (map (\<lambda>k. BPB * k) [k..<n]) s = Ok (b, t)" "work t p T"
    "evolves s t (balloc_view s b) {BBLOCK b (sb s), b}" "keeps s t p"
  using assms
proof (induction "b div BPB - k" arbitrary: k s thesis)
  case 0
  then have k: "k = b div BPB" by simp
  have gm: "fs_geom s" "data_start s \<le> b" using "0.prems"(4,7) leI by (auto simp: fs_ok_def)
  have "b div BPB < n" using "0.prems"(6,9) by (simp add: div_less_iff_less_mult less_mult_imp_div_less)
  then have up: "[k..<n] = k # [Suc k..<n]" unfolding k by (rule upt_conv_Cons)
  have m: "BBLOCK (BPB * k) (sb s) = BBLOCK b (sb s)" by (simp add: BBLOCK_def k)
  have r: "room s 1" using "0.prems"(5) room_mono [of s 2 1] by simp
  obtain i u where u: "bread 1 (BBLOCK b (sb s)) s = Ok (i, u)" "work u p (insert (BBLOCK b (sb s)) T)" "same_blocks s u"
    "loaded u p (BBLOCK b (sb s)) i" "keeps s u p" and d: "get_data i u = Ok (view s (BBLOCK b (sb s)), u)"
    by (rule read_bitmap [OF "0.prems"(2,3) gm(1) r "0.prems"(6)])
  have bm: "b mod BPB < min BPB (sb_size (sb s) - BPB * k)"
  proof -
    have "b = BPB * k + b mod BPB" "b mod BPB < BPB" using k by simp_all
    then show ?thesis using "0.prems"(6) by linarith
  qed
  have "bit_set (view s (BBLOCK b (sb s))) j" if "j < b mod BPB" for j
  proof -
    have "BPB * k + j < b" "j < BPB" using that k by (simp_all add: minus_mult_div_eq_mod [symmetric])
    then show ?thesis using "0.prems"(8) used_split [of j s k] k by (simp add: BBLOCK_def add.commute)
  qed
  then have f: "find_slot (\<lambda>j. \<not> bit_set (view s (BBLOCK b (sb s))) j) 0 (min BPB (sb_size (sb s) - BPB * k)) = Some (b mod BPB)"
    using bm "0.prems"(7) by (intro find_slot_eqI) (auto simp: used_def)
  obtain t where t: "thenk (set_data i (mark_bit True (b mod BPB))) (thenk (log_write i) (thenk (brelse i) (bzero 1 b))) u = Ok ((), t)"
    "work t p T" "evolves s t (balloc_view s b) {BBLOCK b (sb s), b}" "keeps s t p"
    by (rule balloc_found [OF "0.prems"(2,3) gm(1) "0.prems"(5,6) gm(2) "0.prems"(7) u])
  have kb: "BPB * k + b mod BPB = b" using k by simp
  have "thenk (thenk (set_data i (mark_bit True (b mod BPB))) (thenk (log_write i) (thenk (brelse i) (bzero 1 b)))) (ret b) u = Ok (b, t)"
    unfolding thenk_Ok [where m = "thenk _ _", OF t(1)] by (simp add: run_simps)
  then have "balloc_scan 1 (map (\<lambda>k. BPB * k) [k..<n]) s = Ok (b, t)"
    unfolding thenk_assoc up by (simp add: bindk_Ok getk_run m u(1) d f kb del: One_nat_def)
  then show ?case using "0.prems"(1) t by blast
next
  case (Suc x)
  have kb: "BPB * k + BPB \<le> b"
  proof -
    have "Suc k \<le> b div BPB" using Suc.hyps(2) by simp
    then have "BPB * Suc k \<le> BPB * (b div BPB)" by (rule mult_le_mono2)
    also have "\<dots> \<le> b" by simp
    finally show ?thesis by simp
  qed
  have c: "BPB * k < sb_size (sb s)" "fs_geom s" "room s 1"
    using kb Suc.prems(4,5,6) room_mono [of s 2 1] by (simp_all add: fs_ok_def)
  have full: "used s (BPB * k + j)" if "j < BPB" for j using Suc.prems(8) kb that by simp
  obtain v where sc: "\<forall>ks. balloc_scan 1 (BPB * k # ks) s = balloc_scan 1 ks v" and wv: "work v p T"
    and sv: "same_blocks s v" and kv: "keeps s v p"
    by (rule scan_full_block [OF Suc.prems(2,3) c(2,3,1) full])
  note f' = same_fs [OF sv]
  obtain t where t: "balloc_scan 1 (map (\<lambda>k. BPB * k) [Suc k..<n]) v = Ok (b, t)" "work t p T"
    "evolves v t (balloc_view v b) {BBLOCK b (sb v), b}" "keeps v t p"
  proof (rule Suc.hyps(1) [of "Suc k" v])
    show "x = b div BPB - Suc k" using Suc.hyps(2) by simp
    show "Suc k \<le> b div BPB" using Suc.hyps(2) by simp
  qed (use Suc.prems f' wv same_room [OF sv] in auto)
  have "k < n" using kb Suc.prems(6,9) by (simp add: div_less_iff_less_mult less_mult_imp_div_less)
  then have up: "[k..<n] = k # [Suc k..<n]" by (rule upt_conv_Cons)
  have "balloc_scan 1 (map (\<lambda>k. BPB * k) [k..<n]) s = Ok (b, t)"
    unfolding up using sc t(1) by simp
  moreover have "evolves s t (balloc_view s b) {BBLOCK b (sb s), b}"
    using evolves_trans [OF evolves_same [OF sv] t(3)] f' by simp
  ultimately show ?case using Suc.prems(1) t(2) keeps_trans [OF kv t(4)] by blast
qed

lemma balloc_run:
  assumes "work s p T" "may_hold s T" "fs_ok s" "room s 2" "b < sb_size (sb s)" "\<not> used s b" "\<forall>c<b. used s c"
  obtains t where "balloc 1 s = Ok (b, t)" "work t p T" "evolves s t (balloc_view s b) {BBLOCK b (sb s), b}" "keeps s t p"
proof -
  obtain t where "balloc_scan 1 (map (\<lambda>k. BPB * k) [0..<(sb_size (sb s) + (BPB - 1)) div BPB]) s = Ok (b, t)" "work t p T"
    "evolves s t (balloc_view s b) {BBLOCK b (sb s), b}" "keeps s t p"
    by (rule balloc_scan_run [OF assms refl le0])
  then show ?thesis using that by (simp add: balloc_def bindk_run getk_run)
qed

lemma balloc_scan_full:
  "work s p T \<Longrightarrow> may_hold s T \<Longrightarrow> fs_geom s \<Longrightarrow> room s 1 \<Longrightarrow> \<forall>b < sb_size (sb s). used s b \<Longrightarrow>
   \<forall>k\<in>set ks. BPB * k < sb_size (sb s) \<Longrightarrow> balloc_scan 1 (map (\<lambda>k. BPB * k) ks) s = Panic ''balloc: out of blocks''"
proof (induction ks arbitrary: s)
  case (Cons k ks)
  have c: "BPB * k < sb_size (sb s)" and full: "BPB * k + j < sb_size (sb s) \<Longrightarrow> used s (BPB * k + j)" for j
    using Cons.prems(5,6) by simp_all
  obtain v where v: "\<forall>ks. balloc_scan 1 (BPB * k # ks) s = balloc_scan 1 ks v" "work v p T"
    "same_blocks s v" "keeps s v p" by (rule scan_full_block [OF Cons.prems(1-4) c full])
  note f = same_fs [OF v(3)]
  have "balloc_scan 1 (map (\<lambda>k. BPB * k) ks) v = Panic ''balloc: out of blocks''"
    using Cons.prems f same_room [OF v(3)] by (intro Cons.IH v(2)) auto
  then show ?case using v(1) by simp
qed (simp add: panic_run)

lemma balloc_full:
  assumes "work s p T" "may_hold s T" "fs_geom s" "room s 1" "\<forall>b < sb_size (sb s). used s b"
  shows "balloc 1 s = Panic ''balloc: out of blocks''"
proof -
  have "BPB * k < sb_size (sb s)" if "k < (sb_size (sb s) + (BPB - 1)) div BPB" for k
  proof -
    have "BPB * Suc k \<le> BPB * ((sb_size (sb s) + (BPB - 1)) div BPB)" using that by (intro mult_le_mono2) simp
    also have "\<dots> \<le> sb_size (sb s) + (BPB - 1)" by (rule times_div_less_eq_dividend)
    finally show ?thesis by simp
  qed
  then show ?thesis
    using balloc_scan_full [OF assms, of "[0..<(sb_size (sb s) + (BPB - 1)) div BPB]"]
    by (simp add: balloc_def bindk_run getk_run)
qed

lemma used_mark:
  assumes "view t = (view s)(BBLOCK b (sb s) := mark_bit v (b mod BPB) (view s (BBLOCK b (sb s))))" "sb t = sb s"
    and "length (view s (BBLOCK b (sb s))) = BSIZE"
  shows "used t c = (if c = b then v else used s c)"
proof -
  have l: "b mod BPB div 8 < length (view s (BBLOCK b (sb s)))"
    using assms(3) by (simp add: div_less_iff_less_mult)
  have "c = b \<longleftrightarrow> c mod BPB = b mod BPB \<and> c div BPB = b div BPB" by (metis div_mod_decomp)
  then show ?thesis
    using bit_set_mark [OF l] by (auto simp: used_def assms(1,2)) (auto simp: BBLOCK_def)
qed

lemma balloc_used:
  assumes "work s p T" "fs_geom s" "b < sb_size (sb s)" "data_start s \<le> b" "evolves s t (balloc_view s b) D" "c < sb_size (sb s)"
  shows "used t c = (c = b \<or> used s c)"
proof -
  note g = bitmap_block [OF assms(2,3)]
  let ?s = "\<lambda>c. if c = BBLOCK b (sb s) then mark_bit True (b mod BPB) (view s (BBLOCK b (sb s))) else view s c"
  have l: "b mod BPB div 8 < length (view s (BBLOCK b (sb s)))"
    using length_view' [OF assms(1) g(2)] by (simp add: div_less_iff_less_mult)
  have t: "view t = balloc_view s b" "sb t = sb s" using evolvesD(1) [OF assms(5)] evolves_geom [OF assms(5)] by simp_all
  have n: "BBLOCK c (sb s) \<noteq> b" using data_block(3) [OF assms(2,4,3,6)] by simp
  have "c = b \<longleftrightarrow> c mod BPB = b mod BPB \<and> c div BPB = b div BPB" by (metis div_mod_decomp)
  then show ?thesis
    using bit_set_mark [OF l, of True "c mod BPB"] n unfolding used_def t balloc_view_def by (auto simp: BBLOCK_def)
qed

lemma bfree_run:
  assumes "work s p T" "may_hold s T" "fs_geom s" "room s 1" "b < sb_size (sb s)" "used s b"
  obtains t where "bfree 1 b s = Ok ((), t)" "work t p T" "keeps s t p"
    "evolves s t ((view s)(BBLOCK b (sb s) := mark_bit False (b mod BPB) (view s (BBLOCK b (sb s))))) {BBLOCK b (sb s)}"
proof -
  let ?m = "BBLOCK b (sb s)"
  note g = bitmap_block [OF assms(3,5)]
  obtain i u where u: "bread 1 ?m s = Ok (i, u)" "work u p (insert ?m T)" "same_blocks s u"
    "loaded u p ?m i" "keeps s u p" "get_data i u = Ok (view s ?m, u)" "?m \<in> dirties u \<or> view u ?m = memdisk u ?m" "?m \<notin> T"
    by (rule read_bitmap [OF assms(1-5)])
  note su = same_blocksD [OF u(3)]
  have c: "?m \<notin> log_region u" "room u 1" "length (mark_bit False (b mod BPB) (view u ?m)) = BSIZE"
    using g su bframe_geom [OF su(1)] same_room [OF u(3)] assms(4) length_view' [OF assms(1) g(2)] by auto
  obtain t where t: "thenk (set_data i (mark_bit False (b mod BPB))) (thenk (log_write i) (brelse i)) u = Ok ((), t)"
    "work t p (insert ?m T - {?m})" "updated u t ?m (mark_bit False (b mod BPB) (view u ?m))"
    "\<forall>c j. c \<noteq> ?m \<longrightarrow> loaded u p c j \<longrightarrow> loaded t p c j"
    by (rule finish_update [OF u(2,4) c(1,2), of "mark_bit False (b mod BPB)", OF c(3)])
  have "bfree 1 b s = Ok ((), t)"
    using assms(6) t(1) by (simp add: bfree_def bindk_Ok getk_run u(1,6) used_def del: One_nat_def)
  moreover have "evolves s t ((view s)(?m := mark_bit False (b mod BPB) (view s ?m))) {?m}"
    using evolves_updated [OF same_updated [OF u(3) t(3)]] su(4) by simp
  moreover have "keeps s t p" using keeps_other [OF u(5) t(4)] assms(1) u(8) by (simp add: work_def)
  ultimately show ?thesis using that t(2) u(8) by simp
qed

lemma bfree_free:
  assumes "work s p T" "may_hold s T" "fs_geom s" "room s 1" "b < sb_size (sb s)" "\<not> used s b"
  shows "bfree 1 b s = Panic ''freeing free block''"
proof -
  obtain i u where "bread 1 (BBLOCK b (sb s)) s = Ok (i, u)" "get_data i u = Ok (view s (BBLOCK b (sb s)), u)"
    by (rule read_bitmap [OF assms(1-5)])
  then show ?thesis using assms(6) by (simp add: bfree_def bindk_Ok getk_run used_def panic_run del: One_nat_def)
qed

subsection \<open>A concrete file system state\<close>

text \<open>A disk of 60 blocks: the log in blocks 2 to 31, the inodes in block 32, the bitmap in block 33. The root
  directory (inode 1) is block 34 and has one entry \<open>f\<close> besides the dots, an ordinary file (inode 2)
  whose content is block 35.\<close>

definition demo_root :: dinode where
  "demo_root = \<lparr>d_type = T_DIR, d_major = 0, d_minor = 0, d_nlink = 1, d_size = 48, d_addrs = 34 # replicate 12 0\<rparr>"

definition demo_file :: dinode where
  "demo_file = \<lparr>d_type = T_FILE, d_major = 0, d_minor = 0, d_nlink = 1, d_size = 3, d_addrs = 35 # replicate 12 0\<rparr>"

definition demo_disk :: "nat \<Rightarrow> byte list" where
  "demo_disk = zeros(
     32 := overwrite (overwrite (replicate BSIZE 0) 64 (enc_dinode demo_root)) 128 (enc_dinode demo_file),
     33 := [0xFF, 0xFF, 0xFF, 0xFF, 0x0F] @ replicate 507 0,
     34 := [1, 0, 46] @ replicate 13 0 @ [1, 0, 46, 46] @ replicate 12 0 @ [2, 0, 102] @ replicate 13 0 @ replicate 464 0,
     35 := [97, 98, 99] @ replicate 509 0)"

definition demo_sb :: superblock where
  "demo_sb = \<lparr>sb_size = 60, sb_nblocks = 26, sb_ninodes = 8, sb_nlog = 30, sb_logstart = 2, sb_inodestart = 32,
     sb_bmapstart = 33\<rparr>"

definition demo_inode :: inode where
  "demo_inode = \<lparr>i_dev = 0, i_inum = 0, i_ref = 0, i_lock = \<lparr>sl_locked = False, sl_pid = 0\<rparr>, i_valid = False,
     i_d = \<lparr>d_type = 0, d_major = 0, d_minor = 0, d_nlink = 0, d_size = 0, d_addrs = []\<rparr>\<rparr>"

definition demo_fsys :: "'z \<Rightarrow> 'z fsys_scheme" where
  "demo_fsys z = demo_log_on demo_disk 60 30 \<lparr>sb = demo_sb, inode = (\<lambda>_. demo_inode), \<dots> = z\<rparr>"

lemma demo_disk: "length (demo_disk b) = BSIZE" "demo_disk 2 = replicate BSIZE 0"
  by (simp_all add: demo_disk_def demo_root_def demo_file_def)

lemma demo_fsys:
  "quiet (demo_fsys z) 0" "log_inv (demo_fsys z)" "dirties (demo_fsys z) = {}" "view (demo_fsys z) = demo_disk"
  "sb (demo_fsys z) = demo_sb" "work (demo_fsys z) 0 {}" "room (demo_fsys z) 10"
proof -
  note d = demo_log_on [of 60 demo_disk 30, OF demo_disk]
  show q: "quiet (demo_fsys z) 0" "log_inv (demo_fsys z)" "dirties (demo_fsys z) = {}" "view (demo_fsys z) = demo_disk"
    unfolding demo_fsys_def by (rule d; simp)+
  then show "work (demo_fsys z) 0 {}" by (simp add: work_quiet)
  show "room (demo_fsys z) 10" using q(3) by (simp add: room_def) (simp add: demo_fsys_def)
  show "sb (demo_fsys z) = demo_sb" by (simp add: demo_fsys_def demo_log_on_def demo_defs)
qed

lemma demo_fsys_idle: "idle (demo_fsys z) 0"
  using demo_fsys(1) [of z] by (simp add: quiet_def)

lemma demo_fsys_ok: "fs_ok (demo_fsys z)" "used (demo_fsys z) b = (b < 36)" if "b < 60"
proof -
  have d: "bit ((([0xFF, 0xFF, 0xFF, 0xFF, 0x0F] @ replicate 507 0) :: byte list) ! (b div 8)) (b mod 8) = (b < 36)" if "b < 60" for b
  proof -
    have "\<forall>b\<in>set [0..<60]. bit ((([0xFF, 0xFF, 0xFF, 0xFF, 0x0F] @ replicate 507 0) :: byte list) ! (b div 8)) (b mod 8) = (b < 36)"
      by code_simp
    then show ?thesis using that by simp
  qed
  have u: "used (demo_fsys z) b = (b < 36)" if "b < 60" for b
    using that d [OF that] by (simp add: used_def demo_fsys BBLOCK_def demo_sb_def demo_disk_def bit_set_def)
  then show "used (demo_fsys z) b = (b < 36)" using that by blast
  show "fs_ok (demo_fsys z)"
    using u by (auto simp: fs_ok_def fs_geom_def data_start_def demo_fsys demo_sb_def IBLOCK_def) (auto simp: demo_fsys_def)
qed

subsection \<open>Properties\<close>

text \<open>C18. \<open>balloc\<close> takes the first free block of the disk: it marks just that block as used, hands it out
  filled with zeros, and leaves every other block's content alone; it panics exactly when no block is
  free.\<close>

theorem balloc_first_free:
  assumes "quiet s p" "log_inv s" "fs_ok s" "room s 2"
  shows "if \<exists>b < sb_size (sb s). \<not> used s b
    then \<exists>b t. balloc 1 s = Ok (b, t) \<and> b < sb_size (sb s) \<and> \<not> used s b \<and> (\<forall>c<b. used s c) \<and>
      (\<forall>c < sb_size (sb s). used t c = (c = b \<or> used s c)) \<and> view t b = replicate BSIZE 0 \<and>
      (\<forall>c. c \<noteq> b \<and> c \<noteq> BBLOCK b (sb s) \<longrightarrow> view t c = view s c) \<and> quiet t p \<and> log_inv t
    else balloc 1 s = Panic ''balloc: out of blocks''"
proof -
  have w: "work s p {}" "may_hold s {}" "fs_geom s" "room s 1"
    using assms room_mono [of s 2 1] by (simp_all add: work_quiet may_hold_def fs_ok_def)
  show ?thesis
  proof (cases "\<exists>b < sb_size (sb s). \<not> used s b")
    case False
    then show ?thesis using balloc_full [OF w] by simp
  next
    case True
    define b where "b = (LEAST b. b < sb_size (sb s) \<and> \<not> used s b)"
    have b: "b < sb_size (sb s) \<and> \<not> used s b" unfolding b_def using True by (rule LeastI_ex)
    have "\<not> (c < sb_size (sb s) \<and> \<not> used s c)" if "c < b" for c using that unfolding b_def by (rule not_less_Least)
    then have lt: "\<forall>c<b. used s c" using b by (meson less_trans)
    have ds: "data_start s \<le> b" using b assms(3) leI by (auto simp: fs_ok_def)
    obtain t where t: "balloc 1 s = Ok (b, t)" "work t p {}" "evolves s t (balloc_view s b) {BBLOCK b (sb s), b}"
      using balloc_run [OF w(1,2) assms(3,4)] b lt by blast
    have "used t c = (c = b \<or> used s c)" if "c < sb_size (sb s)" for c
      using balloc_used [OF w(1,3) _ ds t(3) that] b by blast
    then have "\<exists>b t. balloc 1 s = Ok (b, t) \<and> b < sb_size (sb s) \<and> \<not> used s b \<and> (\<forall>c<b. used s c) \<and>
      (\<forall>c < sb_size (sb s). used t c = (c = b \<or> used s c)) \<and> view t b = replicate BSIZE 0 \<and>
      (\<forall>c. c \<noteq> b \<and> c \<noteq> BBLOCK b (sb s) \<longrightarrow> view t c = view s c) \<and> quiet t p \<and> log_inv t"
      using b lt t evolvesD(1) [OF t(3)] by (intro exI [of _ b] exI [of _ t]) (simp add: work_quiet balloc_view_def)
    with True show ?thesis by simp
  qed
qed

theorem balloc_first_free_witness:
  "\<exists>t. balloc 1 (demo_fsys ()) = Ok (36, t) \<and> used t 36 \<and> \<not> used t 37 \<and> view t 36 = replicate BSIZE 0"
proof -
  let ?s = "demo_fsys ()"
  have r: "room ?s 2" using demo_fsys(7) [of "()"] room_mono [of ?s 10 2] by simp
  have z: "sb_size (sb ?s) = 60" by (simp add: demo_fsys demo_sb_def)
  note u = demo_fsys_ok(2) [where z = "()"]
  have "\<exists>b < sb_size (sb ?s). \<not> used ?s b" using u [of 36] by (intro exI [of _ 36]) (simp add: z)
  then obtain b t where b: "balloc 1 ?s = Ok (b, t)" "b < 60" "\<not> used ?s b" "\<forall>c<b. used ?s c"
    "\<forall>c < 60. used t c = (c = b \<or> used ?s c)" "view t b = replicate BSIZE 0"
    using balloc_first_free [OF demo_fsys(1,2) demo_fsys_ok(1) r, of 0] unfolding z by auto
  have "\<not> 36 < b" using b(4) u [of 36] by auto
  then have "b = 36" using b(2,3) u [of b] by simp
  then show ?thesis using b u [of 37] by auto
qed

text \<open>C19. \<open>bfree\<close> marks just the given block as free and changes no other block's content; freeing a block
  that is already free panics.\<close>

theorem bfree_checked:
  assumes "quiet s p" "log_inv s" "fs_geom s" "room s 1" "b < sb_size (sb s)"
  shows "if used s b
    then \<exists>t. bfree 1 b s = Ok ((), t) \<and> (\<forall>c. used t c = (c \<noteq> b \<and> used s c)) \<and>
      (\<forall>c. c \<noteq> BBLOCK b (sb s) \<longrightarrow> view t c = view s c) \<and> quiet t p \<and> log_inv t
    else bfree 1 b s = Panic ''freeing free block''"
proof -
  have w: "work s p {}" "may_hold s {}" using assms by (simp_all add: work_quiet may_hold_def)
  show ?thesis
  proof (cases "used s b")
    case False
    then show ?thesis using bfree_free [OF w assms(3-5)] by simp
  next
    case True
    obtain t where t: "bfree 1 b s = Ok ((), t)" "work t p {}"
      "evolves s t ((view s)(BBLOCK b (sb s) := mark_bit False (b mod BPB) (view s (BBLOCK b (sb s))))) {BBLOCK b (sb s)}"
      by (rule bfree_run [OF w assms(3-5) True])
    note e = evolvesD(1) [OF t(3)] evolves_geom [OF t(3)]
    have "used t c = (c \<noteq> b \<and> used s c)" for c
      using used_mark [OF e(1)] e(2) length_view' [OF w(1) bitmap_block(2) [OF assms(3,5)]] by auto
    then show ?thesis using True t e(1) by (auto simp: work_quiet)
  qed
qed

theorem bfree_checked_witness:
  "(\<exists>t. bfree 1 35 (demo_fsys ()) = Ok ((), t) \<and> \<not> used t 35 \<and> used t 34) \<and>
   bfree 1 40 (demo_fsys ()) = Panic ''freeing free block''"
proof -
  let ?s = "demo_fsys ()"
  have r: "room ?s 1" "fs_geom ?s" using demo_fsys(7) [of "()"] room_mono [of ?s 10 1] demo_fsys_ok(1) [of 0 "()"] by (simp_all add: fs_ok_def)
  have z: "sb_size (sb ?s) = 60" by (simp add: demo_fsys demo_sb_def)
  note u = demo_fsys_ok(2) [where z = "()"]
  show ?thesis
    using bfree_checked [OF demo_fsys(1,2) r(2,1), of 35] bfree_checked [OF demo_fsys(1,2) r(2,1), of 40] u [of 34] u [of 35] u [of 40]
    by (auto simp: z)
qed



end
