(* ===== verification/Tty.thy ===== *)
theory Tty
  imports Inode
begin

text \<open>
  The console as a device (\<open>console.c\<close>): \<open>consoleread\<close> and \<open>consolewrite\<close>, which the file layer
  reaches through the device table, and \<open>consoleinit\<close>, which enters them there. The table holds
  function pointers in C and names of drivers here. A read returns the bytes it stored at its
  destination together with its result.

  The interrupt side, which edits the input line, is in the theory \<open>Kbd\<close>.
\<close>

abbreviation (input) INPUT_BUF :: nat where "INPUT_BUF \<equiv> 128"
abbreviation (input) CTRL_D :: nat where "CTRL_D \<equiv> 4"
abbreviation (input) CONSOLE :: int where "CONSOLE \<equiv> 1"
abbreviation (input) NDEV :: int where "NDEV \<equiv> 10"

datatype driver = ConsoleDriver

record devs = fsys +
  devsw :: "int \<Rightarrow> driver option"

definition set_input :: "(input_buf \<Rightarrow> input_buf) \<Rightarrow> ('z console_scheme, unit) kop" where
  "set_input f = modk (\<lambda>s. s\<lparr>input := f (input s)\<rparr>)"

text \<open>The outer loop of \<open>consoleread\<close>: \<open>n\<close> bytes are still wanted of \<open>target\<close>, \<open>acc\<close> are the bytes stored so
  far. \<open>None\<close> is the exit of a killed reader.\<close>

fun cons_read :: "nat \<Rightarrow> nat \<Rightarrow> nat list \<Rightarrow> ('z console_scheme, (nat \<times> nat list) option) kop" where
  "cons_read target 0 acc = ret (Some (0, acc))"
| "cons_read target (Suc n) acc =
     bindk (getk input) (\<lambda>inp.
     if in_r inp = in_w inp then
       bindk curproc (\<lambda>p.
       bindk (getk (\<lambda>s. killed (ptable s p))) (\<lambda>k.
       if k then ret None else thenk (sleep ChanInput ConsLock) block))
     else
       let c = in_buf inp (unat (in_r inp) mod INPUT_BUF) in
       thenk (set_input (\<lambda>i. i\<lparr>in_r := in_r i + 1\<rparr>)) (
       if c = CTRL_D then
         thenk (whenk (Suc n < target) (set_input (\<lambda>i. i\<lparr>in_r := in_r i - 1\<rparr>)))
           (ret (Some (Suc n, acc)))
       else if c = NEWLINE then ret (Some (n, acc @ [c]))
       else cons_read target n (acc @ [c])))"

definition consoleread :: "nat \<Rightarrow> int \<Rightarrow> ('z fsys_scheme, int \<times> byte list) kop" where
  "consoleread ip n =
     thenk (iunlock ip) (
     thenk (acquire ConsLock) (
     bindk (cons_read (nat n) (nat n) []) (\<lambda>r.
     thenk (release ConsLock) (
     thenk (ilock ip) (
     case r of None \<Rightarrow> ret (- 1, [])
     | Some (m, cs) \<Rightarrow> ret ((if 0 < n then n - int m else 0), map of_nat cs))))))"

definition consolewrite :: "nat \<Rightarrow> byte list \<Rightarrow> ('z fsys_scheme, int) kop" where
  "consolewrite ip bs =
     thenk (iunlock ip) (
     thenk (acquire ConsLock) (
     thenk (for_each bs (\<lambda>b. consputc (unat b))) (
     thenk (release ConsLock) (
     thenk (ilock ip)
       (ret (int (length bs)))))))"

definition consoleinit :: "('z devs_scheme, unit) kop" where
  "consoleinit =
     thenk (initlock ConsLock) (
     thenk (modk (\<lambda>s. s\<lparr>devsw := (devsw s)(CONSOLE \<mapsto> ConsoleDriver)\<rparr>))
       (modk (\<lambda>s. s\<lparr>cons_locking := True\<rparr>)))"

definition demo_devs :: "'z \<Rightarrow> 'z devs_scheme" where
  "demo_devs z = demo_fsys \<lparr>devsw = [CONSOLE \<mapsto> ConsoleDriver], \<dots> = z\<rparr>"

lemma demo_devs_idle: "idle (demo_devs z) 0"
  unfolding demo_devs_def by (rule demo_fsys_idle)

end
