(* ===== verification/Fs.thy ===== *)
theory Fs
  imports Tty
begin

text \<open>
  File contents, directories and path names: the upper half of \<open>fs.c\<close>. A read returns the bytes
  it copied to its destination together with its result, a write takes the bytes of its source.
  Names and paths are byte strings without their terminating zero; reading a string at its end
  gives the zero (\<open>cget\<close>).
\<close>

abbreviation (input) DIRSIZ :: nat where "DIRSIZ \<equiv> 14"
abbreviation (input) SLASH :: byte where "SLASH \<equiv> 47"

definition cget :: "byte list \<Rightarrow> nat \<Rightarrow> byte" where
  "cget xs i = (if i < length xs then xs ! i else 0)"

subsection \<open>Reading and writing\<close>

text \<open>The loop of \<open>readi\<close>. Every round copies at least one byte, so \<open>n\<close> rounds are enough.\<close>

fun readi_loop :: "nat \<Rightarrow> nat \<Rightarrow> nat \<Rightarrow> nat \<Rightarrow> ('z fsys_scheme, byte list) kop" where
  "readi_loop 0 ip off n = ret []"
| "readi_loop (Suc k) ip off n =
     (if 0 < n then
        bindk (get_inode ip) (\<lambda>i.
        bindk (bmap ip (off div BSIZE)) (\<lambda>b.
        bindk (bread (i_dev i) b) (\<lambda>bp.
        let m = min n (BSIZE - off mod BSIZE) in
        bindk (get_data bp) (\<lambda>d.
        thenk (brelse bp) (
        bindk (readi_loop k ip (off + m) (n - m)) (\<lambda>bs.
        ret (slice d (off mod BSIZE) m @ bs)))))))
      else ret [])"

definition readi :: "nat \<Rightarrow> nat \<Rightarrow> nat \<Rightarrow> ('z devs_scheme, int \<times> byte list) kop" where
  "readi ip off n =
     bindk (get_inode ip) (\<lambda>i.
     if d_type (i_d i) = T_DEV then
       bindk (getk devsw) (\<lambda>dv.
       if d_major (i_d i) < 0 \<or> NDEV \<le> d_major (i_d i) then ret (- 1, [])
       else case dv (d_major (i_d i)) of None \<Rightarrow> ret (- 1, [])
         | Some ConsoleDriver \<Rightarrow> consoleread ip (sint (of_nat n :: uint)))
     else if d_size (i_d i) < off \<or> (off + n) mod 4294967296 < off then ret (- 1, [])
     else
       (let n = (if d_size (i_d i) < off + n then d_size (i_d i) - off else n) in
        bindk (readi_loop n ip off n) (\<lambda>bs. ret (sint (of_nat n :: uint), bs))))"

fun writei_loop :: "nat \<Rightarrow> nat \<Rightarrow> nat \<Rightarrow> byte list \<Rightarrow> ('z fsys_scheme, nat) kop" where
  "writei_loop 0 ip off src = ret off"
| "writei_loop (Suc k) ip off src =
     (if src \<noteq> [] then
        bindk (get_inode ip) (\<lambda>i.
        bindk (bmap ip (off div BSIZE)) (\<lambda>b.
        bindk (bread (i_dev i) b) (\<lambda>bp.
        let m = min (length src) (BSIZE - off mod BSIZE) in
        thenk (set_data bp (\<lambda>d. overwrite d (off mod BSIZE) (take m src))) (
        thenk (log_write bp) (
        thenk (brelse bp)
          (writei_loop k ip (off + m) (drop m src)))))))
      else ret off)"

definition writei :: "nat \<Rightarrow> byte list \<Rightarrow> nat \<Rightarrow> ('z devs_scheme, int) kop" where
  "writei ip src off =
     bindk (get_inode ip) (\<lambda>i.
     if d_type (i_d i) = T_DEV then
       bindk (getk devsw) (\<lambda>dv.
       if d_major (i_d i) < 0 \<or> NDEV \<le> d_major (i_d i) then ret (- 1)
       else case dv (d_major (i_d i)) of None \<Rightarrow> ret (- 1)
         | Some ConsoleDriver \<Rightarrow> consolewrite ip src)
     else if d_size (i_d i) < off \<or> (off + length src) mod 4294967296 < off then ret (- 1)
     else if MAXFILE * BSIZE < off + length src then ret (- 1)
     else bindk (writei_loop (length src) ip off src) (\<lambda>off.
       bindk (get_inode ip) (\<lambda>i.
       thenk (whenk (0 < length src \<and> d_size (i_d i) < off) (
         thenk (set_d ip (\<lambda>d. d\<lparr>d_size := off\<rparr>)) (iupdate ip)))
         (ret (sint (of_nat (length src) :: uint))))))"

subsection \<open>Directories\<close>

record dirent =
  de_inum :: nat
  de_name :: "byte list"

definition enc_dirent :: "dirent \<Rightarrow> byte list" where
  "enc_dirent de = enc16 (de_inum de) @ de_name de"

definition dec_dirent :: "byte list \<Rightarrow> dirent" where
  "dec_dirent bs = \<lparr>de_inum = dec16 bs 0, de_name = slice bs 2 DIRSIZ\<rparr>"

fun strncmp_from :: "byte list \<Rightarrow> byte list \<Rightarrow> nat \<Rightarrow> nat \<Rightarrow> int" where
  "strncmp_from s t i 0 = 0"
| "strncmp_from s t i (Suc n) =
     (if cget s i \<noteq> 0 \<and> cget s i = cget t i then strncmp_from s t (Suc i) n
      else uint (cget s i) - uint (cget t i))"

definition namecmp :: "byte list \<Rightarrow> byte list \<Rightarrow> int" where
  "namecmp s t = strncmp_from s t 0 DIRSIZ"

definition name_field :: "byte list \<Rightarrow> byte list" where
  "name_field name = map (cget name) [0..<DIRSIZ]"

fun dirlookup_from :: "nat \<Rightarrow> nat \<Rightarrow> byte list \<Rightarrow> nat \<Rightarrow> ('z devs_scheme, (nat \<times> nat) option) kop" where
  "dirlookup_from 0 dp name off = ret None"
| "dirlookup_from (Suc k) dp name off =
     bindk (get_inode dp) (\<lambda>i.
     if off < d_size (i_d i) then
       bindk (readi dp off 16) (\<lambda>(r, bs).
       if r \<noteq> 16 then panic ''dirlookup read''
       else let de = dec_dirent bs in
         if de_inum de = 0 then dirlookup_from k dp name (off + 16)
         else if namecmp name (de_name de) = 0 then
           bindk (iget (i_dev i) (de_inum de)) (\<lambda>ip. ret (Some (ip, off)))
         else dirlookup_from k dp name (off + 16))
     else ret None)"

text \<open>The result carries the offset that the code stores through \<open>poff\<close>.\<close>

definition dirlookup :: "nat \<Rightarrow> byte list \<Rightarrow> ('z devs_scheme, (nat \<times> nat) option) kop" where
  "dirlookup dp name =
     bindk (get_inode dp) (\<lambda>i.
     if d_type (i_d i) \<noteq> T_DIR then panic ''dirlookup not DIR''
     else dirlookup_from (Suc (d_size (i_d i))) dp name 0)"

fun dir_free_from :: "nat \<Rightarrow> nat \<Rightarrow> nat \<Rightarrow> ('z devs_scheme, nat) kop" where
  "dir_free_from 0 dp off = ret off"
| "dir_free_from (Suc k) dp off =
     bindk (get_inode dp) (\<lambda>i.
     if off < d_size (i_d i) then
       bindk (readi dp off 16) (\<lambda>(r, bs).
       if r \<noteq> 16 then panic ''dirlink read''
       else if de_inum (dec_dirent bs) = 0 then ret off
       else dir_free_from k dp (off + 16))
     else ret off)"

definition dirlink :: "nat \<Rightarrow> byte list \<Rightarrow> nat \<Rightarrow> ('z devs_scheme, int) kop" where
  "dirlink dp name inum =
     bindk (dirlookup dp name) (\<lambda>r. case r of
       Some (ip, _) \<Rightarrow> thenk (iput ip) (ret (- 1))
     | None \<Rightarrow>
       bindk (getk (\<lambda>s. d_size (i_d (inode s dp)))) (\<lambda>n.
       bindk (dir_free_from (Suc n) dp 0) (\<lambda>off.
       bindk (writei dp (enc_dirent \<lparr>de_inum = inum mod 65536, de_name = name_field name\<rparr>) off) (\<lambda>r.
       if r \<noteq> 16 then panic ''dirlink'' else ret 0))))"

subsection \<open>Paths\<close>

definition skipelem :: "byte list \<Rightarrow> (byte list \<times> byte list) option" where
  "skipelem path =
     (let path = dropWhile (\<lambda>c. c = SLASH) path in
      if path = [] then None
      else let s = takeWhile (\<lambda>c. c \<noteq> SLASH) path;
               path = dropWhile (\<lambda>c. c \<noteq> SLASH) path
        in Some (take DIRSIZ s, dropWhile (\<lambda>c. c = SLASH) path))"

fun namex_loop :: "nat \<Rightarrow> nat \<Rightarrow> byte list \<Rightarrow> bool \<Rightarrow> byte list \<Rightarrow> ('z devs_scheme, (nat \<times> byte list) option) kop" where
  "namex_loop 0 ip path np name = block"
| "namex_loop (Suc k) ip path np name =
     (case skipelem path of
        None \<Rightarrow> if np then thenk (iput ip) (ret None) else ret (Some (ip, name))
      | Some (name, path) \<Rightarrow>
          thenk (ilock ip) (
          bindk (get_inode ip) (\<lambda>i.
          if d_type (i_d i) \<noteq> T_DIR then thenk (iunlockput ip) (ret None)
          else if np \<and> path = [] then thenk (iunlock ip) (ret (Some (ip, name)))
          else bindk (dirlookup ip name) (\<lambda>r. case r of
              None \<Rightarrow> thenk (iunlockput ip) (ret None)
            | Some (next, _) \<Rightarrow> thenk (iunlockput ip) (namex_loop k next path np name)))))"

text \<open>The result is the inode with the last element copied to \<open>name\<close>. Every round removes an
  element, so the loop runs at most once per byte of the path.\<close>

definition namex :: "byte list \<Rightarrow> bool \<Rightarrow> ('z devs_scheme, (nat \<times> byte list) option) kop" where
  "namex path np =
     bindk (if path \<noteq> [] \<and> hd path = SLASH then iget ROOTDEV ROOTINO
            else bindk curproc (\<lambda>p.
              bindk (getk (\<lambda>s. cwd (ptable s p))) (\<lambda>c.
              case c of None \<Rightarrow> panic ''null dereference: cwd'' | Some i \<Rightarrow> idup i))) (\<lambda>ip.
     namex_loop (Suc (length path)) ip path np [])"

definition namei :: "byte list \<Rightarrow> ('z devs_scheme, nat option) kop" where
  "namei path = bindk (namex path False) (\<lambda>r. ret (map_option fst r))"

definition nameiparent :: "byte list \<Rightarrow> ('z devs_scheme, (nat \<times> byte list) option) kop" where
  "nameiparent path = namex path True"

end
