(* ===== verification/Ring.thy ===== *)
theory Ring
  imports Prelude
begin

text \<open>
  Ring buffers with free-running 32-bit counters, the representation that pipes and the
  console's input line share: an array of \<open>n\<close> slots, indexed by the counters modulo \<open>n\<close>. The
  locale \<open>ring\<close> assumes only that \<open>n\<close> divides the counters' range; in it the slots between two
  counters are a queue, whatever the counters have wrapped around to.
\<close>

definition ring_list :: "nat \<Rightarrow> (nat \<Rightarrow> 'a) \<Rightarrow> uint \<Rightarrow> uint \<Rightarrow> 'a list" where
  "ring_list n f r w = map (\<lambda>i. f ((unat r + i) mod n)) [0..<unat (w - r)]"

lemma length_ring [simp]: "length (ring_list n f r w) = unat (w - r)"
  by (simp add: ring_list_def)

lemma ring_empty [simp]: "ring_list n f r r = []"
  by (simp add: ring_list_def)

lemma ring_Nil_iff: "ring_list n f r w = [] \<longleftrightarrow> r = w"
  by (metis length_0_conv length_ring eq_iff_diff_eq_0 unat_eq_zero)

lemma unat_succ: "unat x \<noteq> 4294967295 \<Longrightarrow> unat (x + 1) = Suc (unat x)" for x :: uint
  using unat_lt32 [of x] by (simp add: unat_word_ariths)

lemma unat_pred: "x \<noteq> 0 \<Longrightarrow> unat (x - 1) = unat x - 1" for x :: uint
  by (rule unat_minus_one)

locale ring =
  fixes n :: nat
  assumes n_pos: "0 < n" and n_lt: "n < 4294967296" and n_dvd: "n dvd 4294967296"
begin

lemma unat_add_mod: "unat (r + of_nat i) mod n = (unat r + i) mod n" for r :: uint
proof -
  have "unat (r + of_nat i) = (unat r + i) mod 4294967296"
    by (simp add: unat_word_ariths unat_of_nat mod_simps)
  then show ?thesis using n_dvd by (simp add: mod_mod_cancel)
qed

lemma unat_succ_mod: "(unat (r + 1) + i) mod n = (unat r + Suc i) mod n" for r :: uint
proof -
  have "(unat (r + 1) + i) mod n = unat (r + 1 + of_nat i) mod n" by (rule unat_add_mod [symmetric])
  also have "\<dots> = unat (r + of_nat (Suc i)) mod n" by (simp add: algebra_simps)
  also have "\<dots> = (unat r + Suc i) mod n" by (rule unat_add_mod)
  finally show ?thesis .
qed

lemma slot_distinct:
  assumes "i < n" "j < n" "(a + i) mod n = (a + j) mod n"
  shows "i = j"
proof (rule ccontr)
  assume "i \<noteq> j"
  then have "n dvd (if i < j then j - i else i - j)"
    using assms mod_eq_dvd_iff_nat [of "a + i" "a + j" n] mod_eq_dvd_iff_nat [of "a + j" "a + i" n] by auto
  then show False using assms \<open>i \<noteq> j\<close> by (auto split: if_splits dest: dvd_imp_le)
qed

lemma ring_pop:
  assumes "r \<noteq> w"
  shows "ring_list n f r w = f (unat r mod n) # ring_list n f (r + 1) w"
proof -
  have "w - r \<noteq> 0" using assms by simp
  then have u: "unat (w - r) = Suc (unat (w - (r + 1)))"
    using unat_pred [of "w - r"] unat_gt_0 [of "w - r"] by (simp add: diff_diff_eq)
  show ?thesis
    unfolding ring_list_def u by (simp add: map_upt_Suc unat_succ_mod del: upt_Suc)
qed

lemma ring_push:
  assumes "unat (w - r) < n"
  shows "ring_list n (f(unat w mod n := x)) r (w + 1) = ring_list n f r w @ [x]"
proof -
  let ?k = "unat (w - r)"
  have "?k \<noteq> 4294967295" using assms n_lt by linarith
  then have u: "unat (w + 1 - r) = Suc ?k" using unat_succ [of "w - r"] by (simp add: algebra_simps)
  have w: "unat w mod n = (unat r + ?k) mod n" using unat_add_mod [of r ?k] by simp
  have "(unat r + i) mod n \<noteq> unat w mod n" if "i < ?k" for i
      using that assms slot_distinct [of i ?k "unat r"] unfolding w by auto
  then have "map (\<lambda>i. (f(unat w mod n := x)) ((unat r + i) mod n)) [0..<?k] = map (\<lambda>i. f ((unat r + i) mod n)) [0..<?k]"
      by (intro map_cong) auto
  then show ?thesis unfolding ring_list_def u by (simp add: w)
qed

lemma ring_cong:
  "(\<And>i. i < unat (w - r) \<Longrightarrow> f ((unat r + i) mod n) = g ((unat r + i) mod n)) \<Longrightarrow> ring_list n f r w = ring_list n g r w"
  by (auto simp: ring_list_def)

text \<open>Taking back the last slot.\<close>

lemma ring_unpush:
  assumes "r \<noteq> w"
  shows "ring_list n f r w = ring_list n f r (w - 1) @ [f (unat (w - 1) mod n)]"
proof -
  have "w - r \<noteq> 0" using assms by simp
  then have u: "unat (w - r) = Suc (unat (w - 1 - r))"
    using unat_pred [of "w - r"] unat_gt_0 [of "w - r"] by (simp add: algebra_simps)
  have "unat (w - 1) mod n = (unat r + unat (w - 1 - r)) mod n" using unat_add_mod [of r "unat (w - 1 - r)"] by simp
  then show ?thesis unfolding ring_list_def u by simp
qed

text \<open>Splitting at a counter in between.\<close>

lemma ring_split:
  assumes "unat (e - r) = unat (w - r) + unat (e - w)"
  shows "ring_list n f r e = ring_list n f r w @ ring_list n f w e"
proof -
  have "(unat w + i) mod n = (unat r + (unat (w - r) + i)) mod n" for i
  proof -
    have "(unat w + i) mod n = unat (w + of_nat i) mod n" by (rule unat_add_mod [symmetric])
    also have "w + of_nat i = r + of_nat (unat (w - r) + i)" by simp
    finally show ?thesis by (simp only: unat_add_mod)
  qed
  then have "map (\<lambda>i. f ((unat w + i) mod n)) [0..<unat (e - w)] =
      map (\<lambda>i. f ((unat r + i) mod n)) [unat (w - r)..<unat (w - r) + unat (e - w)]"
    by (intro nth_equalityI) simp_all
  then show ?thesis
    unfolding ring_list_def assms by (simp add: upt_add_eq_append [of 0])
qed

end

end
