(* ===== verification/Pipe.thy ===== *)
theory Pipe
  imports Fs Ring
begin

text \<open>
  Pipes (\<open>pipe.c\<close>). A pipe lives in a page from \<open>kalloc\<close>; \<open>pipe s p\<close> is the structure in the page at
  address \<open>p\<close>. The counters are 32-bit and wrap. A call that has to wait is \<open>Blocked\<close> at the
  point where it goes to sleep.

  Shown: the ring is a queue of at most 512 bytes, through the locale \<open>ring\<close>; whatever
  interleaving of single byte transfers the writers' and readers' critical sections make, the
  bytes come out in the order they went in; and what a call of \<open>pipewrite\<close> or \<open>piperead\<close> does
  to that queue on every branch. \<open>pipealloc\<close>, which needs the file table, is in the theory
  \<open>File\<close>.
\<close>

abbreviation (input) PIPESIZE :: nat where "PIPESIZE \<equiv> 512"

record pipe =
  p_data :: "nat \<Rightarrow> byte"
  nread :: uint
  nwrite :: uint
  readopen :: bool
  writeopen :: bool

record pipes = devs +
  pipe :: "uint \<Rightarrow> pipe"

abbreviation pipe_lock :: "uint \<Rightarrow> lockid" where "pipe_lock p \<equiv> PipeLock (unat p)"
abbreviation chan_read :: "uint \<Rightarrow> chan" where "chan_read p \<equiv> ChanPipeRead (unat p)"
abbreviation chan_write :: "uint \<Rightarrow> chan" where "chan_write p \<equiv> ChanPipeWrite (unat p)"

definition set_pipe :: "uint \<Rightarrow> (pipe \<Rightarrow> pipe) \<Rightarrow> ('z pipes_scheme, unit) kop" where
  "set_pipe p f = modk (\<lambda>s. s\<lparr>pipe := (pipe s)(p := f (pipe s p))\<rparr>)"

definition get_pipe :: "uint \<Rightarrow> ('z pipes_scheme, pipe) kop" where
  "get_pipe p = getk (\<lambda>s. pipe s p)"

subsection \<open>The ring\<close>

definition pipe_full :: "pipe \<Rightarrow> bool" where
  "pipe_full p \<longleftrightarrow> nwrite p = nread p + 512"

definition pipe_empty :: "pipe \<Rightarrow> bool" where
  "pipe_empty p \<longleftrightarrow> nread p = nwrite p"

definition pipe_put :: "byte \<Rightarrow> pipe \<Rightarrow> pipe" where
  "pipe_put b p = p\<lparr>p_data := (p_data p)(unat (nwrite p) mod PIPESIZE := b), nwrite := nwrite p + 1\<rparr>"

definition pipe_head :: "pipe \<Rightarrow> byte" where
  "pipe_head p = p_data p (unat (nread p) mod PIPESIZE)"

definition pipe_drop :: "pipe \<Rightarrow> pipe" where
  "pipe_drop p = p\<lparr>nread := nread p + 1\<rparr>"

subsection \<open>Operations\<close>

definition pipeclose :: "uint \<Rightarrow> bool \<Rightarrow> ('z pipes_scheme, unit) kop" where
  "pipeclose p writable =
     thenk (acquire (pipe_lock p)) (
     thenk (if writable
            then thenk (set_pipe p (\<lambda>q. q\<lparr>writeopen := False\<rparr>)) (wakeup (chan_read p))
            else thenk (set_pipe p (\<lambda>q. q\<lparr>readopen := False\<rparr>)) (wakeup (chan_write p))) (
     bindk (get_pipe p) (\<lambda>q.
     if \<not> readopen q \<and> \<not> writeopen q
     then thenk (release (pipe_lock p)) (kfree p)
     else release (pipe_lock p))))"

fun write_bytes :: "uint \<Rightarrow> byte list \<Rightarrow> ('z pipes_scheme, bool) kop" where
  "write_bytes p [] = ret True"
| "write_bytes p (b # bs) =
     bindk (get_pipe p) (\<lambda>q.
     if pipe_full q then
       bindk curproc (\<lambda>me.
       bindk (getk (\<lambda>s. killed (ptable s me))) (\<lambda>k.
       if \<not> readopen q \<or> k then thenk (release (pipe_lock p)) (ret False)
       else thenk (wakeup (chan_read p)) (thenk (sleep (chan_write p) (pipe_lock p)) block)))
     else thenk (set_pipe p (pipe_put b)) (write_bytes p bs))"

definition pipewrite :: "uint \<Rightarrow> byte list \<Rightarrow> ('z pipes_scheme, int) kop" where
  "pipewrite p bs =
     thenk (acquire (pipe_lock p)) (
     bindk (write_bytes p bs) (\<lambda>ok.
     if \<not> ok then ret (- 1)
     else thenk (wakeup (chan_read p)) (
       thenk (release (pipe_lock p)) (ret (int (length bs))))))"

fun read_bytes :: "uint \<Rightarrow> nat \<Rightarrow> ('z pipes_scheme, byte list) kop" where
  "read_bytes p 0 = ret []"
| "read_bytes p (Suc n) =
     bindk (get_pipe p) (\<lambda>q.
     if pipe_empty q then ret []
     else thenk (set_pipe p pipe_drop) (
       bindk (read_bytes p n) (\<lambda>bs. ret (pipe_head q # bs))))"

definition piperead :: "uint \<Rightarrow> int \<Rightarrow> ('z pipes_scheme, int \<times> byte list) kop" where
  "piperead p n =
     thenk (acquire (pipe_lock p)) (
     bindk (get_pipe p) (\<lambda>q.
     if pipe_empty q \<and> writeopen q then
       bindk curproc (\<lambda>me.
       bindk (getk (\<lambda>s. killed (ptable s me))) (\<lambda>k.
       if k then thenk (release (pipe_lock p)) (ret (- 1, []))
       else thenk (sleep (chan_read p) (pipe_lock p)) block))
     else
       bindk (read_bytes p (nat n)) (\<lambda>bs.
       thenk (wakeup (chan_write p)) (
       thenk (release (pipe_lock p))
         (ret (int (length bs), bs))))))"

subsection \<open>The queue behind the ring\<close>

interpretation pipe_ring: ring 512
  by unfold_locales simp_all

definition pipe_bytes :: "pipe \<Rightarrow> byte list" where
  "pipe_bytes p = ring_list PIPESIZE (p_data p) (nread p) (nwrite p)"

definition pipe_ok :: "pipe \<Rightarrow> bool" where
  "pipe_ok p \<longleftrightarrow> unat (nwrite p - nread p) \<le> PIPESIZE"

lemma length_pipe_bytes: "pipe_ok p \<Longrightarrow> length (pipe_bytes p) \<le> PIPESIZE"
  by (simp add: pipe_bytes_def pipe_ok_def)

lemma pipe_full_iff: "pipe_full p \<longleftrightarrow> length (pipe_bytes p) = PIPESIZE"
proof -
  have "nwrite p = nread p + 512 \<longleftrightarrow> nwrite p - nread p = 512" by (auto simp: algebra_simps)
  also have "\<dots> \<longleftrightarrow> unat (nwrite p - nread p) = unat (512 :: uint)" by (rule word_unat_eq_iff)
  finally show ?thesis by (simp add: pipe_full_def pipe_bytes_def)
qed

lemma pipe_empty_iff: "pipe_empty p \<longleftrightarrow> pipe_bytes p = []"
  by (simp add: pipe_empty_def pipe_bytes_def ring_Nil_iff)

lemma pipe_put:
  assumes "pipe_ok p" "\<not> pipe_full p"
  shows "pipe_bytes (pipe_put b p) = pipe_bytes p @ [b]" "pipe_ok (pipe_put b p)"
proof -
  have l: "unat (nwrite p - nread p) < 512"
    using assms by (simp add: pipe_full_iff pipe_ok_def pipe_bytes_def)
  then show "pipe_bytes (pipe_put b p) = pipe_bytes p @ [b]"
    by (simp add: pipe_bytes_def pipe_put_def pipe_ring.ring_push)
  have "unat (nwrite p - nread p + 1) = Suc (unat (nwrite p - nread p))"
    using l by (intro unat_succ) simp
  then show "pipe_ok (pipe_put b p)" using l by (simp add: pipe_ok_def pipe_put_def algebra_simps)
qed

lemma pipe_get:
  assumes "\<not> pipe_empty p"
  shows "pipe_bytes p = pipe_head p # pipe_bytes (pipe_drop p)" "pipe_ok p \<Longrightarrow> pipe_ok (pipe_drop p)"
proof -
  show e: "pipe_bytes p = pipe_head p # pipe_bytes (pipe_drop p)"
    using assms by (simp add: pipe_empty_def pipe_bytes_def pipe_head_def pipe_drop_def pipe_ring.ring_pop)
  show "pipe_ok (pipe_drop p)" if "pipe_ok p"
    using arg_cong [OF e, of length] that by (simp add: pipe_ok_def pipe_bytes_def)
qed

subsection \<open>Interleavings\<close>

text \<open>\<open>transfers p ws rs\<close>: \<open>p\<close> is reached from a fresh pipe by some interleaving of byte transfers, in
  which \<open>ws\<close> was written and \<open>rs\<close> was read.\<close>

inductive transfers :: "pipe \<Rightarrow> byte list \<Rightarrow> byte list \<Rightarrow> bool" where
  fresh: "nread p = 0 \<Longrightarrow> nwrite p = 0 \<Longrightarrow> transfers p [] []"
| put: "transfers p ws rs \<Longrightarrow> \<not> pipe_full p \<Longrightarrow> transfers (pipe_put b p) (ws @ [b]) rs"
| get: "transfers p ws rs \<Longrightarrow> \<not> pipe_empty p \<Longrightarrow> transfers (pipe_drop p) ws (rs @ [pipe_head p])"
| close: "transfers p ws rs \<Longrightarrow> transfers (p\<lparr>readopen := a, writeopen := b\<rparr>) ws rs"

lemma transfers_queue: "transfers p ws rs \<Longrightarrow> pipe_ok p \<and> ws = rs @ pipe_bytes p"
proof (induction rule: transfers.induct)
  case (fresh p)
  then show ?case by (simp add: pipe_ok_def pipe_bytes_def)
next
  case (put p ws rs b)
  then show ?case by (simp add: pipe_put)
next
  case (get p ws rs)
  then show ?case using pipe_get [of p] by simp
next
  case (close p ws rs a b)
  then show ?case by (simp add: pipe_ok_def pipe_bytes_def)
qed

subsection \<open>The operations\<close>

definition put_pipe :: "uint \<Rightarrow> pipe \<Rightarrow> 'z pipes_scheme \<Rightarrow> 'z pipes_scheme" where
  "put_pipe p q s = s\<lparr>pipe := (pipe s)(p := q)\<rparr>"

lemma put_pipe_simps [simp]:
  "pipe (put_pipe p q s) p = q" "put_pipe p q (put_pipe p r s) = put_pipe p q s" "put_pipe p (pipe s p) s = s"
  by (simp_all add: put_pipe_def)

lemma pipe_run [run_simps]:
  "set_pipe p f s = Ok ((), put_pipe p (f (pipe s p)) s)" "get_pipe p s = Ok (pipe s p, s)"
  by (simp_all add: set_pipe_def get_pipe_def run_simps put_pipe_def)

definition ends :: "pipe \<Rightarrow> bool \<times> bool" where
  "ends p = (readopen p, writeopen p)"

lemma ends_simps [simp]: "ends (pipe_put b p) = ends p" "ends (pipe_drop p) = ends p"
  by (simp_all add: ends_def pipe_put_def pipe_drop_def)

lemma write_bytes_run:
  "pipe_ok (pipe s p) \<Longrightarrow> length (pipe_bytes (pipe s p)) + length bs \<le> PIPESIZE \<Longrightarrow>
   \<exists>q. write_bytes p bs s = Ok (True, put_pipe p q s) \<and> pipe_ok q \<and>
     pipe_bytes q = pipe_bytes (pipe s p) @ bs \<and> ends q = ends (pipe s p)"
proof (induction bs arbitrary: s)
  case Nil
  then show ?case by (intro exI [of _ "pipe s p"]) (simp add: run_simps)
next
  case (Cons b bs)
  let ?s = "put_pipe p (pipe_put b (pipe s p)) s"
  have nf: "\<not> pipe_full (pipe s p)" using Cons.prems by (auto simp: pipe_full_iff)
  note put = pipe_put [OF Cons.prems(1) nf, of b]
  have "\<exists>q. write_bytes p bs ?s = Ok (True, put_pipe p q ?s) \<and> pipe_ok q \<and>
     pipe_bytes q = pipe_bytes (pipe ?s p) @ bs \<and> ends q = ends (pipe ?s p)"
    using Cons.prems put by (intro Cons.IH) simp_all
  then show ?case using nf put by (simp add: run_simps)
qed

lemma write_bytes_full:
  "pipe_ok (pipe s p) \<Longrightarrow> length bs > PIPESIZE - length (pipe_bytes (pipe s p)) \<Longrightarrow>
   \<exists>q b cs. write_bytes p bs s = write_bytes p (b # cs) (put_pipe p q s) \<and> pipe_ok q \<and> pipe_full q \<and> ends q = ends (pipe s p)"
proof (induction bs arbitrary: s)
  case (Cons b bs)
  show ?case
  proof (cases "pipe_full (pipe s p)")
    case True
    then show ?thesis using Cons.prems by (intro exI [of _ "pipe s p"] exI [of _ b] exI [of _ bs]) simp
  next
    case nf: False
    let ?s = "put_pipe p (pipe_put b (pipe s p)) s"
    note put = pipe_put [OF Cons.prems(1) nf, of b]
    have "length (pipe_bytes (pipe s p)) < PIPESIZE"
      using nf length_pipe_bytes [OF Cons.prems(1)] by (simp add: pipe_full_iff)
    then have "\<exists>q b cs. write_bytes p bs ?s = write_bytes p (b # cs) (put_pipe p q ?s) \<and> pipe_ok q \<and> pipe_full q \<and>
        ends q = ends (pipe ?s p)"
      using Cons.prems put by (intro Cons.IH) simp_all
    moreover have "write_bytes p (b # bs) s = write_bytes p bs ?s" using nf by (simp add: run_simps)
    ultimately show ?thesis by simp
  qed
qed simp

lemma read_bytes_run:
  "pipe_ok (pipe s p) \<Longrightarrow>
   \<exists>q. read_bytes p n s = Ok (take n (pipe_bytes (pipe s p)), put_pipe p q s) \<and> pipe_ok q \<and>
     pipe_bytes q = drop n (pipe_bytes (pipe s p)) \<and> ends q = ends (pipe s p)"
proof (induction n arbitrary: s)
  case 0
  then show ?case by (intro exI [of _ "pipe s p"]) (simp add: run_simps)
next
  case (Suc n)
  show ?case
  proof (cases "pipe_empty (pipe s p)")
    case True
    then show ?thesis using Suc.prems
      by (intro exI [of _ "pipe s p"]) (simp add: run_simps pipe_empty_iff)
  next
    case False
    let ?s = "put_pipe p (pipe_drop (pipe s p)) s"
    note get = pipe_get [OF False]
    have "\<exists>q. read_bytes p n ?s = Ok (take n (pipe_bytes (pipe ?s p)), put_pipe p q ?s) \<and> pipe_ok q \<and>
        pipe_bytes q = drop n (pipe_bytes (pipe ?s p)) \<and> ends q = ends (pipe ?s p)"
      using Suc.prems get by (intro Suc.IH) simp
    then show ?thesis using False get(1) by (auto simp: run_simps)
  qed
qed

lemma pipe_section:
  assumes "idle s w"
  obtains C L where "acquire (pipe_lock p) s = Ok ((), s\<lparr>fl_if := False, cpus := C, locks := L\<rparr>)"
    "\<forall>q pt. release (pipe_lock p) ((put_pipe p q (s\<lparr>fl_if := False, cpus := C, locks := L\<rparr>))\<lparr>ptable := pt\<rparr>) =
       Ok ((), (put_pipe p q s)\<lparr>ptable := pt\<rparr>)"
    "\<forall>q. release (pipe_lock p) (put_pipe p q (s\<lparr>fl_if := False, cpus := C, locks := L\<rparr>)) = Ok ((), put_pipe p q s)"
    "\<forall>q ch. wakeup ch (put_pipe p q (s\<lparr>fl_if := False, cpus := C, locks := L\<rparr>)) =
       Ok ((), (put_pipe p q (s\<lparr>fl_if := False, cpus := C, locks := L\<rparr>))\<lparr>ptable := wake_all ch (ptable s)\<rparr>)"
    "\<forall>q. curproc (put_pipe p q (s\<lparr>fl_if := False, cpus := C, locks := L\<rparr>)) =
       Ok (w, put_pipe p q (s\<lparr>fl_if := False, cpus := C, locks := L\<rparr>))"
    "ncli (cpus s (me s)) = 0 \<longrightarrow> (\<forall>q pt ch. sleep ch (pipe_lock p)
       ((put_pipe p q (s\<lparr>fl_if := False, cpus := C, locks := L\<rparr>))\<lparr>ptable := pt\<rparr>) = Blocked (asleep w ch (pipe_lock p) ((put_pipe p q (s\<lparr>fl_if := False, cpus := C, locks := L\<rparr>))\<lparr>ptable := pt\<rparr>)))"
proof -
  obtain C L where cs: "acquire (pipe_lock p) s = Ok ((), s\<lparr>fl_if := False, cpus := C, locks := L\<rparr>)"
    "\<forall>t. inside s C L t \<longrightarrow> release (pipe_lock p) t = Ok ((), t\<lparr>fl_if := fl_if s, cpus := cpus s, locks := locks s\<rparr>)"
    "\<forall>t. inside s C L t \<longrightarrow> cpu_ok t \<and> settled t \<and> cpu_proc (cpus t (me t)) = Some w \<and>
       held_lock (pipe_lock p) t \<and> (\<forall>l. l \<noteq> pipe_lock p \<longrightarrow> free_lock l t)"
    "ncli (cpus s (me s)) = 0 \<longrightarrow> pipe_lock p \<noteq> PtableLock \<longrightarrow> (\<forall>t ch. inside s C L t \<longrightarrow> sleep ch (pipe_lock p) t = Blocked (asleep w ch (pipe_lock p) t))"
    by (rule critical_section [OF assms])
  show ?thesis
  proof (rule that [OF cs(1)])
    show "\<forall>q pt. release (pipe_lock p) ((put_pipe p q (s\<lparr>fl_if := False, cpus := C, locks := L\<rparr>))\<lparr>ptable := pt\<rparr>) =
       Ok ((), (put_pipe p q s)\<lparr>ptable := pt\<rparr>)" by (simp add: cs put_pipe_def)
    show "\<forall>q. release (pipe_lock p) (put_pipe p q (s\<lparr>fl_if := False, cpus := C, locks := L\<rparr>)) = Ok ((), put_pipe p q s)"
      by (simp add: cs put_pipe_def)
    show "\<forall>q ch. wakeup ch (put_pipe p q (s\<lparr>fl_if := False, cpus := C, locks := L\<rparr>)) =
       Ok ((), (put_pipe p q (s\<lparr>fl_if := False, cpus := C, locks := L\<rparr>))\<lparr>ptable := wake_all ch (ptable s)\<rparr>)"
      by (simp add: wakeup_run cs(3) put_pipe_def)
    show "\<forall>q. curproc (put_pipe p q (s\<lparr>fl_if := False, cpus := C, locks := L\<rparr>)) =
       Ok (w, put_pipe p q (s\<lparr>fl_if := False, cpus := C, locks := L\<rparr>))"
      using cs(3) by (intro allI curproc_run) (simp_all add: put_pipe_def)
    show "ncli (cpus s (me s)) = 0 \<longrightarrow> (\<forall>q pt ch. sleep ch (pipe_lock p)
       ((put_pipe p q (s\<lparr>fl_if := False, cpus := C, locks := L\<rparr>))\<lparr>ptable := pt\<rparr>) = Blocked (asleep w ch (pipe_lock p) ((put_pipe p q (s\<lparr>fl_if := False, cpus := C, locks := L\<rparr>))\<lparr>ptable := pt\<rparr>)))"
      using cs(4) by (simp add: put_pipe_def)
  qed
qed

lemma pipewrite_run:
  assumes "idle s w" "pipe_ok (pipe s p)" "length (pipe_bytes (pipe s p)) + length bs \<le> PIPESIZE"
  shows "\<exists>q. pipewrite p bs s = Ok (int (length bs), (put_pipe p q s)\<lparr>ptable := wake_all (chan_read p) (ptable s)\<rparr>) \<and>
    pipe_ok q \<and> pipe_bytes q = pipe_bytes (pipe s p) @ bs \<and> ends q = ends (pipe s p)"
proof -
  obtain C L where cs: "acquire (pipe_lock p) s = Ok ((), s\<lparr>fl_if := False, cpus := C, locks := L\<rparr>)"
    "\<forall>q pt. release (pipe_lock p) ((put_pipe p q (s\<lparr>fl_if := False, cpus := C, locks := L\<rparr>))\<lparr>ptable := pt\<rparr>) =
       Ok ((), (put_pipe p q s)\<lparr>ptable := pt\<rparr>)"
    "\<forall>q ch. wakeup ch (put_pipe p q (s\<lparr>fl_if := False, cpus := C, locks := L\<rparr>)) =
       Ok ((), (put_pipe p q (s\<lparr>fl_if := False, cpus := C, locks := L\<rparr>))\<lparr>ptable := wake_all ch (ptable s)\<rparr>)"
    by (rule pipe_section [OF assms(1)])
  let ?s = "s\<lparr>fl_if := False, cpus := C, locks := L\<rparr>"
  obtain q where "write_bytes p bs ?s = Ok (True, put_pipe p q ?s)" "pipe_ok q"
    "pipe_bytes q = pipe_bytes (pipe s p) @ bs" "ends q = ends (pipe s p)"
    using write_bytes_run [of ?s p bs] assms(2,3) by auto
  then show ?thesis by (auto simp: pipewrite_def run_simps cs)
qed

lemma piperead_run:
  assumes "idle s w" "pipe_ok (pipe s p)" "pipe_bytes (pipe s p) \<noteq> [] \<or> \<not> writeopen (pipe s p)"
  shows "\<exists>q. piperead p n s = Ok ((int (min (length (pipe_bytes (pipe s p))) (nat n)), take (nat n) (pipe_bytes (pipe s p))),
      (put_pipe p q s)\<lparr>ptable := wake_all (chan_write p) (ptable s)\<rparr>) \<and>
    pipe_ok q \<and> pipe_bytes q = drop (nat n) (pipe_bytes (pipe s p)) \<and> ends q = ends (pipe s p)"
proof -
  obtain C L where cs: "acquire (pipe_lock p) s = Ok ((), s\<lparr>fl_if := False, cpus := C, locks := L\<rparr>)"
    "\<forall>q pt. release (pipe_lock p) ((put_pipe p q (s\<lparr>fl_if := False, cpus := C, locks := L\<rparr>))\<lparr>ptable := pt\<rparr>) =
       Ok ((), (put_pipe p q s)\<lparr>ptable := pt\<rparr>)"
    "\<forall>q ch. wakeup ch (put_pipe p q (s\<lparr>fl_if := False, cpus := C, locks := L\<rparr>)) =
       Ok ((), (put_pipe p q (s\<lparr>fl_if := False, cpus := C, locks := L\<rparr>))\<lparr>ptable := wake_all ch (ptable s)\<rparr>)"
    by (rule pipe_section [OF assms(1)])
  let ?s = "s\<lparr>fl_if := False, cpus := C, locks := L\<rparr>"
  obtain q where q: "read_bytes p (nat n) ?s = Ok (take (nat n) (pipe_bytes (pipe s p)), put_pipe p q ?s)" "pipe_ok q"
    "pipe_bytes q = drop (nat n) (pipe_bytes (pipe s p))" "ends q = ends (pipe s p)"
    using read_bytes_run [of ?s p "nat n"] assms(2) by auto
  have "\<not> (pipe_empty (pipe s p) \<and> writeopen (pipe s p))" using assms(3) by (auto simp: pipe_empty_iff)
  with q show ?thesis by (intro exI [of _ q]) (auto simp: piperead_def run_simps cs)
qed

text \<open>A write that does not fit, to a pipe nobody can read any more or by a killed process, fails; with a
  reader it waits.\<close>

lemma pipewrite_full:
  assumes "idle s w" "pipe_ok (pipe s p)" "PIPESIZE < length (pipe_bytes (pipe s p)) + length bs"
  shows "\<not> readopen (pipe s p) \<or> killed (ptable s w) \<Longrightarrow> \<exists>q. pipewrite p bs s = Ok (- 1, put_pipe p q s)"
    "readopen (pipe s p) \<Longrightarrow> \<not> killed (ptable s w) \<Longrightarrow> ncli (cpus s (me s)) = 0 \<Longrightarrow>
      \<exists>t. pipewrite p bs s = Blocked (asleep w (chan_write p) (pipe_lock p) t) \<and> pipe_full (pipe t p)"
proof -
  obtain C L where cs: "acquire (pipe_lock p) s = Ok ((), s\<lparr>fl_if := False, cpus := C, locks := L\<rparr>)"
    "\<forall>q. release (pipe_lock p) (put_pipe p q (s\<lparr>fl_if := False, cpus := C, locks := L\<rparr>)) = Ok ((), put_pipe p q s)"
    "\<forall>q. curproc (put_pipe p q (s\<lparr>fl_if := False, cpus := C, locks := L\<rparr>)) =
       Ok (w, put_pipe p q (s\<lparr>fl_if := False, cpus := C, locks := L\<rparr>))"
    "\<forall>q ch. wakeup ch (put_pipe p q (s\<lparr>fl_if := False, cpus := C, locks := L\<rparr>)) =
       Ok ((), (put_pipe p q (s\<lparr>fl_if := False, cpus := C, locks := L\<rparr>))\<lparr>ptable := wake_all ch (ptable s)\<rparr>)"
    "ncli (cpus s (me s)) = 0 \<longrightarrow> (\<forall>q pt ch. sleep ch (pipe_lock p)
       ((put_pipe p q (s\<lparr>fl_if := False, cpus := C, locks := L\<rparr>))\<lparr>ptable := pt\<rparr>) = Blocked (asleep w ch (pipe_lock p) ((put_pipe p q (s\<lparr>fl_if := False, cpus := C, locks := L\<rparr>))\<lparr>ptable := pt\<rparr>)))"
    by (rule pipe_section [OF assms(1)])
  let ?s = "s\<lparr>fl_if := False, cpus := C, locks := L\<rparr>"
  have "PIPESIZE - length (pipe_bytes (pipe ?s p)) < length bs" "pipe_ok (pipe ?s p)"
    using assms(2,3) length_pipe_bytes [OF assms(2)] by auto
  then obtain q b cs' where q: "write_bytes p bs ?s = write_bytes p (b # cs') (put_pipe p q ?s)" "pipe_full q" "ends q = ends (pipe s p)"
    using write_bytes_full [of ?s p bs] by (auto simp del: write_bytes.simps)
  have k: "ptable (put_pipe p q ?s) = ptable s" by (simp add: put_pipe_def)
  show "\<exists>q. pipewrite p bs s = Ok (- 1, put_pipe p q s)" if "\<not> readopen (pipe s p) \<or> killed (ptable s w)"
    using that q by (auto simp: pipewrite_def run_simps cs k ends_def)
  show "\<exists>t. pipewrite p bs s = Blocked (asleep w (chan_write p) (pipe_lock p) t) \<and> pipe_full (pipe t p)"
    if "readopen (pipe s p)" "\<not> killed (ptable s w)" "ncli (cpus s (me s)) = 0"
    using that q by (auto simp: pipewrite_def run_simps cs k ends_def)
qed

subsection \<open>A concrete pipe\<close>

definition demo_pipes :: "'z \<Rightarrow> 'z pipes_scheme" where
  "demo_pipes z = demo_devs \<lparr>pipe = (\<lambda>_. \<lparr>p_data = (\<lambda>_. 0), nread = 0xFFFFFFFE, nwrite = 0xFFFFFFFE,
     readopen = True, writeopen = True\<rparr>), \<dots> = z\<rparr>"

lemmas demo_pipes_defs = demo_pipes_def demo_devs_def demo_fsys_def demo_log_on_def demo_defs

lemma demo_pipes:
  "idle (demo_pipes z) 0" "pipe_ok (pipe (demo_pipes z) p)" "pipe_bytes (pipe (demo_pipes z) p) = []"
proof -
  show "idle (demo_pipes z) 0" unfolding demo_pipes_def by (rule demo_devs_idle)
  have "pipe (demo_pipes z) p = \<lparr>p_data = (\<lambda>_. 0), nread = 0xFFFFFFFE, nwrite = 0xFFFFFFFE, readopen = True, writeopen = True\<rparr>"
    by (simp add: demo_pipes_defs)
  then show "pipe_ok (pipe (demo_pipes z) p)" "pipe_bytes (pipe (demo_pipes z) p) = []"
    by (simp_all add: pipe_ok_def pipe_bytes_def)
qed

subsection \<open>Properties\<close>

text \<open>C15. A pipe is a queue under every interleaving: whichever way the byte transfers of writers and
  readers alternate, and however often the counters have wrapped, what was written is what
  was read followed by what the ring still holds, which is never more than its size.\<close>

theorem pipe_fifo:
  assumes "transfers p ws rs"
  shows "ws = rs @ pipe_bytes p \<and> length ws - length rs \<le> PIPESIZE"
  using transfers_queue [OF assms] length_pipe_bytes [of p] by auto

theorem pipe_fifo_witness:
  "\<exists>p. transfers p [7, 8] [7] \<and> pipe_bytes p = [8]"
proof -
  let ?p = "\<lparr>p_data = (\<lambda>_. 0), nread = 0, nwrite = 0, readopen = True, writeopen = True\<rparr>"
  have "transfers (pipe_put 7 ?p) ([] @ [7]) []" by (rule put [OF fresh]) (simp_all add: pipe_full_def)
  then have "transfers (pipe_put 8 (pipe_put 7 ?p)) (([] @ [7]) @ [8]) []"
    by (rule put) (simp add: pipe_full_def pipe_put_def)
  then have "transfers (pipe_drop (pipe_put 8 (pipe_put 7 ?p))) [7, 8] ([] @ [pipe_head (pipe_put 8 (pipe_put 7 ?p))])"
    by (intro get) (simp_all add: pipe_empty_def pipe_put_def)
  moreover have "pipe_head (pipe_put 8 (pipe_put 7 ?p)) = 7" by (simp add: pipe_head_def pipe_put_def)
  ultimately have t: "transfers (pipe_drop (pipe_put 8 (pipe_put 7 ?p))) [7, 8] [7]" by simp
  then show ?thesis using pipe_fifo [OF t] by auto
qed

text \<open>C16. What is written to a pipe is read from it: after a write that fits, a read of any length
  returns the bytes that were waiting followed by the new ones, cut off at that length, and
  both calls return their byte counts.\<close>

theorem pipe_write_read:
  assumes "idle s w" "pipe_ok (pipe s p)" "length (pipe_bytes (pipe s p)) + length bs \<le> PIPESIZE" "bs \<noteq> []"
  shows "\<exists>t u. pipewrite p bs s = Ok (int (length bs), t) \<and>
    piperead p n t = Ok ((int (length (take (nat n) (pipe_bytes (pipe s p) @ bs))), take (nat n) (pipe_bytes (pipe s p) @ bs)), u) \<and>
    pipe_bytes (pipe u p) = drop (nat n) (pipe_bytes (pipe s p) @ bs)"
proof -
  obtain q where w: "pipewrite p bs s = Ok (int (length bs), (put_pipe p q s)\<lparr>ptable := wake_all (chan_read p) (ptable s)\<rparr>)"
    "pipe_ok q" "pipe_bytes q = pipe_bytes (pipe s p) @ bs" using pipewrite_run [OF assms(1-3)] by blast
  let ?t = "(put_pipe p q s)\<lparr>ptable := wake_all (chan_read p) (ptable s)\<rparr>"
  have t: "pipe ?t p = q" "idle ?t w" using assms(1) idle_cong [of ?t s w] by (simp_all add: put_pipe_def)
  obtain q' where r: "piperead p n ?t = Ok ((int (min (length (pipe_bytes q)) (nat n)), take (nat n) (pipe_bytes q)),
      (put_pipe p q' ?t)\<lparr>ptable := wake_all (chan_write p) (ptable ?t)\<rparr>)" "pipe_bytes q' = drop (nat n) (pipe_bytes q)"
    using piperead_run [OF t(2), of p n] w(2,3) assms(4) unfolding t(1) by auto
  have "pipe ((put_pipe p q' ?t)\<lparr>ptable := wake_all (chan_write p) (ptable ?t)\<rparr>) p = q'" by (simp add: put_pipe_def)
  with w r show ?thesis by (intro exI conjI) (auto simp: min.commute)
qed

theorem pipe_write_read_witness:
  "\<exists>t u. pipewrite 0 [1, 2, 3] (demo_pipes ()) = Ok (3, t) \<and> piperead 0 2 t = Ok ((2, [1, 2]), u) \<and> pipe_bytes (pipe u 0) = [3]"
  using pipe_write_read [OF demo_pipes(1,2), of "()" 0 "[1, 2, 3]" 2] by (simp add: demo_pipes numeral_2_eq_2)

text \<open>A write that does not fit fails with -1 when nobody can read the pipe any more or the writer was
  killed. When there is a reader the writer goes to sleep on the pipe's write channel, and leaves the ring full.\<close>

lemma pipewrite_no_room:
  assumes "idle s w" "pipe_ok (pipe s p)" "PIPESIZE < length (pipe_bytes (pipe s p)) + length bs" "ncli (cpus s (me s)) = 0"
  shows "if readopen (pipe s p) \<and> \<not> killed (ptable s w)
    then \<exists>t. pipewrite p bs s = Blocked t \<and> state (ptable t w) = SLEEPING \<and> chan (ptable t w) = Some (chan_write p) \<and>
      pipe_full (pipe t p)
    else \<exists>t. pipewrite p bs s = Ok (- 1, t)"
  using pipewrite_full [OF assms(1-3)] assms(4)
  by (auto simp: asleep_def leave_def cli_off_def enter_def cli_on_def)

end
