(* ===== verification/File.thy ===== *)
theory File
  imports Pipe
begin

text \<open>
  The table of open files (\<open>file.c\<close>, \<open>file.h\<close>) and \<open>pipealloc\<close> of \<open>pipe.c\<close>. \<open>ftable.file[i]\<close> is
  \<open>ftab s i\<close>, a pointer to an open file is that index.
\<close>

abbreviation (input) NFILE :: nat where "NFILE \<equiv> 100"

datatype ftype = FD_NONE | FD_PIPE | FD_INODE

record file_t =
  f_type :: ftype
  f_ref :: int
  f_readable :: bool
  f_writable :: bool
  f_pipe :: uint
  f_ip :: nat
  f_off :: nat

record files = pipes +
  ftab :: "nat \<Rightarrow> file_t"

definition set_file :: "nat \<Rightarrow> (file_t \<Rightarrow> file_t) \<Rightarrow> ('z files_scheme, unit) kop" where
  "set_file i f = modk (\<lambda>s. s\<lparr>ftab := (ftab s)(i := f (ftab s i))\<rparr>)"

definition get_file :: "nat \<Rightarrow> ('z files_scheme, file_t) kop" where
  "get_file i = getk (\<lambda>s. ftab s i)"

definition fileinit :: "('z files_scheme, unit) kop" where
  "fileinit = initlock FtableLock"

definition filealloc :: "('z files_scheme, nat option) kop" where
  "filealloc =
     thenk (acquire FtableLock) (
     bindk (getk (\<lambda>s. find_slot (\<lambda>i. f_ref (ftab s i) = 0) 0 NFILE)) (\<lambda>r.
     case r of
       Some i \<Rightarrow> thenk (set_file i (\<lambda>f. f\<lparr>f_ref := 1\<rparr>)) (thenk (release FtableLock) (ret (Some i)))
     | None \<Rightarrow> thenk (release FtableLock) (ret None)))"

definition filedup :: "nat \<Rightarrow> ('z files_scheme, nat) kop" where
  "filedup i =
     thenk (acquire FtableLock) (
     bindk (get_file i) (\<lambda>f.
     if f_ref f < 1 then panic ''filedup''
     else thenk (set_file i (\<lambda>f. f\<lparr>f_ref := f_ref f + 1\<rparr>)) (
       thenk (release FtableLock) (ret i))))"

definition fileclose :: "nat \<Rightarrow> ('z files_scheme, unit) kop" where
  "fileclose i =
     thenk (acquire FtableLock) (
     bindk (get_file i) (\<lambda>f.
     if f_ref f < 1 then panic ''fileclose''
     else thenk (set_file i (\<lambda>f. f\<lparr>f_ref := f_ref f - 1\<rparr>)) (
       bindk (get_file i) (\<lambda>ff.
       if 0 < f_ref ff then release FtableLock
       else thenk (set_file i (\<lambda>f. f\<lparr>f_ref := 0\<rparr>)) (
         thenk (set_file i (\<lambda>f. f\<lparr>f_type := FD_NONE\<rparr>)) (
         thenk (release FtableLock)
           (if f_type ff = FD_PIPE then pipeclose (f_pipe ff) (f_writable ff)
            else if f_type ff = FD_INODE then
              thenk begin_op (thenk (iput (f_ip ff)) end_op)
            else ret ())))))))"

definition filestat :: "nat \<Rightarrow> ('z files_scheme, stat option) kop" where
  "filestat i =
     bindk (get_file i) (\<lambda>f.
     if f_type f = FD_INODE then
       thenk (ilock (f_ip f)) (
       bindk (stati (f_ip f)) (\<lambda>st.
       thenk (iunlock (f_ip f)) (ret (Some st))))
     else ret None)"

definition fileread :: "nat \<Rightarrow> int \<Rightarrow> ('z files_scheme, int \<times> byte list) kop" where
  "fileread i n =
     bindk (get_file i) (\<lambda>f.
     if \<not> f_readable f then ret (- 1, [])
     else if f_type f = FD_PIPE then piperead (f_pipe f) n
     else if f_type f = FD_INODE then
       thenk (ilock (f_ip f)) (
       bindk (readi (f_ip f) (f_off f) (nat (n mod 4294967296))) (\<lambda>(r, bs).
       thenk (whenk (0 < r) (set_file i (\<lambda>f. f\<lparr>f_off := (f_off f + nat r) mod 4294967296\<rparr>))) (
       thenk (iunlock (f_ip f)) (ret (r, bs)))))
     else panic ''fileread'')"

text \<open>One round of \<open>filewrite\<close> writes up to three blocks in a transaction of its own.\<close>

abbreviation (input) MAXWRITE :: nat where "MAXWRITE \<equiv> 1536"

fun filewrite_loop :: "nat \<Rightarrow> nat \<Rightarrow> byte list \<Rightarrow> ('z files_scheme, bool) kop" where
  "filewrite_loop 0 i bs = ret (bs = [])"
| "filewrite_loop (Suc k) i bs =
     (if bs \<noteq> [] then
        (let n1 = min (length bs) MAXWRITE in
         thenk begin_op (
         bindk (get_file i) (\<lambda>f.
         thenk (ilock (f_ip f)) (
         bindk (writei (f_ip f) (take n1 bs) (f_off f)) (\<lambda>r.
         thenk (whenk (0 < r) (set_file i (\<lambda>f. f\<lparr>f_off := (f_off f + nat r) mod 4294967296\<rparr>))) (
         thenk (iunlock (f_ip f)) (
         thenk end_op
           (if r < 0 then ret False
            else if r \<noteq> int n1 then panic ''short filewrite''
            else filewrite_loop k i (drop n1 bs)))))))))
      else ret True)"

definition filewrite :: "nat \<Rightarrow> byte list \<Rightarrow> ('z files_scheme, int) kop" where
  "filewrite i bs =
     bindk (get_file i) (\<lambda>f.
     if \<not> f_writable f then ret (- 1)
     else if f_type f = FD_PIPE then pipewrite (f_pipe f) bs
     else if f_type f = FD_INODE then
       bindk (filewrite_loop (length bs) i bs) (\<lambda>ok.
       ret (if ok then int (length bs) else - 1))
     else panic ''filewrite'')"

subsection \<open>Creating a pipe\<close>

definition pipealloc :: "('z files_scheme, (nat \<times> nat) option) kop" where
  "pipealloc =
     bindk filealloc (\<lambda>f0. case f0 of None \<Rightarrow> ret None | Some f0 \<Rightarrow>
     bindk filealloc (\<lambda>f1. case f1 of None \<Rightarrow> thenk (fileclose f0) (ret None) | Some f1 \<Rightarrow>
     bindk kalloc (\<lambda>p.
     if p = 0 then thenk (fileclose f0) (thenk (fileclose f1) (ret None))
     else
       thenk (set_pipe p (\<lambda>q. q\<lparr>readopen := True, writeopen := True, nwrite := 0, nread := 0\<rparr>)) (
       thenk (initlock (pipe_lock p)) (
       thenk (set_file f0 (\<lambda>f. f\<lparr>f_type := FD_PIPE, f_readable := True, f_writable := False, f_pipe := p\<rparr>)) (
       thenk (set_file f1 (\<lambda>f. f\<lparr>f_type := FD_PIPE, f_readable := False, f_writable := True, f_pipe := p\<rparr>))
         (ret (Some (f0, f1)))))))))"

subsection \<open>A concrete file table\<close>

definition demo_files :: "'z \<Rightarrow> 'z files_scheme" where
  "demo_files z = demo_pipes \<lparr>ftab = (\<lambda>_. \<lparr>f_type = FD_NONE, f_ref = 0, f_readable = False, f_writable = False,
     f_pipe = 0, f_ip = 0, f_off = 0\<rparr>), \<dots> = z\<rparr>"

lemma demo_files_idle: "idle (demo_files z) 0"
  unfolding demo_files_def by (rule demo_pipes(1))

lemmas demo_files_defs = demo_files_def demo_pipes_defs

end
