(* ===== verification/Proc.thy ===== *)
theory Proc
  imports File
begin

unbundle bit_operations_syntax

text \<open>
  Processes (\<open>proc.c\<close>): creation, exit, waiting, scheduling and signalling. The processor and
  lock primitives of that file, with \<open>sleep\<close> and \<open>wakeup\<close>, are in \<open>Machine\<close>.

  The trap frame and the saved context of a process, which C keeps at the top of its kernel
  stack, are fields of its table entry. \<open>swtch\<close> hands the processor over: \<open>exit_enter\<close>,
  \<open>yield_enter\<close> and \<open>sleep_enter\<close> give the state at that point, and the full operations are
  then \<open>Blocked\<close>. A pass of the scheduler takes what a process does until it switches back as
  the argument \<open>run\<close>. The program \<open>initcode\<close>, which the build links in, is an argument of
  \<open>userinit\<close>.
\<close>

record procs = files +
  ticks :: uint
  first :: bool
  ports :: "(nat \<times> nat) list"

subsection \<open>Creating processes\<close>

definition pinit :: "('z procs_scheme, unit) kop" where
  "pinit = initlock PtableLock"

definition new_context :: kcontext where
  "new_context = \<lparr>cx_edi = 0, cx_esi = 0, cx_ebx = 0, cx_ebp = 0, cx_eip = Forkret\<rparr>"

definition allocproc :: "('z kmem_scheme, nat option) kop" where
  "allocproc =
     thenk (acquire PtableLock) (
     bindk (getk (\<lambda>s. find_slot (\<lambda>i. state (ptable s i) = UNUSED) 0 NPROC)) (\<lambda>r.
     case r of None \<Rightarrow> thenk (release PtableLock) (ret None)
     | Some p \<Rightarrow>
       thenk (set_proc p (\<lambda>q. q\<lparr>state := EMBRYO\<rparr>)) (
       bindk (getk nextpid) (\<lambda>n.
       thenk (set_proc p (\<lambda>q. q\<lparr>pid := n\<rparr>)) (
       thenk (modk (\<lambda>s. s\<lparr>nextpid := n + 1\<rparr>)) (
       thenk (release PtableLock) (
       bindk kalloc (\<lambda>k.
       thenk (set_proc p (\<lambda>q. q\<lparr>kstack := k\<rparr>)) (
       if k = 0 then thenk (set_proc p (\<lambda>q. q\<lparr>state := UNUSED\<rparr>)) (ret None)
       else thenk (set_proc p (\<lambda>q. q\<lparr>kctx := new_context\<rparr>)) (ret (Some p)))))))))))"

definition safestr :: "byte list \<Rightarrow> nat \<Rightarrow> byte list" where
  "safestr name n = take (n - 1) (takeWhile (\<lambda>c. c \<noteq> 0) name)"

definition user_tf :: "trapframe \<Rightarrow> trapframe" where
  "user_tf t = t\<lparr>tf_cs := 27, tf_ds := 35, tf_es := 35, tf_ss := 35, tf_eflags := 0x200,
     tf_esp := 4096, tf_eip := 0\<rparr>"

definition userinit :: "byte list \<Rightarrow> ('z procs_scheme, unit) kop" where
  "userinit initcode =
     bindk allocproc (\<lambda>po.
     thenk (modk (\<lambda>s. s\<lparr>initproc := po\<rparr>)) (
     case po of None \<Rightarrow> panic ''null dereference: allocproc()'' | Some p \<Rightarrow>
     bindk setupkvm (\<lambda>d.
     thenk (set_proc p (\<lambda>q. q\<lparr>pgdir := d\<rparr>)) (
     if d = 0 then panic ''userinit: out of memory?''
     else
       thenk (inituvm d initcode) (
       thenk (set_proc p (\<lambda>q. q\<lparr>sz := 4096\<rparr>)) (
       thenk (set_proc p (\<lambda>q. q\<lparr>tf := user_tf zero_tf\<rparr>)) (
       thenk (set_proc p (\<lambda>q. q\<lparr>pname := map (of_nat \<circ> of_char) ''initcode''\<rparr>)) (
       bindk (namei [47]) (\<lambda>c.
       thenk (set_proc p (\<lambda>q. q\<lparr>cwd := c\<rparr>)) (
       thenk (acquire PtableLock) (
       thenk (set_proc p (\<lambda>q. q\<lparr>state := RUNNABLE\<rparr>))
         (release PtableLock))))))))))))"

definition growproc :: "int \<Rightarrow> ('z vm_scheme, int) kop" where
  "growproc n =
     bindk curproc (\<lambda>p.
     bindk (getk (\<lambda>s. (pgdir (ptable s p), sz (ptable s p)))) (\<lambda>(pd, size).
     let go = (\<lambda>size. thenk (set_proc p (\<lambda>q. q\<lparr>sz := size\<rparr>)) (thenk (switchuvm (Some p)) (ret 0))) in
     if 0 < n then
       bindk (allocuvm pd size (size + of_int n)) (\<lambda>size. if size = 0 then ret (- 1) else go size)
     else if n < 0 then
       bindk (deallocuvm pd size (size + of_int n)) (\<lambda>size. if size = 0 then ret (- 1) else go size)
     else go size))"

definition dup_files :: "nat \<Rightarrow> nat \<Rightarrow> ('z files_scheme, unit) kop" where
  "dup_files cur np = for_each [0..<NOFILE] (\<lambda>i.
     bindk (getk (\<lambda>s. ofile (ptable s cur) i)) (\<lambda>fo. case fo of None \<Rightarrow> ret ()
     | Some f \<Rightarrow> bindk (filedup f) (\<lambda>f. set_proc np (\<lambda>q. q\<lparr>ofile := (ofile q)(i := Some f)\<rparr>))))"

definition fork :: "('z procs_scheme, int) kop" where
  "fork =
     bindk curproc (\<lambda>cur.
     bindk allocproc (\<lambda>po. case po of None \<Rightarrow> ret (- 1) | Some np \<Rightarrow>
     bindk (getk (\<lambda>s. ptable s cur)) (\<lambda>c.
     bindk (copyuvm (pgdir c) (sz c)) (\<lambda>d.
     thenk (set_proc np (\<lambda>q. q\<lparr>pgdir := d\<rparr>)) (
     if d = 0 then
       bindk (getk (\<lambda>s. kstack (ptable s np))) (\<lambda>k.
       thenk (kfree k) (
       thenk (set_proc np (\<lambda>q. q\<lparr>kstack := 0\<rparr>)) (
       thenk (set_proc np (\<lambda>q. q\<lparr>state := UNUSED\<rparr>))
         (ret (- 1)))))
     else
       thenk (set_proc np (\<lambda>q. q\<lparr>sz := sz c, parent := Some cur, tf := (tf c)\<lparr>tf_eax := 0\<rparr>\<rparr>)) (
       thenk (dup_files cur np) (
       bindk (case cwd c of None \<Rightarrow> panic ''null dereference: cwd'' | Some i \<Rightarrow> idup i) (\<lambda>i.
       thenk (set_proc np (\<lambda>q. q\<lparr>cwd := Some i\<rparr>)) (
       thenk (set_proc np (\<lambda>q. q\<lparr>pname := safestr (pname c) 16\<rparr>)) (
       bindk (getk (\<lambda>s. pid (ptable s np))) (\<lambda>n.
       thenk (acquire PtableLock) (
       thenk (set_proc np (\<lambda>q. q\<lparr>state := RUNNABLE\<rparr>)) (
       thenk (release PtableLock)
         (ret n))))))))))))))"

subsection \<open>Exit and wait\<close>

definition close_files :: "nat \<Rightarrow> ('z files_scheme, unit) kop" where
  "close_files p = for_each [0..<NOFILE] (\<lambda>fd.
     bindk (getk (\<lambda>s. ofile (ptable s p) fd)) (\<lambda>fo. case fo of None \<Rightarrow> ret ()
     | Some f \<Rightarrow> thenk (fileclose f) (set_proc p (\<lambda>q. q\<lparr>ofile := (ofile q)(fd := None)\<rparr>))))"

definition wakeup_proc :: "nat option \<Rightarrow> ('z machine_scheme, unit) kop" where
  "wakeup_proc po = (case po of None \<Rightarrow> ret () | Some p \<Rightarrow> wakeup1 (ChanProc p))"

definition reparent :: "nat \<Rightarrow> ('z machine_scheme, unit) kop" where
  "reparent cur =
     bindk (getk initproc) (\<lambda>ini.
     for_each [0..<NPROC] (\<lambda>p.
       bindk (getk (\<lambda>s. ptable s p)) (\<lambda>q.
       whenk (parent q = Some cur) (
         thenk (set_proc p (\<lambda>q. q\<lparr>parent := ini\<rparr>))
           (whenk (state q = ZOMBIE) (wakeup_proc ini))))))"

text \<open>\<open>exit\<close> up to its \<open>swtch\<close>. A parent that is null wakes only processes sleeping on the null
  channel, of which there are none.\<close>

definition exit_enter :: "('z procs_scheme, unit) kop" where
  "exit_enter =
     bindk curproc (\<lambda>cur.
     bindk (getk initproc) (\<lambda>ini.
     if ini = Some cur then panic ''init exiting''
     else
       thenk (close_files cur) (
       thenk begin_op (
       bindk (getk (\<lambda>s. cwd (ptable s cur))) (\<lambda>c.
       thenk (case c of None \<Rightarrow> panic ''null dereference: cwd'' | Some i \<Rightarrow> iput i) (
       thenk end_op (
       thenk (set_proc cur (\<lambda>q. q\<lparr>cwd := None\<rparr>)) (
       thenk (acquire PtableLock) (
       bindk (getk (\<lambda>s. parent (ptable s cur))) (\<lambda>par.
       thenk (wakeup_proc par) (
       thenk (reparent cur) (
       thenk (set_proc cur (\<lambda>q. q\<lparr>state := ZOMBIE\<rparr>))
         sched))))))))))))"

definition exit :: "('z procs_scheme, 'a) kop" where
  "exit = thenk exit_enter block"

definition reap :: "nat \<Rightarrow> ('z kmem_scheme, int) kop" where
  "reap p =
     bindk (getk (\<lambda>s. ptable s p)) (\<lambda>q.
     thenk (kfree (kstack q)) (
     thenk (set_proc p (\<lambda>q. q\<lparr>kstack := 0\<rparr>)) (
     thenk (freevm (pgdir q)) (
     thenk (set_proc p (\<lambda>q. q\<lparr>pid := 0, parent := None, pname := [], killed := False, state := UNUSED\<rparr>)) (
     thenk (release PtableLock)
       (ret (pid q)))))))"

definition wait :: "('z kmem_scheme, int) kop" where
  "wait =
     bindk curproc (\<lambda>cur.
     thenk (acquire PtableLock) (
     bindk (getk (\<lambda>s. find_slot (\<lambda>p. parent (ptable s p) = Some cur \<and> state (ptable s p) = ZOMBIE) 0 NPROC)) (\<lambda>z.
     case z of Some p \<Rightarrow> reap p
     | None \<Rightarrow>
       bindk (getk (\<lambda>s. find_slot (\<lambda>p. parent (ptable s p) = Some cur) 0 NPROC)) (\<lambda>kid.
       bindk (getk (\<lambda>s. killed (ptable s cur))) (\<lambda>k.
       if kid = None \<or> k then thenk (release PtableLock) (ret (- 1))
       else thenk (sleep (ChanProc cur) PtableLock) block)))))"

subsection \<open>Scheduling\<close>

definition set_current :: "nat \<Rightarrow> nat option \<Rightarrow> ('z machine_scheme, unit) kop" where
  "set_current c po = set_cpu c (\<lambda>q. q\<lparr>cpu_proc := po\<rparr>)"

text \<open>One entry of the scheduler's loop over the table, and one pass over the whole table.\<close>

definition schedule_slot :: "(nat \<Rightarrow> ('z vm_scheme, unit) kop) \<Rightarrow> nat \<Rightarrow> nat \<Rightarrow> ('z vm_scheme, unit) kop" where
  "schedule_slot run c p =
     bindk (getk (\<lambda>s. state (ptable s p))) (\<lambda>st.
     whenk (st = RUNNABLE) (
       thenk (set_current c (Some p)) (
       thenk (switchuvm (Some p)) (
       thenk (set_proc p (\<lambda>q. q\<lparr>state := RUNNING\<rparr>)) (
       thenk (run p) (
       thenk switchkvm
         (set_current c None)))))))"

definition schedule_pass :: "(nat \<Rightarrow> ('z vm_scheme, unit) kop) \<Rightarrow> nat \<Rightarrow> ('z vm_scheme, unit) kop" where
  "schedule_pass run c =
     thenk sti (
     thenk (acquire PtableLock) (
     thenk (for_each [0..<NPROC] (schedule_slot run c))
       (release PtableLock)))"

fun scheduler :: "nat \<Rightarrow> (nat \<Rightarrow> ('z vm_scheme, unit) kop) \<Rightarrow> ('z vm_scheme, unit) kop" where
  "scheduler passes run =
     bindk mycpu (\<lambda>c.
     thenk (set_current c None)
       (for_each [0..<passes] (\<lambda>_. schedule_pass run c)))"

definition yield_enter :: "('z machine_scheme, unit) kop" where
  "yield_enter =
     thenk (acquire PtableLock) (
     bindk curproc (\<lambda>p.
     thenk (set_proc p (\<lambda>q. q\<lparr>state := RUNNABLE\<rparr>))
       sched))"

definition yield :: "('z machine_scheme, unit) kop" where
  "yield = thenk yield_enter block"

definition forkret :: "('z procs_scheme, unit) kop" where
  "forkret =
     thenk (release PtableLock) (
     bindk (getk first) (\<lambda>f.
     whenk f (
       thenk (modk (\<lambda>s. s\<lparr>first := False\<rparr>)) (
       thenk (iinit ROOTDEV)
         (initlog ROOTDEV)))))"

subsection \<open>Signals and listings\<close>

definition kill :: "int \<Rightarrow> ('z machine_scheme, int) kop" where
  "kill n =
     thenk (acquire PtableLock) (
     bindk (getk (\<lambda>s. find_slot (\<lambda>p. pid (ptable s p) = n) 0 NPROC)) (\<lambda>r.
     case r of Some p \<Rightarrow>
       thenk (set_proc p (\<lambda>q. q\<lparr>killed := True\<rparr>)) (
       thenk (set_proc p (\<lambda>q. if state q = SLEEPING then q\<lparr>state := RUNNABLE\<rparr> else q)) (
       thenk (release PtableLock) (ret 0)))
     | None \<Rightarrow> thenk (release PtableLock) (ret (- 1))))"

fun callerpcs :: "nat \<Rightarrow> uint \<Rightarrow> mem \<Rightarrow> uint list" where
  "callerpcs 0 ebp m = []"
| "callerpcs (Suc k) ebp m =
     (if ebp = 0 \<or> ebp < KERNBASE \<or> ebp = 0xFFFFFFFF then replicate (Suc k) 0
      else load32 (ebp + 4) m # callerpcs k (load32 ebp m) m)"

definition getcallerpcs :: "uint \<Rightarrow> mem \<Rightarrow> uint list" where
  "getcallerpcs v m = callerpcs 10 (v - 8) m"

fun state_name :: "procstate \<Rightarrow> string" where
  "state_name UNUSED = ''unused''"
| "state_name EMBRYO = ''embryo''"
| "state_name SLEEPING = ''sleep ''"
| "state_name RUNNABLE = ''runble''"
| "state_name RUNNING = ''run   ''"
| "state_name ZOMBIE = ''zombie''"

abbreviation chars :: "byte list \<Rightarrow> string" where "chars bs \<equiv> map (\<lambda>b. char_of (unat b)) bs"

definition procdump :: "('z kmem_scheme, unit) kop" where
  "procdump = for_each [0..<NPROC] (\<lambda>i.
     bindk (getk (\<lambda>s. ptable s i)) (\<lambda>p.
     whenk (state p \<noteq> UNUSED) (
       thenk (cprintf ''%d %s %s'' [Num (of_int (pid p)), Str (Some (state_name (state p))), Str (Some (chars (pname p)))]) (
       thenk (whenk (state p = SLEEPING) (
         bindk (getk (\<lambda>s. getcallerpcs (cx_ebp (kctx p) + 8) (pmem s))) (\<lambda>pcs.
         for_each (takeWhile (\<lambda>x. x \<noteq> 0) pcs) (\<lambda>pc. cprintf '' %p'' [Num pc]))))
         (cprintf [CHR 0x0A] [])))))"

definition getproccount :: "('z machine_scheme, int) kop" where
  "getproccount =
     thenk (acquire PtableLock) (
     bindk (getk (\<lambda>s. length (filter (\<lambda>i. state (ptable s i) \<noteq> UNUSED) [0..<NPROC]))) (\<lambda>n.
     thenk (release PtableLock) (ret (int n))))"

subsection \<open>A concrete state\<close>

definition demo_procs :: "'z \<Rightarrow> 'z procs_scheme" where
  "demo_procs z = demo_files \<lparr>ticks = 100, first = False, ports = [], \<dots> = z\<rparr>"

lemma demo_procs_idle: "idle (demo_procs z) 0"
  unfolding demo_procs_def by (rule demo_files_idle)

lemmas demo_procs_defs = demo_procs_def demo_files_defs

subsection \<open>The process table\<close>

lemma set_proc_run [run_simps]: "set_proc p f s = Ok ((), s\<lparr>ptable := (ptable s)(p := f (ptable s p))\<rparr>)"
  by (simp add: set_proc_def run_simps)

lemma kill_run:
  assumes "idle s w"
  shows "kill n s = (case find_slot (\<lambda>p. pid (ptable s p) = n) 0 NPROC of None \<Rightarrow> Ok (- 1, s)
    | Some p \<Rightarrow> Ok (0, s\<lparr>ptable := (ptable s)(p := (ptable s p)\<lparr>killed := True,
        state := if state (ptable s p) = SLEEPING then RUNNABLE else state (ptable s p)\<rparr>)\<rparr>))"
proof -
  obtain C L where cs: "acquire PtableLock s = Ok ((), s\<lparr>fl_if := False, cpus := C, locks := L\<rparr>)"
    "\<forall>t. inside s C L t \<longrightarrow> release PtableLock t = Ok ((), t\<lparr>fl_if := fl_if s, cpus := cpus s, locks := locks s\<rparr>)"
    by (rule critical_section [OF assms])
  show ?thesis by (simp add: kill_def run_simps cs split: option.split)
qed

text \<open>The slot that \<open>allocproc\<close> takes, and what is in it when there is a page for its kernel stack.\<close>

definition embryo :: "uint \<Rightarrow> int \<Rightarrow> proc \<Rightarrow> proc" where
  "embryo k n q = (if k = 0 then q\<lparr>pid := n, kstack := 0, state := UNUSED\<rparr>
     else q\<lparr>state := EMBRYO, pid := n, kstack := k, kctx := new_context\<rparr>)"

lemma allocproc_run:
  assumes "idle s w"
  shows "allocproc s = (case find_slot (\<lambda>i. state (ptable s i) = UNUSED) 0 NPROC of None \<Rightarrow> Ok (None, s)
    | Some p \<Rightarrow> Ok (if freelist s = 0 then None else Some p,
        (if freelist s = 0 then s else s\<lparr>freelist := load32 (freelist s) (pmem s)\<rparr>)
          \<lparr>nextpid := nextpid s + 1, ptable := (ptable s)(p := embryo (freelist s) (nextpid s) (ptable s p))\<rparr>))"
proof -
  obtain C L where cs: "acquire PtableLock s = Ok ((), s\<lparr>fl_if := False, cpus := C, locks := L\<rparr>)"
    "\<forall>t. inside s C L t \<longrightarrow> release PtableLock t = Ok ((), t\<lparr>fl_if := fl_if s, cpus := cpus s, locks := locks s\<rparr>)"
    by (rule critical_section [OF assms])
  show ?thesis
  proof (cases "find_slot (\<lambda>i. state (ptable s i) = UNUSED) 0 NPROC")
    case None
    then show ?thesis by (simp add: allocproc_def run_simps cs)
  next
    case (Some p)
    let ?s = "s\<lparr>ptable := (ptable s)(p := (ptable s p)\<lparr>state := EMBRYO, pid := nextpid s\<rparr>), nextpid := nextpid s + 1\<rparr>"
    have "idle ?s w" using assms idle_cong [of ?s s w] by simp
    then have "can_alloc w ?s" by (simp add: can_alloc_def)
    from kalloc_run [OF this] Some show ?thesis
      by (simp add: allocproc_def run_simps cs embryo_def)
  qed
qed

text \<open>Process identifiers: those in use are positive, distinct, and below the counter.\<close>

definition live :: "'z machine_scheme \<Rightarrow> nat \<Rightarrow> bool" where
  "live s p \<longleftrightarrow> p < NPROC \<and> state (ptable s p) \<noteq> UNUSED"

definition pids_ok :: "'z machine_scheme \<Rightarrow> bool" where
  "pids_ok s \<longleftrightarrow> 0 < nextpid s \<and> (\<forall>p. live s p \<longrightarrow> 0 < pid (ptable s p) \<and> pid (ptable s p) < nextpid s) \<and>
     (\<forall>p q. live s p \<longrightarrow> live s q \<longrightarrow> pid (ptable s p) = pid (ptable s q) \<longrightarrow> p = q)"

text \<open>The table after \<open>reparent\<close>: the children of \<open>cur\<close> are init's, and init is awake if one of them is
  already a zombie.\<close>

definition moved :: "nat option \<Rightarrow> nat \<Rightarrow> nat \<Rightarrow> (nat \<Rightarrow> proc) \<Rightarrow> nat \<Rightarrow> proc" where
  "moved ini cur k pt = (\<lambda>p. if p < k \<and> parent (pt p) = Some cur then (pt p)\<lparr>parent := ini\<rparr> else pt p)"

definition dead_child :: "nat \<Rightarrow> nat \<Rightarrow> (nat \<Rightarrow> proc) \<Rightarrow> bool" where
  "dead_child cur k pt \<longleftrightarrow> (\<exists>p<k. parent (pt p) = Some cur \<and> state (pt p) = ZOMBIE)"

definition adopted :: "nat option \<Rightarrow> nat \<Rightarrow> nat \<Rightarrow> (nat \<Rightarrow> proc) \<Rightarrow> nat \<Rightarrow> proc" where
  "adopted ini cur k pt = (case ini of
      Some i \<Rightarrow> if dead_child cur k pt then wake_all (ChanProc i) (moved ini cur k pt) else moved ini cur k pt
    | None \<Rightarrow> moved ini cur k pt)"

lemma moved_Suc:
  "moved ini cur (Suc k) pt = (if parent (pt k) = Some cur
     then (moved ini cur k pt)(k := (pt k)\<lparr>parent := ini\<rparr>) else moved ini cur k pt)"
  by (auto simp: moved_def fun_eq_iff less_Suc_eq)

lemma moved_at [simp]: "moved ini cur k pt k = pt k"
  by (simp add: moved_def)

lemma dead_child_Suc:
  "dead_child cur (Suc k) pt \<longleftrightarrow> dead_child cur k pt \<or> parent (pt k) = Some cur \<and> state (pt k) = ZOMBIE"
  by (auto simp: dead_child_def less_Suc_eq)

lemma wake_all_twice [simp]: "wake_all c (wake_all c f) = wake_all c f"
  by (simp add: wake_all_def wake_def fun_eq_iff)

lemma wake_all_parent:
  "(wake_all c f)(k := (wake_all c f k)\<lparr>parent := v\<rparr>) = wake_all c (f(k := (f k)\<lparr>parent := v\<rparr>))"
  by (simp add: wake_all_def wake_def fun_eq_iff)

lemma wake_all_state [simp]: "state (wake_all c f k) = ZOMBIE \<longleftrightarrow> state (f k) = ZOMBIE"
  by (simp add: wake_all_def wake_def)

lemma adopted_at [simp]:
  "parent (adopted ini cur k pt k) = parent (pt k)" "state (adopted ini cur k pt k) = ZOMBIE \<longleftrightarrow> state (pt k) = ZOMBIE"
  by (simp_all add: adopted_def split: option.split)

lemma adopted_Suc:
  "adopted ini cur (Suc k) pt =
    (let qt = adopted ini cur k pt; rt = qt(k := (qt k)\<lparr>parent := ini\<rparr>) in
     if parent (pt k) \<noteq> Some cur then qt
     else if state (pt k) = ZOMBIE then (case ini of None \<Rightarrow> rt | Some i \<Rightarrow> wake_all (ChanProc i) rt) else rt)"
  by (cases ini) (simp_all add: adopted_def moved_Suc dead_child_Suc wake_all_parent Let_def)

lemma reparent_run:
  "reparent cur s = Ok ((), s\<lparr>ptable := adopted (initproc s) cur NPROC (ptable s)\<rparr>)"
proof -
  let ?I = "\<lambda>k t. t = s\<lparr>ptable := adopted (initproc s) cur k (ptable s)\<rparr>"
  have "?I 0 s"
    by (cases "initproc s") (simp_all add: adopted_def moved_def dead_child_def)
  then have "wp (reparent cur) (\<lambda>_. ?I NPROC) s"
    unfolding reparent_def wp_simps
    by (intro wp_for_upt [where I = ?I])
       (auto simp: adopted_Suc Let_def wp_simps run_simps set_proc_def wakeup_proc_def wakeup1_def wake_all_def [symmetric] split: option.split)
  then show ?thesis by (auto simp: wp_def split: outcome.splits)
qed

subsection \<open>Properties\<close>

text \<open>C24. \<open>kill(0)\<close> succeeds although no process has identifier 0: it marks the first slot whose identifier is 0, which is an
  unused one, and the next process that is created in that slot is born killed.\<close>

theorem kill_zero:
  assumes "idle s w" "freelist s \<noteq> 0" "p < NPROC" "pid (ptable s p) = 0" "state (ptable s p) = UNUSED"
    and "\<forall>q<p. pid (ptable s q) \<noteq> 0 \<and> state (ptable s q) \<noteq> UNUSED"
  shows "\<exists>t u. kill 0 s = Ok (0, t) \<and> allocproc t = Ok (Some p, u) \<and> state (ptable u p) = EMBRYO \<and> killed (ptable u p)"
proof -
  let ?t = "s\<lparr>ptable := (ptable s)(p := (ptable s p)\<lparr>killed := True\<rparr>)\<rparr>"
  have "find_slot (\<lambda>q. pid (ptable s q) = 0) 0 NPROC = Some p" using assms by (intro find_slot_eqI) auto
  then have k: "kill 0 s = Ok (0, s\<lparr>ptable := (ptable s)(p := (ptable s p)\<lparr>killed := True, state := UNUSED\<rparr>)\<rparr>)"
    using kill_run [OF assms(1), of 0] assms(5) by simp
  have "(ptable s p)\<lparr>killed := True, state := UNUSED\<rparr> = (ptable s p)\<lparr>killed := True\<rparr>"
    using assms(5) by (cases "ptable s p") simp
  with k have k: "kill 0 s = Ok (0, ?t)" by (simp only:)
  have "find_slot (\<lambda>q. state (ptable ?t q) = UNUSED) 0 NPROC = Some p" using assms by (intro find_slot_eqI) auto
  moreover have "idle ?t w" using assms(1) idle_cong [of ?t s w] by simp
  ultimately have "\<exists>u. allocproc ?t = Ok (Some p, u) \<and> state (ptable u p) = EMBRYO \<and> killed (ptable u p)"
    using allocproc_run [of ?t w] assms(2) by (simp add: embryo_def)
  with k show ?thesis by blast
qed

theorem kill_zero_witness:
  "\<exists>t u. kill 0 (demo_procs ()) = Ok (0, t) \<and> allocproc t = Ok (Some 1, u) \<and> state (ptable u 1) = EMBRYO \<and> killed (ptable u 1)"
  using kill_zero [OF demo_procs_idle, of "()" 1] by (simp add: demo_procs_defs demo_proc_def)

end
