(* ===== verification/Usermem.thy ===== *)
theory Usermem
  imports Proc
begin

unbundle bit_operations_syntax

text \<open>
  How the kernel reaches the memory of the running process, and the fetching of system call
  arguments (\<open>syscall.c\<close>). A user address is translated by the page tables that \<open>cr3\<close> points to,
  as the processor does it; an address that is not mapped faults inside the kernel, which
  ends in the panic of \<open>trap\<close>. A pointer argument stays an address, a string argument is
  returned with the bytes it points to.
\<close>

subsection \<open>Address translation\<close>

definition mmu :: "'z vm_scheme \<Rightarrow> uint \<Rightarrow> uint option" where
  "mmu s va =
     (let pde = load32 (P2V (PTE_ADDR (cr3 s)) + 4 * PDX va) (pmem s) in
      if pde AND PTE_P = 0 then None
      else let pte = load32 (P2V (PTE_ADDR pde) + 4 * PTX va) (pmem s) in
        if pte AND PTE_P = 0 then None
        else Some (P2V (PTE_ADDR pte) + (va AND 0xFFF)))"

definition uload :: "uint \<Rightarrow> ('z vm_scheme, byte) kop" where
  "uload va = bindk (getk (\<lambda>s. mmu s va)) (\<lambda>a.
     case a of None \<Rightarrow> panic ''trap'' | Some a \<Rightarrow> getk (\<lambda>s. pmem s a))"

definition ustore :: "uint \<Rightarrow> byte \<Rightarrow> ('z vm_scheme, unit) kop" where
  "ustore va b = bindk (getk (\<lambda>s. mmu s va)) (\<lambda>a.
     case a of None \<Rightarrow> panic ''trap'' | Some a \<Rightarrow> modk (\<lambda>s. s\<lparr>pmem := (pmem s)(a := b)\<rparr>))"

fun uload_bytes :: "uint \<Rightarrow> nat \<Rightarrow> ('z vm_scheme, byte list) kop" where
  "uload_bytes va 0 = ret []"
| "uload_bytes va (Suc n) =
     bindk (uload va) (\<lambda>b. bindk (uload_bytes (va + 1) n) (\<lambda>bs. ret (b # bs)))"

fun ustore_bytes :: "uint \<Rightarrow> byte list \<Rightarrow> ('z vm_scheme, unit) kop" where
  "ustore_bytes va [] = ret ()"
| "ustore_bytes va (b # bs) = thenk (ustore va b) (ustore_bytes (va + 1) bs)"

subsection \<open>System call arguments\<close>

definition fetchint :: "uint \<Rightarrow> ('z vm_scheme, int option) kop" where
  "fetchint addr =
     bindk curproc (\<lambda>p.
     bindk (getk (\<lambda>s. sz (ptable s p))) (\<lambda>size.
     if size \<le> addr \<or> size < addr + 4 then ret None
     else bindk (uload_bytes addr 4) (\<lambda>bs. ret (Some (dec_int bs 0)))))"

fun scan_str :: "nat \<Rightarrow> uint \<Rightarrow> uint \<Rightarrow> ('z vm_scheme, byte list option) kop" where
  "scan_str 0 a ep = ret None"
| "scan_str (Suc k) a ep =
     (if a < ep then
        bindk (uload a) (\<lambda>c.
        if c = 0 then ret (Some [])
        else bindk (scan_str k (a + 1) ep) (\<lambda>r. ret (map_option (Cons c) r)))
      else ret None)"

text \<open>At most \<open>sz - addr\<close> bytes are looked at.\<close>

definition fetchstr :: "uint \<Rightarrow> ('z vm_scheme, byte list option) kop" where
  "fetchstr addr =
     bindk curproc (\<lambda>p.
     bindk (getk (\<lambda>s. sz (ptable s p))) (\<lambda>size.
     if size \<le> addr then ret None
     else scan_str (Suc (unat (size - addr))) addr size))"

definition argint :: "nat \<Rightarrow> ('z vm_scheme, int option) kop" where
  "argint n =
     bindk curproc (\<lambda>p.
     bindk (getk (\<lambda>s. tf_esp (tf (ptable s p)))) (\<lambda>esp.
     fetchint (esp + 4 + 4 * of_nat n)))"

definition argptr :: "nat \<Rightarrow> int \<Rightarrow> ('z vm_scheme, uint option) kop" where
  "argptr n len =
     bindk curproc (\<lambda>p.
     bindk (argint n) (\<lambda>io. case io of None \<Rightarrow> ret None | Some i \<Rightarrow>
     bindk (getk (\<lambda>s. sz (ptable s p))) (\<lambda>size.
     if len < 0 \<or> size \<le> of_int i \<or> size < of_int i + of_int len then ret None
     else ret (Some (of_int i)))))"

definition argstr :: "nat \<Rightarrow> ('z vm_scheme, byte list option) kop" where
  "argstr n =
     bindk (argint n) (\<lambda>io. case io of None \<Rightarrow> ret None | Some a \<Rightarrow> fetchstr (of_int a))"

subsection \<open>What the fetches return\<close>

lemma curproc_idle [run_simps]: "idle s p \<Longrightarrow> curproc s = Ok (p, s)"
  by (rule curproc_run) (simp_all add: idle_def runs_def)

text \<open>Byte \<open>a\<close> of the address space that \<open>cr3\<close> selects is \<open>b\<close>.\<close>

definition user_byte :: "'z vm_scheme \<Rightarrow> uint \<Rightarrow> byte \<Rightarrow> bool" where
  "user_byte s a b \<longleftrightarrow> (\<exists>k. mmu s a = Some k \<and> pmem s k = b)"

lemma uload_run: "uload a s = (case mmu s a of None \<Rightarrow> Panic ''trap'' | Some k \<Rightarrow> Ok (pmem s k, s))"
  by (simp add: uload_def run_simps split: option.split)

lemma uload_Ok: "uload a s = Ok (b, t) \<longleftrightarrow> t = s \<and> user_byte s a b"
  by (auto simp: uload_def user_byte_def run_simps split: option.splits)

lemma uload_bytes_Ok:
  "uload_bytes a n s = Ok (bs, t) \<longleftrightarrow> t = s \<and> length bs = n \<and> (\<forall>i<n. user_byte s (a + of_nat i) (bs ! i))"
proof (induction n arbitrary: a bs t)
  case 0
  then show ?case by (auto simp: run_simps)
next
  case (Suc n)
  have "uload_bytes a (Suc n) s = Ok (bs, t) \<longleftrightarrow>
      (\<exists>b r. bs = b # r \<and> uload a s = Ok (b, s) \<and> uload_bytes (a + 1) n s = Ok (r, t))"
    by (auto simp: bindk_run ret_run uload_run split: outcome.splits option.splits)
  also have "\<dots> \<longleftrightarrow> t = s \<and> length bs = Suc n \<and> (\<forall>i<Suc n. user_byte s (a + of_nat i) (bs ! i))"
    by (auto simp: Suc.IH uload_Ok All_less_Suc2 length_Suc_conv algebra_simps)
  finally show ?case .
qed

lemma fetchint_Ok:
  assumes "idle s p" "fetchint a s = Ok (r, t)"
  shows "t = s" "r = Some v \<Longrightarrow> a < sz (ptable s p) \<and> a + 4 \<le> sz (ptable s p)"
  using assms by (auto simp: fetchint_def run_simps bindk_run uload_bytes_Ok not_le not_less split: if_splits outcome.splits)

lemma argint_Ok: "idle s p \<Longrightarrow> argint n s = Ok (r, t) \<Longrightarrow> t = s"
  by (auto simp: argint_def run_simps intro: fetchint_Ok(1))

lemma scan_str_Ok:
  "scan_str k a ep s = Ok (Some str, t) \<Longrightarrow> t = s \<and> 0 \<notin> set str \<and> length str < k \<and>
    (\<forall>i\<le>length str. a + of_nat i < ep) \<and> (\<forall>i<length str. user_byte s (a + of_nat i) (str ! i)) \<and>
    user_byte s (a + of_nat (length str)) 0"
proof (induction k arbitrary: a str t)
  case (Suc k)
  then obtain c where c: "a < ep" "user_byte s a c" "uload a s = Ok (c, s)"
    by (auto simp: bindk_run uload_Ok ret_run split: if_splits outcome.splits)
  show ?case
  proof (cases "c = 0")
    case True
    then have "str = []" "t = s" using Suc.prems c by (auto simp: bindk_run ret_run)
    then show ?thesis using c True by simp
  next
    case False
    then obtain r where r: "str = c # r" "scan_str k (a + 1) ep s = Ok (Some r, t)"
      using Suc.prems c by (auto simp: bindk_run ret_run split: outcome.splits)
    note IH = Suc.IH [OF r(2)]
    have "a + of_nat i < ep" if "i \<le> length str" for i
      using that c IH r(1) by (cases i) (simp_all add: algebra_simps)
    moreover have "user_byte s (a + of_nat i) (str ! i)" if "i < length str" for i
      using that c IH r(1) by (cases i) (simp_all add: algebra_simps)
    ultimately show ?thesis using c False IH r(1) by (simp add: algebra_simps)
  qed
qed (simp add: ret_run)

subsection \<open>A concrete process\<close>

text \<open>One page of user memory at address 0, with a stack pointer of 0xF00, the argument 0x40 above it and the
  string \<open>ab\<close> at 0x40.\<close>

definition demo_user :: "'z \<Rightarrow> 'z vm_scheme" where
  "demo_user z = (demo_vm z)\<lparr>cr3 := 0x1000,
     pmem := (\<lambda>_. 0)(0x80001000 := 7, 0x80001001 := 0x20, 0x80002000 := 7, 0x80002001 := 0x30,
       0x80003F04 := 0x40, 0x80003040 := 97, 0x80003041 := 98),
     ptable := (\<lambda>i. (demo_proc i)\<lparr>sz := 0x1000, tf := (tf (demo_proc i))\<lparr>tf_esp := 0xF00\<rparr>\<rparr>)\<rparr>"

lemma demo_user_idle: "idle (demo_user z) 0"
  using demo_vm_idle [of z] idle_cong [of "demo_user z" "demo_vm z" 0] by (simp add: demo_user_def)

lemma demo_user_mmu: "a < 0x1000 \<Longrightarrow> mmu (demo_user z) a = Some (0x80003000 + a)"
proof -
  assume a: "a < 0x1000"
  then have "unat a < 4096" by (simp add: word_less_nat_alt)
  then have "PDX a = 0" "PTX a = 0" "a AND 0xFFF = a"
    using unat_PDX [of a] unat_PTX [of a] unat_offset [of a] by (simp_all add: word_unat_eq_iff)
  then show ?thesis by (simp add: mmu_def demo_user_def load32_def PTE_ADDR_def P2V_def)
qed

lemma demo_user_load:
  "a < 0x1000 \<Longrightarrow> uload a (demo_user z) = Ok (if a = 0xF04 then 0x40 else if a = 0x40 then 97 else if a = 0x41 then 98 else 0, demo_user z)"
proof -
  assume a: "a < 0x1000"
  then have n: "unat a < 4096" by (simp add: word_less_nat_alt)
  have "0x80003000 + a = 0x80003000 + b \<longleftrightarrow> a = b" for b by simp
  moreover have "0x80003000 + a \<noteq> c" if "c < 0x80003000" for c
  proof -
    have "unat (0x80003000 + a) = unat (0x80003000 :: uint) + unat a" using n by (intro unat_add_if) simp
    then show ?thesis using that by (auto simp: word_less_nat_alt)
  qed
  ultimately have "pmem (demo_user z) (0x80003000 + a) = (if a = 0xF04 then 0x40 else if a = 0x40 then 97 else if a = 0x41 then 98 else 0)"
    by (auto simp: demo_user_def)
  then show ?thesis using a by (simp add: uload_run demo_user_mmu)
qed

subsection \<open>Properties\<close>

text \<open>C21. A pointer argument that \<open>argptr\<close> accepts lies in the process: the whole block of the given size is
  below the process size, without wrap-around, for every process whose size stays in the user half
  of the address space; and the check changes nothing.\<close>

theorem argptr_inside:
  assumes "idle s w" "sz (ptable s w) \<le> 0x80000000" "len < 2147483648" "argptr n len s = Ok (r, t)"
  shows "t = s \<and> (\<forall>p. r = Some p \<longrightarrow> 0 \<le> len \<and> unat p < unat (sz (ptable s w)) \<and> unat p + nat len \<le> unat (sz (ptable s w)))"
proof -
  obtain io where io: "argint n s = Ok (io, s)"
    using assms(1,4) argint_Ok [OF assms(1)] by (auto simp: argptr_def run_simps bindk_run split: outcome.splits)
  have "0 \<le> len \<and> unat p < unat (sz (ptable s w)) \<and> unat p + nat len \<le> unat (sz (ptable s w))" if "r = Some p" for p
  proof -
    have l: "0 \<le> len" "p < sz (ptable s w)" "p + of_int len \<le> sz (ptable s w)"
      using assms(1,4) that io by (auto simp: argptr_def run_simps bindk_run not_le not_less split: option.splits if_splits)
    have "(of_int len :: uint) = of_nat (nat len)" using l(1) by simp
    then have "unat (of_int len :: uint) = nat len" using assms(3) by (simp only: unat_of_nat) simp
    moreover have "unat p < unat (sz (ptable s w))" "unat (sz (ptable s w)) \<le> 2147483648"
      using l(2) assms(2) by (simp_all add: word_less_nat_alt word_le_nat_alt)
    ultimately show ?thesis using l(1,3) assms(3) by (simp add: word_le_nat_alt unat_word_ariths)
  qed
  moreover have "t = s" using assms(1,4) io by (auto simp: argptr_def run_simps bindk_run split: option.splits if_splits)
  ultimately show ?thesis by blast
qed

theorem argptr_inside_witness:
  "argptr 0 16 (demo_user ()) = Ok (Some 0x40, demo_user ()) \<and> argptr 0 0x1000 (demo_user ()) = Ok (None, demo_user ()) \<and>
   unat (0x40 :: uint) + 16 \<le> 0x1000"
proof -
  let ?s = "demo_user ()"
  have z: "sz (ptable ?s 0) = 0x1000" "tf_esp (tf (ptable ?s 0)) = 0xF00" by (simp_all add: demo_user_def)
  have "uload_bytes 0xF04 (Suc (Suc (Suc (Suc 0)))) ?s = Ok ([0x40, 0, 0, 0], ?s)"
    by (simp add: run_simps demo_user_load)
  then have "uload_bytes 0xF04 4 ?s = Ok ([0x40, 0, 0, 0], ?s)" by (simp add: numeral_eq_Suc del: uload_bytes.simps)
  then have i: "argint 0 ?s = Ok (Some 0x40, ?s)"
    by (simp add: argint_def fetchint_def run_simps curproc_idle [OF demo_user_idle] z dec_int_def dec32_def del: uload_bytes.simps)
  have a: "argptr 0 16 ?s = Ok (Some 0x40, ?s)" "argptr 0 0x1000 ?s = Ok (None, ?s)"
    by (simp_all add: argptr_def run_simps curproc_idle [OF demo_user_idle] i z)
  then show ?thesis using argptr_inside [OF demo_user_idle _ _ a(1)] z by simp
qed

text \<open>C22. A string argument that \<open>fetchstr\<close> accepts is the bytes at its address up to the first zero, all of which,
  the zero included, lie in the process; and the fetch changes nothing.\<close>

theorem fetchstr_sound:
  assumes "idle s w" "fetchstr a s = Ok (Some str, t)"
  shows "t = s \<and> 0 \<notin> set str \<and> (\<forall>i\<le>length str. a + of_nat i < sz (ptable s w)) \<and>
    (\<forall>i<length str. user_byte s (a + of_nat i) (str ! i)) \<and> user_byte s (a + of_nat (length str)) 0"
  using assms scan_str_Ok [of _ a "sz (ptable s w)" s str t] 
  by (auto simp: fetchstr_def run_simps simp del: scan_str.simps split: if_splits)

theorem fetchstr_sound_witness:
  "fetchstr 0x40 (demo_user ()) = Ok (Some [97, 98], demo_user ()) \<and> user_byte (demo_user ()) 0x42 0"
proof -
  let ?s = "demo_user ()"
  have e: "4033 = Suc (Suc (Suc 4030))" by simp
  have k: "scan_str 4033 0x40 0x1000 ?s = Ok (Some [97, 98], ?s)"
    unfolding e by (simp only: scan_str.simps) (simp add: run_simps demo_user_load del: scan_str.simps)
  have "sz (ptable ?s 0) = 0x1000" by (simp add: demo_user_def)
  then have f: "fetchstr 0x40 ?s = Ok (Some [97, 98], ?s)"
    by (simp add: fetchstr_def run_simps curproc_idle [OF demo_user_idle] k del: scan_str.simps)
  then show ?thesis using fetchstr_sound [OF demo_user_idle f] by simp
qed

end
