(* ===== verification/Exec.thy ===== *)
theory Exec
  imports Usermem
begin

unbundle bit_operations_syntax

text \<open>
  Loading a program (\<open>exec.c\<close>, \<open>elf.h\<close>, and \<open>loaduvm\<close> of \<open>vm.c\<close>). The headers are read as the bytes
  of the file; the jumps to \<open>bad\<close> are calls of \<open>exec_bad\<close>, which undoes what was done so far.
\<close>

abbreviation (input) MAXARG :: nat where "MAXARG \<equiv> 32"
abbreviation (input) ELF_MAGIC :: nat where "ELF_MAGIC \<equiv> 0x464C457F"

record elfhdr =
  e_magic :: nat
  e_entry :: nat
  e_phoff :: nat
  e_phnum :: nat

record proghdr =
  ph_type :: nat
  ph_off :: nat
  ph_vaddr :: nat
  ph_filesz :: nat
  ph_memsz :: nat

definition dec_elfhdr :: "byte list \<Rightarrow> elfhdr" where
  "dec_elfhdr bs = \<lparr>e_magic = dec32 bs 0, e_entry = dec32 bs 24, e_phoff = dec32 bs 28, e_phnum = dec16 bs 44\<rparr>"

definition dec_proghdr :: "byte list \<Rightarrow> proghdr" where
  "dec_proghdr bs = \<lparr>ph_type = dec32 bs 0, ph_off = dec32 bs 4, ph_vaddr = dec32 bs 8,
     ph_filesz = dec32 bs 16, ph_memsz = dec32 bs 20\<rparr>"

fun load_pages :: "nat \<Rightarrow> uint \<Rightarrow> uint \<Rightarrow> nat \<Rightarrow> nat \<Rightarrow> nat \<Rightarrow> nat \<Rightarrow> ('z devs_scheme, int) kop" where
  "load_pages 0 pd addr ip off i usz = ret 0"
| "load_pages (Suc k) pd addr ip off i usz =
     (if i < usz then
        bindk (walkpgdir pd (addr + of_nat i) False) (\<lambda>pte.
        if pte = 0 then panic ''loaduvm: address should exist''
        else bindk (ld32 pte) (\<lambda>e.
          let n = (if usz - i < PGSIZE then usz - i else PGSIZE) in
          bindk (readi ip ((off + i) mod 4294967296) n) (\<lambda>(r, bs).
          thenk (modk (\<lambda>s. s\<lparr>pmem := store_bytes (P2V (PTE_ADDR e)) bs (pmem s)\<rparr>))
            (if r \<noteq> int n then ret (- 1)
             else load_pages k pd addr ip off (i + PGSIZE) usz))))
      else ret 0)"

definition loaduvm :: "uint \<Rightarrow> uint \<Rightarrow> nat \<Rightarrow> nat \<Rightarrow> nat \<Rightarrow> ('z devs_scheme, int) kop" where
  "loaduvm pd addr ip off usz =
     (if unat addr mod PGSIZE \<noteq> 0 then panic ''loaduvm: addr must be page aligned''
      else load_pages (Suc usz) pd addr ip off 0 usz)"

text \<open>The loop over the program headers: \<open>None\<close> is a jump to \<open>bad\<close>, otherwise the size reached.\<close>

fun load_segments :: "nat \<Rightarrow> uint \<Rightarrow> nat \<Rightarrow> nat \<Rightarrow> uint \<Rightarrow> ('z devs_scheme, uint option) kop" where
  "load_segments 0 pd ip off usz = ret (Some usz)"
| "load_segments (Suc k) pd ip off usz =
     bindk (readi ip off 32) (\<lambda>(r, bs).
     let ph = dec_proghdr bs; next = (off + 32) mod 4294967296 in
     if r \<noteq> 32 then ret None
     else if ph_type ph \<noteq> 1 then load_segments k pd ip next usz
     else if ph_memsz ph < ph_filesz ph then ret None
     else if (ph_vaddr ph + ph_memsz ph) mod 4294967296 < ph_vaddr ph then ret None
     else bindk (allocuvm pd usz (of_nat (ph_vaddr ph + ph_memsz ph))) (\<lambda>usz.
       if usz = 0 then ret None
       else if ph_vaddr ph mod PGSIZE \<noteq> 0 then ret None
       else bindk (loaduvm pd (of_nat (ph_vaddr ph)) ip (ph_off ph) (ph_filesz ph)) (\<lambda>r.
         if r < 0 then ret None else load_segments k pd ip next usz)))"

definition exec_bad :: "uint \<Rightarrow> nat option \<Rightarrow> ('z devs_scheme, int) kop" where
  "exec_bad pd ipo =
     thenk (whenk (pd \<noteq> 0) (freevm pd)) (
     thenk (case ipo of None \<Rightarrow> ret () | Some ip \<Rightarrow> thenk (iunlockput ip) end_op)
       (ret (- 1)))"

text \<open>Pushing the argument strings: the new stack pointer and their addresses.\<close>

fun push_args :: "uint \<Rightarrow> uint \<Rightarrow> nat \<Rightarrow> byte list list \<Rightarrow> ('z kmem_scheme, (uint \<times> uint list) option) kop" where
  "push_args pd sp argc [] = ret (Some (sp, []))"
| "push_args pd sp argc (a # as) =
     (if MAXARG \<le> argc then ret None
      else let sp = (sp - (of_nat (length a) + 1)) AND NOT 3 in
        bindk (copyout pd sp (a @ [0])) (\<lambda>r.
        if r < 0 then ret None
        else bindk (push_args pd sp (argc + 1) as) (\<lambda>q.
          ret (map_option (\<lambda>(e, us). (e, sp # us)) q))))"

definition words :: "uint list \<Rightarrow> byte list" where
  "words ws = concat (map (\<lambda>w. enc32 (unat w)) ws)"

definition base_name :: "byte list \<Rightarrow> byte list" where
  "base_name path = rev (takeWhile (\<lambda>c. c \<noteq> SLASH) (rev path))"

definition exec_commit :: "nat \<Rightarrow> byte list \<Rightarrow> uint \<Rightarrow> uint \<Rightarrow> uint \<Rightarrow> uint \<Rightarrow> ('z vm_scheme, int) kop" where
  "exec_commit p path pd usz entry sp =
     thenk (set_proc p (\<lambda>q. q\<lparr>pname := safestr (base_name path) 16\<rparr>)) (
     bindk (getk (\<lambda>s. pgdir (ptable s p))) (\<lambda>oldpd.
     thenk (set_proc p (\<lambda>q. q\<lparr>pgdir := pd\<rparr>)) (
     thenk (set_proc p (\<lambda>q. q\<lparr>sz := usz\<rparr>)) (
     thenk (set_proc p (\<lambda>q. q\<lparr>tf := (tf q)\<lparr>tf_eip := entry\<rparr>\<rparr>)) (
     thenk (set_proc p (\<lambda>q. q\<lparr>tf := (tf q)\<lparr>tf_esp := sp\<rparr>\<rparr>)) (
     thenk (switchuvm (Some p)) (
     thenk (freevm oldpd)
       (ret 0))))))))"

definition exec_stack :: "nat \<Rightarrow> byte list \<Rightarrow> byte list list \<Rightarrow> uint \<Rightarrow> uint \<Rightarrow> uint \<Rightarrow> ('z devs_scheme, int) kop" where
  "exec_stack p path argv pd usz entry =
     (let usz = PGROUNDUP usz in
      bindk (allocuvm pd usz (usz + 2 * 4096)) (\<lambda>usz.
      if usz = 0 then exec_bad pd None
      else thenk (clearpteu pd (usz - 2 * 4096)) (
        bindk (push_args pd usz 0 argv) (\<lambda>q. case q of None \<Rightarrow> exec_bad pd None | Some (sp, us) \<Rightarrow>
        let argc = of_nat (length us);
            ustack = [0xFFFFFFFF, argc, sp - (argc + 1) * 4] @ us @ [0];
            sp = sp - (3 + argc + 1) * 4 in
        bindk (copyout pd sp (words ustack)) (\<lambda>r.
        if r < 0 then exec_bad pd None
        else exec_commit p path pd usz entry sp)))))"

definition exec :: "byte list \<Rightarrow> byte list list \<Rightarrow> ('z devs_scheme, int) kop" where
  "exec path argv =
     bindk curproc (\<lambda>p.
     thenk begin_op (
     bindk (namei path) (\<lambda>ipo. case ipo of
       None \<Rightarrow> thenk end_op (thenk (cprintf (''exec: fail'' @ [CHR 0x0A]) []) (ret (- 1)))
     | Some ip \<Rightarrow>
       thenk (ilock ip) (
       bindk (readi ip 0 52) (\<lambda>(r, bs).
       let elf = dec_elfhdr bs in
       if r \<noteq> 52 then exec_bad 0 (Some ip)
       else if e_magic elf \<noteq> ELF_MAGIC then exec_bad 0 (Some ip)
       else bindk setupkvm (\<lambda>pd.
         if pd = 0 then exec_bad 0 (Some ip)
         else bindk (load_segments (e_phnum elf) pd ip (e_phoff elf) 0) (\<lambda>so. case so of
             None \<Rightarrow> exec_bad pd (Some ip)
           | Some usz \<Rightarrow>
             thenk (iunlockput ip) (
             thenk end_op
               (exec_stack p path argv pd usz (of_nat (e_entry elf)))))))))))"

end
