(* ===== verification/Sysfile.thy ===== *)
theory Sysfile
  imports Exec
begin

unbundle bit_operations_syntax

text \<open>
  The system calls on files (\<open>sysfile.c\<close>). A call fetches its arguments from the user stack, as
  the code does; the result is the integer that \<open>syscall\<close> stores in \<open>eax\<close>. The pieces between
  the jumps to \<open>bad\<close> of \<open>sys_link\<close> and \<open>sys_unlink\<close> are definitions of their own.
\<close>

abbreviation (input) O_RDONLY :: int where "O_RDONLY \<equiv> 0"
abbreviation (input) O_WRONLY :: int where "O_WRONLY \<equiv> 1"
abbreviation (input) O_RDWR :: int where "O_RDWR \<equiv> 2"
abbreviation (input) O_CREATE :: int where "O_CREATE \<equiv> 0x200"

subsection \<open>File descriptors\<close>

definition argfd :: "nat \<Rightarrow> ('z files_scheme, (nat \<times> nat) option) kop" where
  "argfd n =
     bindk (argint n) (\<lambda>io. case io of None \<Rightarrow> ret None | Some fd \<Rightarrow>
     if fd < 0 \<or> int NOFILE \<le> fd then ret None
     else bindk curproc (\<lambda>p.
       bindk (getk (\<lambda>s. ofile (ptable s p) (nat fd))) (\<lambda>fo.
       ret (map_option (\<lambda>f. (nat fd, f)) fo))))"

definition set_ofile :: "nat \<Rightarrow> nat \<Rightarrow> nat option \<Rightarrow> ('z machine_scheme, unit) kop" where
  "set_ofile p fd fo = set_proc p (\<lambda>q. q\<lparr>ofile := (ofile q)(fd := fo)\<rparr>)"

definition fdalloc :: "nat \<Rightarrow> ('z files_scheme, nat option) kop" where
  "fdalloc f =
     bindk curproc (\<lambda>p.
     bindk (getk (\<lambda>s. find_slot (\<lambda>fd. ofile (ptable s p) fd = None) 0 NOFILE)) (\<lambda>r.
     case r of None \<Rightarrow> ret None
     | Some fd \<Rightarrow> thenk (set_ofile p fd (Some f)) (ret (Some fd))))"

definition sys_dup :: "('z files_scheme, int) kop" where
  "sys_dup =
     bindk (argfd 0) (\<lambda>r. case r of None \<Rightarrow> ret (- 1) | Some (_, f) \<Rightarrow>
     bindk (fdalloc f) (\<lambda>r. case r of None \<Rightarrow> ret (- 1) | Some fd \<Rightarrow>
     bindk (filedup f) (\<lambda>_. ret (int fd))))"

definition arg_buf :: "('z files_scheme, (nat \<times> uint \<times> int) option) kop" where
  "arg_buf =
     bindk (argfd 0) (\<lambda>r. case r of None \<Rightarrow> ret None | Some (_, f) \<Rightarrow>
     bindk (argint 2) (\<lambda>no. case no of None \<Rightarrow> ret None | Some n \<Rightarrow>
     bindk (argptr 1 n) (\<lambda>po. ret (map_option (\<lambda>p. (f, p, n)) po))))"

definition sys_read :: "('z files_scheme, int) kop" where
  "sys_read =
     bindk arg_buf (\<lambda>a. case a of None \<Rightarrow> ret (- 1) | Some (f, p, n) \<Rightarrow>
     bindk (fileread f n) (\<lambda>(r, bs).
     thenk (ustore_bytes p bs) (ret r)))"

definition sys_write :: "('z files_scheme, int) kop" where
  "sys_write =
     bindk arg_buf (\<lambda>a. case a of None \<Rightarrow> ret (- 1) | Some (f, p, n) \<Rightarrow>
     bindk (uload_bytes p (nat n)) (\<lambda>bs. filewrite f bs))"

definition sys_close :: "('z files_scheme, int) kop" where
  "sys_close =
     bindk (argfd 0) (\<lambda>r. case r of None \<Rightarrow> ret (- 1) | Some (fd, f) \<Rightarrow>
     bindk curproc (\<lambda>p.
     thenk (set_ofile p fd None) (
     thenk (fileclose f) (ret 0))))"

text \<open>Storing the fields of a \<open>struct stat\<close> in user memory leaves its padding alone.\<close>

definition put_stat :: "uint \<Rightarrow> stat \<Rightarrow> ('z vm_scheme, unit) kop" where
  "put_stat p st =
     thenk (ustore_bytes (p + 4) (enc32 (st_dev st))) (
     thenk (ustore_bytes (p + 8) (enc32 (st_ino st))) (
     thenk (ustore_bytes p (enc_short (st_type st))) (
     thenk (ustore_bytes (p + 12) (enc_short (st_nlink st)))
       (ustore_bytes (p + 16) (enc32 (st_size st))))))"

definition sys_fstat :: "('z files_scheme, int) kop" where
  "sys_fstat =
     bindk (argfd 0) (\<lambda>r. case r of None \<Rightarrow> ret (- 1) | Some (_, f) \<Rightarrow>
     bindk (argptr 1 20) (\<lambda>po. case po of None \<Rightarrow> ret (- 1) | Some p \<Rightarrow>
     bindk (filestat f) (\<lambda>so. case so of None \<Rightarrow> ret (- 1) | Some st \<Rightarrow>
     thenk (put_stat p st) (ret 0))))"

subsection \<open>Links\<close>

text \<open>Conversion to \<open>short\<close>.\<close>

definition short :: "int \<Rightarrow> int" where
  "short n = (let u = n mod 65536 in if u < 32768 then u else u - 65536)"

definition add_nlink :: "nat \<Rightarrow> int \<Rightarrow> ('z fsys_scheme, unit) kop" where
  "add_nlink ip k = thenk (set_d ip (\<lambda>d. d\<lparr>d_nlink := short (d_nlink d + k)\<rparr>)) (iupdate ip)"

definition link_bad :: "nat \<Rightarrow> ('z devs_scheme, int) kop" where
  "link_bad ip =
     thenk (ilock ip) (
     thenk (add_nlink ip (- 1)) (
     thenk (iunlockput ip) (
     thenk end_op (ret (- 1)))))"

definition sys_link :: "('z files_scheme, int) kop" where
  "sys_link =
     bindk (argstr 0) (\<lambda>oo. case oo of None \<Rightarrow> ret (- 1) | Some old \<Rightarrow>
     bindk (argstr 1) (\<lambda>no. case no of None \<Rightarrow> ret (- 1) | Some new \<Rightarrow>
     thenk begin_op (
     bindk (namei old) (\<lambda>io. case io of None \<Rightarrow> thenk end_op (ret (- 1)) | Some ip \<Rightarrow>
     thenk (ilock ip) (
     bindk (get_inode ip) (\<lambda>i.
     if d_type (i_d i) = T_DIR then thenk (iunlockput ip) (thenk end_op (ret (- 1)))
     else
       thenk (add_nlink ip 1) (
       thenk (iunlock ip) (
       bindk (nameiparent new) (\<lambda>r. case r of None \<Rightarrow> link_bad ip | Some (dp, name) \<Rightarrow>
       thenk (ilock dp) (
       bindk (getk (\<lambda>s. (i_dev (inode s dp), i_dev (inode s ip), i_inum (inode s ip)))) (\<lambda>(dd, di, inum).
       bindk (if dd \<noteq> di then ret (- 1) else dirlink dp name inum) (\<lambda>r.
       if r < 0 then thenk (iunlockput dp) (link_bad ip)
       else
         thenk (iunlockput dp) (
         thenk (iput ip) (
         thenk end_op (ret 0)))))))))))))))"

fun isdirempty_from :: "nat \<Rightarrow> nat \<Rightarrow> nat \<Rightarrow> ('z devs_scheme, bool) kop" where
  "isdirempty_from 0 dp off = ret True"
| "isdirempty_from (Suc k) dp off =
     bindk (get_inode dp) (\<lambda>i.
     if off < d_size (i_d i) then
       bindk (readi dp off 16) (\<lambda>(r, bs).
       if r \<noteq> 16 then panic ''isdirempty: readi''
       else if de_inum (dec_dirent bs) \<noteq> 0 then ret False
       else isdirempty_from k dp (off + 16))
     else ret True)"

definition isdirempty :: "nat \<Rightarrow> ('z devs_scheme, bool) kop" where
  "isdirempty dp =
     bindk (getk (\<lambda>s. d_size (i_d (inode s dp)))) (\<lambda>n. isdirempty_from (Suc n) dp 32)"

definition unlink_bad :: "nat \<Rightarrow> ('z devs_scheme, int) kop" where
  "unlink_bad dp = thenk (iunlockput dp) (thenk end_op (ret (- 1)))"

definition unlink_entry :: "nat \<Rightarrow> nat \<Rightarrow> nat \<Rightarrow> ('z devs_scheme, int) kop" where
  "unlink_entry dp ip off =
     bindk (writei dp (replicate 16 0) off) (\<lambda>r.
     if r \<noteq> 16 then panic ''unlink: writei''
     else bindk (get_inode ip) (\<lambda>i.
       thenk (whenk (d_type (i_d i) = T_DIR) (add_nlink dp (- 1))) (
       thenk (iunlockput dp) (
       thenk (add_nlink ip (- 1)) (
       thenk (iunlockput ip) (
       thenk end_op (ret 0)))))))"

definition sys_unlink :: "('z files_scheme, int) kop" where
  "sys_unlink =
     bindk (argstr 0) (\<lambda>po. case po of None \<Rightarrow> ret (- 1) | Some path \<Rightarrow>
     thenk begin_op (
     bindk (nameiparent path) (\<lambda>r. case r of None \<Rightarrow> thenk end_op (ret (- 1)) | Some (dp, name) \<Rightarrow>
     thenk (ilock dp) (
     if namecmp name [46] = 0 \<or> namecmp name [46, 46] = 0 then unlink_bad dp
     else bindk (dirlookup dp name) (\<lambda>r. case r of None \<Rightarrow> unlink_bad dp | Some (ip, off) \<Rightarrow>
       thenk (ilock ip) (
       bindk (get_inode ip) (\<lambda>i.
       if d_nlink (i_d i) < 1 then panic ''unlink: nlink < 1''
       else bindk (if d_type (i_d i) = T_DIR then isdirempty ip else ret True) (\<lambda>e.
         if \<not> e then thenk (iunlockput ip) (unlink_bad dp)
         else unlink_entry dp ip off))))))))"

subsection \<open>Creating and opening\<close>

definition create :: "byte list \<Rightarrow> int \<Rightarrow> int \<Rightarrow> int \<Rightarrow> ('z devs_scheme, nat option) kop" where
  "create path typ major minor =
     bindk (nameiparent path) (\<lambda>r. case r of None \<Rightarrow> ret None | Some (dp, name) \<Rightarrow>
     thenk (ilock dp) (
     bindk (dirlookup dp name) (\<lambda>r. case r of
       Some (ip, _) \<Rightarrow>
         thenk (iunlockput dp) (
         thenk (ilock ip) (
         bindk (get_inode ip) (\<lambda>i.
         if typ = T_FILE \<and> d_type (i_d i) = T_FILE then ret (Some ip)
         else thenk (iunlockput ip) (ret None))))
     | None \<Rightarrow>
         bindk (getk (\<lambda>s. (i_dev (inode s dp), i_inum (inode s dp)))) (\<lambda>(dev, dinum).
         bindk (ialloc dev typ) (\<lambda>ip.
         thenk (ilock ip) (
         thenk (set_d ip (\<lambda>d. d\<lparr>d_major := major, d_minor := minor, d_nlink := 1\<rparr>)) (
         thenk (iupdate ip) (
         bindk (getk (\<lambda>s. i_inum (inode s ip))) (\<lambda>inum.
         thenk (whenk (typ = T_DIR) (
           thenk (add_nlink dp 1) (
           bindk (dirlink ip [46] inum) (\<lambda>r1.
           if r1 < 0 then panic ''create dots''
           else bindk (dirlink ip [46, 46] dinum) (\<lambda>r2. whenk (r2 < 0) (panic ''create dots'')))))) (
         bindk (dirlink dp name inum) (\<lambda>r.
         if r < 0 then panic ''create: dirlink''
         else thenk (iunlockput dp) (ret (Some ip)))))))))))))"

definition open_inode :: "byte list \<Rightarrow> int \<Rightarrow> ('z devs_scheme, nat option) kop" where
  "open_inode path omode =
     (if (of_int omode :: uint) AND 0x200 \<noteq> 0 then create path T_FILE 0 0
      else bindk (namei path) (\<lambda>io. case io of None \<Rightarrow> ret None | Some ip \<Rightarrow>
        thenk (ilock ip) (
        bindk (get_inode ip) (\<lambda>i.
        if d_type (i_d i) = T_DIR \<and> omode \<noteq> O_RDONLY then thenk (iunlockput ip) (ret None)
        else ret (Some ip)))))"

definition sys_open :: "('z files_scheme, int) kop" where
  "sys_open =
     bindk (argstr 0) (\<lambda>po. case po of None \<Rightarrow> ret (- 1) | Some path \<Rightarrow>
     bindk (argint 1) (\<lambda>mo. case mo of None \<Rightarrow> ret (- 1) | Some omode \<Rightarrow>
     thenk begin_op (
     bindk (open_inode path omode) (\<lambda>io. case io of None \<Rightarrow> thenk end_op (ret (- 1)) | Some ip \<Rightarrow>
     bindk filealloc (\<lambda>fo. case fo of None \<Rightarrow> thenk (iunlockput ip) (thenk end_op (ret (- 1))) | Some f \<Rightarrow>
     bindk (fdalloc f) (\<lambda>fdo. case fdo of
       None \<Rightarrow> thenk (fileclose f) (thenk (iunlockput ip) (thenk end_op (ret (- 1))))
     | Some fd \<Rightarrow>
       thenk (iunlock ip) (
       thenk end_op (
       thenk (set_file f (\<lambda>q. q\<lparr>f_type := FD_INODE, f_ip := ip, f_off := 0,
         f_readable := (of_int omode :: uint) AND 1 = 0,
         f_writable := (of_int omode :: uint) AND 1 \<noteq> 0 \<or> (of_int omode :: uint) AND 2 \<noteq> 0\<rparr>))
         (ret (int fd))))))))))"

definition finish_create :: "nat option \<Rightarrow> ('z devs_scheme, int) kop" where
  "finish_create io =
     (case io of None \<Rightarrow> thenk end_op (ret (- 1))
      | Some ip \<Rightarrow> thenk (iunlockput ip) (thenk end_op (ret 0)))"

definition sys_mkdir :: "('z files_scheme, int) kop" where
  "sys_mkdir =
     thenk begin_op (
     bindk (argstr 0) (\<lambda>po.
     bindk (case po of None \<Rightarrow> ret None | Some path \<Rightarrow> create path T_DIR 0 0) finish_create))"

definition sys_mknod :: "('z files_scheme, int) kop" where
  "sys_mknod =
     thenk begin_op (
     bindk (argstr 0) (\<lambda>po. case po of None \<Rightarrow> finish_create None | Some path \<Rightarrow>
     bindk (argint 1) (\<lambda>a. case a of None \<Rightarrow> finish_create None | Some major \<Rightarrow>
     bindk (argint 2) (\<lambda>b. case b of None \<Rightarrow> finish_create None | Some minor \<Rightarrow>
     bindk (create path T_DEV (short major) (short minor)) finish_create))))"

definition sys_chdir :: "('z files_scheme, int) kop" where
  "sys_chdir =
     bindk curproc (\<lambda>p.
     thenk begin_op (
     bindk (argstr 0) (\<lambda>po.
     bindk (case po of None \<Rightarrow> ret None | Some path \<Rightarrow> namei path) (\<lambda>io.
     case io of None \<Rightarrow> thenk end_op (ret (- 1)) | Some ip \<Rightarrow>
     thenk (ilock ip) (
     bindk (get_inode ip) (\<lambda>i.
     if d_type (i_d i) \<noteq> T_DIR then thenk (iunlockput ip) (thenk end_op (ret (- 1)))
     else
       thenk (iunlock ip) (
       bindk (getk (\<lambda>s. cwd (ptable s p))) (\<lambda>c.
       thenk (case c of None \<Rightarrow> panic ''null dereference: cwd'' | Some old \<Rightarrow> iput old) (
       thenk end_op (
       thenk (set_proc p (\<lambda>q. q\<lparr>cwd := Some ip\<rparr>))
         (ret 0)))))))))))"

fun fetch_argv :: "nat \<Rightarrow> uint \<Rightarrow> nat \<Rightarrow> ('z vm_scheme, byte list list option) kop" where
  "fetch_argv 0 uargv i = ret None"
| "fetch_argv (Suc k) uargv i =
     bindk (fetchint (uargv + 4 * of_nat i)) (\<lambda>ao. case ao of None \<Rightarrow> ret None | Some a \<Rightarrow>
     if a = 0 then ret (Some [])
     else bindk (fetchstr (of_int a)) (\<lambda>so. case so of None \<Rightarrow> ret None | Some x \<Rightarrow>
       bindk (fetch_argv k uargv (i + 1)) (\<lambda>r. ret (map_option (Cons x) r))))"

definition sys_exec :: "('z files_scheme, int) kop" where
  "sys_exec =
     bindk (argstr 0) (\<lambda>po. case po of None \<Rightarrow> ret (- 1) | Some path \<Rightarrow>
     bindk (argint 1) (\<lambda>uo. case uo of None \<Rightarrow> ret (- 1) | Some uargv \<Rightarrow>
     bindk (fetch_argv MAXARG (of_int uargv) 0) (\<lambda>ao. case ao of None \<Rightarrow> ret (- 1) | Some argv \<Rightarrow>
     exec path argv)))"

definition sys_pipe :: "('z files_scheme, int) kop" where
  "sys_pipe =
     bindk (argptr 0 8) (\<lambda>po. case po of None \<Rightarrow> ret (- 1) | Some fdp \<Rightarrow>
     bindk pipealloc (\<lambda>r. case r of None \<Rightarrow> ret (- 1) | Some (rd, wr) \<Rightarrow>
     bindk (fdalloc rd) (\<lambda>a. case a of
       None \<Rightarrow> thenk (fileclose rd) (thenk (fileclose wr) (ret (- 1)))
     | Some fd0 \<Rightarrow>
       bindk (fdalloc wr) (\<lambda>b. case b of
         None \<Rightarrow>
           bindk curproc (\<lambda>p.
           thenk (set_ofile p fd0 None) (
           thenk (fileclose rd) (thenk (fileclose wr) (ret (- 1)))))
       | Some fd1 \<Rightarrow> thenk (ustore_bytes fdp (enc32 fd0 @ enc32 fd1)) (ret 0)))))"

end
