(* ===== verification/Kbd.thy ===== *)
theory Kbd
  imports Usermem
begin

unbundle bit_operations_syntax

text \<open>
  Console input: the keyboard driver (\<open>kbd.c\<close> with the scan code tables of \<open>kbd.h\<close>), the serial
  port's receiver (\<open>uart.c\<close>) and the line editor they feed (\<open>consoleintr\<close> of \<open>console.c\<close>).
  \<open>kbd_in\<close> and \<open>uart_in\<close> are the bytes waiting in the two controllers; reading one takes it out,
  so the interrupt loop runs once per waiting byte and once more to find none.
\<close>

abbreviation (input) SHIFT :: uint where "SHIFT \<equiv> 1"
abbreviation (input) CTL :: uint where "CTL \<equiv> 2"
abbreviation (input) CAPSLOCK :: uint where "CAPSLOCK \<equiv> 8"
abbreviation (input) E0ESC :: uint where "E0ESC \<equiv> 64"

record kbds = procs +
  kbd_shift :: uint
  kbd_in :: "byte list"

subsection \<open>Scan codes\<close>

definition shiftcode :: "nat \<Rightarrow> uint" where
  "shiftcode i =
     (if i = 0x1D \<or> i = 0x9D then 2 else if i = 0x2A \<or> i = 0x36 then 1
      else if i = 0x38 \<or> i = 0xB8 then 4 else 0)"

definition togglecode :: "nat \<Rightarrow> uint" where
  "togglecode i = (if i = 0x3A then 8 else if i = 0x45 then 16 else if i = 0x46 then 32 else 0)"

text \<open>The designated entries above the main block, which the three maps share but for the two
  keypad keys.\<close>

definition keypad :: "nat \<Rightarrow> nat \<Rightarrow> nat \<Rightarrow> nat" where
  "keypad ent slash i =
     (if i = 0x9C then ent else if i = 0xB5 then slash
      else if i = 0xC8 then 0xE2 else if i = 0xD0 then 0xE3
      else if i = 0xC9 then 0xE6 else if i = 0xD1 then 0xE7
      else if i = 0xCB then 0xE4 else if i = 0xCD then 0xE5
      else if i = 0x97 then 0xE0 else if i = 0xCF then 0xE1
      else if i = 0xD2 then 0xE8 else if i = 0xD3 then 0xE9 else 0)"

definition map_of_table :: "nat list \<Rightarrow> (nat \<Rightarrow> nat) \<Rightarrow> nat \<Rightarrow> nat" where
  "map_of_table xs rest i = (if i < length xs then xs ! i else rest i)"

definition normalmap :: "nat \<Rightarrow> nat" where
  "normalmap = map_of_table
     [0, 27, 49, 50, 51, 52, 53, 54, 55, 56, 57, 48, 45, 61, 8, 9,
      113, 119, 101, 114, 116, 121, 117, 105, 111, 112, 91, 93, 10, 0, 97, 115,
      100, 102, 103, 104, 106, 107, 108, 59, 39, 96, 0, 92, 122, 120, 99, 118,
      98, 110, 109, 44, 46, 47, 0, 42, 0, 32, 0, 0, 0, 0, 0, 0,
      0, 0, 0, 0, 0, 0, 0, 55, 56, 57, 45, 52, 53, 54, 43, 49,
      50, 51, 48, 46, 0, 0, 0, 0]
     (keypad 10 47)"

definition shiftmap :: "nat \<Rightarrow> nat" where
  "shiftmap = map_of_table
     [0, 27, 33, 64, 35, 36, 37, 94, 38, 42, 40, 41, 95, 43, 8, 9,
      81, 87, 69, 82, 84, 89, 85, 73, 79, 80, 123, 125, 10, 0, 65, 83,
      68, 70, 71, 72, 74, 75, 76, 58, 34, 126, 0, 124, 90, 88, 67, 86,
      66, 78, 77, 60, 62, 63, 0, 42, 0, 32, 0, 0, 0, 0, 0, 0,
      0, 0, 0, 0, 0, 0, 0, 55, 56, 57, 45, 52, 53, 54, 43, 49,
      50, 51, 48, 46, 0, 0, 0, 0]
     (keypad 10 47)"

definition ctlmap :: "nat \<Rightarrow> nat" where
  "ctlmap = map_of_table
     [0, 0, 0, 0, 0, 0, 0, 0, 0, 0, 0, 0, 0, 0, 0, 0,
      17, 23, 5, 18, 20, 25, 21, 9, 15, 16, 0, 0, 13, 0, 1, 19,
      4, 6, 7, 8, 10, 11, 12, 0, 0, 0, 0, 28, 26, 24, 3, 22,
      2, 14, 13, 0, 0, 239, 0, 0]
     (keypad 13 239)"

definition charcode :: "uint \<Rightarrow> nat \<Rightarrow> nat" where
  "charcode m = (if m = 0 then normalmap else if m = 1 then shiftmap else ctlmap)"

definition capslock :: "nat \<Rightarrow> nat" where
  "capslock c = (if 97 \<le> c \<and> c \<le> 122 then c - 32 else if 65 \<le> c \<and> c \<le> 90 then c + 32 else c)"

text \<open>One scan code: the new shift state and the character, 0 for none.\<close>

definition kbd_step :: "uint \<Rightarrow> nat \<Rightarrow> uint \<times> nat" where
  "kbd_step sh dat =
     (if dat = 0xE0 then (sh OR E0ESC, 0)
      else if 0x80 \<le> dat then
        (let dat = (if sh AND E0ESC \<noteq> 0 then dat else dat mod 0x80)
         in (sh AND NOT (shiftcode dat OR E0ESC), 0))
      else
        (let (sh, dat) = (if sh AND E0ESC \<noteq> 0 then (sh AND NOT E0ESC, dat + 0x80) else (sh, dat));
             sh = sh OR shiftcode dat;
             sh = sh XOR togglecode dat;
             c = charcode (sh AND (CTL OR SHIFT)) dat
         in (sh, if sh AND CAPSLOCK \<noteq> 0 then capslock c else c)))"

definition kbdgetc :: "('z kbds_scheme, int) kop" where
  "kbdgetc =
     bindk (getk kbd_in) (\<lambda>q. case q of [] \<Rightarrow> ret (- 1)
     | dat # q \<Rightarrow>
       bindk (getk kbd_shift) (\<lambda>sh.
       let (sh, c) = kbd_step sh (unat dat) in
       thenk (modk (\<lambda>s. s\<lparr>kbd_in := q, kbd_shift := sh\<rparr>)) (ret (int c))))"

definition uartgetc :: "('z console_scheme, int) kop" where
  "uartgetc =
     bindk (getk (\<lambda>s. (uart s, uart_in s))) (\<lambda>(u, q).
     if \<not> u then ret (- 1)
     else case q of [] \<Rightarrow> ret (- 1)
       | c # q \<Rightarrow> thenk (modk (\<lambda>s. s\<lparr>uart_in := q\<rparr>)) (ret (int (unat c))))"

subsection \<open>The line editor\<close>

abbreviation (input) CTRL_P :: nat where "CTRL_P \<equiv> 16"
abbreviation (input) CTRL_U :: nat where "CTRL_U \<equiv> 21"
abbreviation (input) CTRL_H :: nat where "CTRL_H \<equiv> 8"
abbreviation (input) DEL :: nat where "DEL \<equiv> 127"

fun kill_line :: "nat \<Rightarrow> ('z console_scheme, unit) kop" where
  "kill_line 0 = ret ()"
| "kill_line (Suc k) =
     bindk (getk input) (\<lambda>i.
     if in_e i \<noteq> in_w i \<and> in_buf i (unat (in_e i - 1) mod INPUT_BUF) \<noteq> NEWLINE
     then thenk (set_input (\<lambda>i. i\<lparr>in_e := in_e i - 1\<rparr>)) (thenk (consputc BACKSPACE) (kill_line k))
     else ret ())"

definition put_char :: "nat \<Rightarrow> ('z console_scheme, unit) kop" where
  "put_char c =
     bindk (getk input) (\<lambda>i.
     whenk (c \<noteq> 0 \<and> in_e i - in_r i < 128) (
       let c = (if c = 13 then NEWLINE else c) in
       thenk (set_input (\<lambda>i. i\<lparr>in_buf := (in_buf i)(unat (in_e i) mod INPUT_BUF := c mod 256), in_e := in_e i + 1\<rparr>)) (
       thenk (consputc c) (
       bindk (getk input) (\<lambda>i.
       whenk (c = NEWLINE \<or> c = CTRL_D \<or> in_e i = in_r i + 128) (
         thenk (set_input (\<lambda>i. i\<lparr>in_w := in_e i\<rparr>))
           (wakeup ChanInput)))))))"

text \<open>What one character does; the result says whether it asks for the process listing.\<close>

definition cons_char :: "nat \<Rightarrow> ('z console_scheme, bool) kop" where
  "cons_char c =
     (if c = CTRL_P then ret True
      else if c = CTRL_U then
        bindk (getk input) (\<lambda>i. thenk (kill_line (unat (in_e i - in_w i))) (ret False))
      else if c = CTRL_H \<or> c = DEL then
        bindk (getk input) (\<lambda>i.
        thenk (whenk (in_e i \<noteq> in_w i)
          (thenk (set_input (\<lambda>i. i\<lparr>in_e := in_e i - 1\<rparr>)) (consputc BACKSPACE)))
          (ret False))
      else thenk (put_char c) (ret False))"

fun intr_loop :: "nat \<Rightarrow> ('z console_scheme, int) kop \<Rightarrow> bool \<Rightarrow> ('z console_scheme, bool) kop" where
  "intr_loop 0 getc dump = ret dump"
| "intr_loop (Suc k) getc dump =
     bindk getc (\<lambda>c.
     if c < 0 then ret dump
     else bindk (cons_char (nat c)) (\<lambda>d. intr_loop k getc (dump \<or> d)))"

definition consoleintr :: "nat \<Rightarrow> ('z kmem_scheme, int) kop \<Rightarrow> ('z kmem_scheme, unit) kop" where
  "consoleintr n getc =
     thenk (acquire ConsLock) (
     bindk (intr_loop (Suc n) getc False) (\<lambda>dump.
     thenk (release ConsLock)
       (whenk dump procdump)))"

definition kbdintr :: "('z kbds_scheme, unit) kop" where
  "kbdintr = bindk (getk (\<lambda>s. length (kbd_in s))) (\<lambda>n. consoleintr n kbdgetc)"

definition uartintr :: "('z kmem_scheme, unit) kop" where
  "uartintr = bindk (getk (\<lambda>s. length (uart_in s))) (\<lambda>n. consoleintr n uartgetc)"

subsection \<open>The input line behind the ring\<close>

interpretation line_ring: ring 128
  by unfold_locales simp_all

text \<open>What a reader can have, and the line that is still being edited.\<close>

definition ready :: "input_buf \<Rightarrow> nat list" where
  "ready i = ring_list INPUT_BUF (in_buf i) (in_r i) (in_w i)"

definition line :: "input_buf \<Rightarrow> nat list" where
  "line i = ring_list INPUT_BUF (in_buf i) (in_w i) (in_e i)"

definition in_ok :: "input_buf \<Rightarrow> bool" where
  "in_ok i \<longleftrightarrow> unat (in_e i - in_r i) = unat (in_w i - in_r i) + unat (in_e i - in_w i) \<and>
     unat (in_e i - in_r i) \<le> INPUT_BUF \<and> NEWLINE \<notin> set (line i)"

text \<open>What one character means for the two.\<close>

definition edit :: "nat \<Rightarrow> nat list \<times> nat list \<Rightarrow> nat list \<times> nat list" where
  "edit c = (\<lambda>(rd, ln).
     if c = CTRL_P then (rd, ln)
     else if c = CTRL_U then (rd, [])
     else if c = CTRL_H \<or> c = DEL then (rd, butlast ln)
     else if c = 0 \<or> INPUT_BUF \<le> length rd + length ln then (rd, ln)
     else let c = (if c = 13 then NEWLINE else c) in
       if c = NEWLINE \<or> c = CTRL_D \<or> length rd + length ln + 1 = INPUT_BUF then (rd @ ln @ [c], [])
       else (rd, ln @ [c]))"

lemma line_Nil_iff: "line i = [] \<longleftrightarrow> in_e i = in_w i"
  by (auto simp: line_def ring_Nil_iff)

lemma in_ok_length: "in_ok i \<Longrightarrow> length (ready i) + length (line i) = unat (in_e i - in_r i)"
  by (simp add: in_ok_def ready_def line_def)

definition rub :: "input_buf \<Rightarrow> input_buf" where
  "rub i = i\<lparr>in_e := in_e i - 1\<rparr>"

lemma rub_spec:
  assumes "in_ok i" "in_e i \<noteq> in_w i"
  shows "in_ok (rub i)" "ready (rub i) = ready i" "line i = line (rub i) @ [in_buf i (unat (in_e i - 1) mod INPUT_BUF)]"
proof -
  show l: "line i = line (rub i) @ [in_buf i (unat (in_e i - 1) mod INPUT_BUF)]"
    using assms(2) line_ring.ring_unpush [of "in_w i" "in_e i" "in_buf i"] by (simp add: line_def rub_def)
  show "ready (rub i) = ready i" by (simp add: ready_def rub_def)
  have "in_e i - in_w i \<noteq> 0" using assms(2) by simp
  moreover from this have "in_e i - in_r i \<noteq> 0" using assms(1) by (auto simp: in_ok_def unat_eq_zero)
  ultimately have "unat (in_e i - 1 - in_w i) = unat (in_e i - in_w i) - 1" "unat (in_e i - 1 - in_r i) = unat (in_e i - in_r i) - 1"
    "0 < unat (in_e i - in_w i)"
    using unat_pred [of "in_e i - in_w i"] unat_pred [of "in_e i - in_r i"] by (simp_all add: algebra_simps unat_gt_0)
  then show "in_ok (rub i)" using assms(1) l by (auto simp: in_ok_def rub_def)
qed

definition add_char :: "nat \<Rightarrow> input_buf \<Rightarrow> input_buf" where
  "add_char c i = i\<lparr>in_buf := (in_buf i)(unat (in_e i) mod INPUT_BUF := c), in_e := in_e i + 1\<rparr>"

lemma add_char_spec:
  assumes "in_ok i" "unat (in_e i - in_r i) < INPUT_BUF"
  shows "ready (add_char c i) = ready i" "line (add_char c i) = line i @ [c]"
    "unat (in_e (add_char c i) - in_r i) = Suc (unat (in_e i - in_r i))"
    "unat (in_e (add_char c i) - in_w i) = Suc (unat (in_e i - in_w i))"
proof -
  have lw: "unat (in_e i - in_w i) < 128" using assms by (simp add: in_ok_def)
  then show "line (add_char c i) = line i @ [c]"
    by (simp add: line_def add_char_def line_ring.ring_push)
  show u: "unat (in_e (add_char c i) - in_r i) = Suc (unat (in_e i - in_r i))"
      "unat (in_e (add_char c i) - in_w i) = Suc (unat (in_e i - in_w i))"
    using assms lw unat_succ [of "in_e i - in_r i"] unat_succ [of "in_e i - in_w i"]
    by (simp_all add: add_char_def algebra_simps)
  have s: "unat (in_e i - in_r i) = unat (in_w i - in_r i) + unat (in_e i - in_w i)" using assms by (simp add: in_ok_def)
  have "ring_list 128 (in_buf (add_char c i)) (in_r i) (in_e i + 1) = ring_list 128 (in_buf i) (in_r i) (in_e i) @ [c]"
    using assms by (simp add: add_char_def line_ring.ring_push)
  moreover have "ring_list 128 (in_buf (add_char c i)) (in_r i) (in_e i + 1) =
      ring_list 128 (in_buf (add_char c i)) (in_r i) (in_w i) @ ring_list 128 (in_buf (add_char c i)) (in_w i) (in_e i + 1)"
    using u s by (intro line_ring.ring_split) (simp add: add_char_def)
  moreover have "ring_list 128 (in_buf i) (in_r i) (in_e i) = ready i @ line i"
    using line_ring.ring_split [OF s] by (simp add: ready_def line_def)
  ultimately show "ready (add_char c i) = ready i"
    by (simp add: ready_def line_def add_char_def append_eq_append_conv)
qed

definition commit_line :: "input_buf \<Rightarrow> input_buf" where
  "commit_line i = i\<lparr>in_w := in_e i\<rparr>"

lemma commit_line_spec:
  assumes "unat (in_e i - in_r i) = unat (in_w i - in_r i) + unat (in_e i - in_w i)"
  shows "ready (commit_line i) = ready i @ line i" "line (commit_line i) = []"
  using line_ring.ring_split [OF assms] by (simp_all add: ready_def line_def commit_line_def)

subsection \<open>The editor\<close>

text \<open>\<open>t\<close> differs from \<open>s\<close> in the screen, the serial output, the input line and the process table only.\<close>

definition touched :: "'z console_scheme \<Rightarrow> 'z console_scheme \<Rightarrow> bool" where
  "touched s t \<longleftrightarrow> (\<exists>m c out i pt. c \<le> 24 * 80 \<and>
     t = s\<lparr>crt := m, cursor := c, uart_out := out, input := i, ptable := pt\<rparr>)"

lemma touched_refl: "cons_ok s \<Longrightarrow> touched s s"
  unfolding touched_def cons_ok_def
  by (rule exI [of _ "crt s"], rule exI [of _ "cursor s"], rule exI [of _ "uart_out s"], rule exI [of _ "input s"],
      rule exI [of _ "ptable s"]) simp

lemma touched_trans:
  assumes "touched s t" "touched t u"
  shows "touched s u"
proof -
  obtain m c out i pt where t: "t = s\<lparr>crt := m, cursor := c, uart_out := out, input := i, ptable := pt\<rparr>"
    using assms(1) unfolding touched_def by blast
  obtain m' c' out' i' pt' where u: "c' \<le> 24 * 80"
    "u = t\<lparr>crt := m', cursor := c', uart_out := out', input := i', ptable := pt'\<rparr>"
    using assms(2) unfolding touched_def by blast
  have "u = s\<lparr>crt := m', cursor := c', uart_out := out', input := i', ptable := pt'\<rparr>" unfolding u(2) t by simp
  with u(1) show ?thesis unfolding touched_def by blast
qed

lemma touchedI:
  "c \<le> 24 * 80 \<Longrightarrow> t = s\<lparr>crt := m, cursor := c, uart_out := out, input := i, ptable := pt\<rparr> \<Longrightarrow> touched s t"
  unfolding touched_def by blast

lemma touched_keeps:
  assumes "touched s t"
  shows "cons_ok s \<Longrightarrow> cons_ok t" "lapicid t = lapicid s" "fl_if t = fl_if s" "apicid t = apicid s" "cpus t = cpus s"
    "ncpu t = ncpu s" "locks t = locks s" "uart t = uart s" "uart_in t = uart_in s" "panicked t = panicked s"
    "cons_locking t = cons_locking s"
  using assms by (auto simp: touched_def cons_ok_def)

text \<open>A kernel thread that may wake others.\<close>

definition can_wake :: "'z machine_scheme \<Rightarrow> bool" where
  "can_wake s \<longleftrightarrow> cpu_ok s \<and> settled s \<and> free_lock PtableLock s"

lemma can_wake_cong:
  "lapicid t = lapicid s \<Longrightarrow> fl_if t = fl_if s \<Longrightarrow> apicid t = apicid s \<Longrightarrow> cpus t = cpus s \<Longrightarrow> ncpu t = ncpu s \<Longrightarrow>
   locks t = locks s \<Longrightarrow> can_wake t = can_wake s"
  by (simp add: can_wake_def cpu_ok_def settled_def me_def free_lock_def)

lemma touched_can_wake: "touched s t \<Longrightarrow> can_wake t = can_wake s"
  using touched_keeps [of s t] by (intro can_wake_cong) simp_all

definition view_in :: "'z console_scheme \<Rightarrow> nat list \<times> nat list" where
  "view_in s = (ready (input s), line (input s))"

text \<open>The outcome of handling some characters: the input line and its readers, who sleep until there
  is something for them.\<close>

definition edited :: "(nat list \<times> nat list \<Rightarrow> nat list \<times> nat list) \<Rightarrow> 'z console_scheme \<Rightarrow> 'z console_scheme \<Rightarrow> bool" where
  "edited f s t \<longleftrightarrow> touched s t \<and> in_ok (input t) \<and> view_in t = f (view_in s) \<and>
     ptable t = (if ready (input t) = ready (input s) then ptable s else wake_all ChanInput (ptable s))"

lemma set_input_run [run_simps]: "set_input f s = Ok ((), s\<lparr>input := f (input s)\<rparr>)"
  by (simp add: set_input_def run_simps)

text \<open>Echoing a character after a change of the input line.\<close>

lemma echo:
  assumes "cons_ok s"
  obtains t where "consputc c (s\<lparr>input := i\<rparr>) = Ok ((), t)" "input t = i" "ptable t = ptable s"
    "touched s t" "can_wake t = can_wake s" "cons_ok t"
    "\<forall>j pt. touched s (t\<lparr>input := j, ptable := pt\<rparr>)"
proof -
  have "cons_ok (s\<lparr>input := i\<rparr>)" using assms by (simp add: cons_ok_def)
  then obtain t where t: "consputc c (s\<lparr>input := i\<rparr>) = Ok ((), t)" "emits (serial c) (s\<lparr>input := i\<rparr>) t"
    by (rule consputc_emits)
  then obtain m p out where e: "p \<le> 24 * 80" "t = s\<lparr>input := i, crt := m, cursor := p, uart_out := out\<rparr>"
    unfolding emits_def by auto
  have a: "touched s (t\<lparr>input := j, ptable := pt\<rparr>)" for j pt
    using e(1) by (rule touchedI [where m = m and out = out and i = j and pt = pt]) (simp add: e(2))
  have "t = t\<lparr>input := i, ptable := ptable s\<rparr>" unfolding e(2) by simp
  then have c: "touched s t" using a [of "ptable s" i] by metis
  show ?thesis
  proof (rule that [OF t(1)])
    show "input t = i" "ptable t = ptable s" unfolding e(2) by simp_all
    show "cons_ok t" using touched_keeps(1) [OF c assms] .
  qed (use a c touched_can_wake [OF c] in simp_all)
qed

lemma kill_line_run:
  "in_ok (input s) \<Longrightarrow> cons_ok s \<Longrightarrow> length (line (input s)) \<le> k \<Longrightarrow>
   \<exists>t. kill_line k s = Ok ((), t) \<and> touched s t \<and> in_ok (input t) \<and> ready (input t) = ready (input s) \<and>
     line (input t) = [] \<and> ptable t = ptable s"
proof (induction k arbitrary: s)
  case 0
  then show ?case by (auto simp: run_simps touched_refl)
next
  case (Suc k)
  show ?case
  proof (cases "in_e (input s) = in_w (input s)")
    case True
    then show ?thesis using Suc.prems by (auto simp: run_simps touched_refl line_Nil_iff)
  next
    case False
    let ?i = "rub (input s)"
    note r = rub_spec [OF Suc.prems(1) False]
    have nl: "in_buf (input s) (unat (in_e (input s) - 1) mod INPUT_BUF) \<noteq> NEWLINE"
      using Suc.prems(1) r(3) by (auto simp: in_ok_def)
    obtain t where t: "consputc BACKSPACE (s\<lparr>input := ?i\<rparr>) = Ok ((), t)" "input t = ?i" "ptable t = ptable s"
      "touched s t" "cons_ok t" by (rule echo [OF Suc.prems(2)])
    have "length (line (input t)) \<le> k" using Suc.prems(3) r(3) t(2) by simp
    then obtain u where u: "kill_line k t = Ok ((), u)" "touched t u" "in_ok (input u)" "ready (input u) = ready (input t)"
      "line (input u) = []" "ptable u = ptable t" using Suc.IH [of t] r(1) t(2,5) by auto
    have "kill_line (Suc k) s = Ok ((), u)"
      using False nl t(1) u(1) by (simp add: run_simps thenk_Ok t(1) rub_def)
    then show ?thesis using u t touched_trans [OF t(4) u(2)] r by auto
  qed
qed

lemma full_iff: "in_e i = in_r i + 128 \<longleftrightarrow> unat (in_e i - in_r i) = INPUT_BUF"
proof -
  have "in_e i = in_r i + 128 \<longleftrightarrow> in_e i - in_r i = 128" by (auto simp: algebra_simps)
  also have "\<dots> \<longleftrightarrow> unat (in_e i - in_r i) = unat (128 :: uint)" by (rule word_unat_eq_iff)
  finally show ?thesis by simp
qed

lemma put_char_run:
  assumes ok: "in_ok (input s)" "cons_ok s" "can_wake s" and c: "c < 256" "c \<notin> {CTRL_P, CTRL_U, CTRL_H, DEL}"
  shows "\<exists>t. put_char c s = Ok ((), t) \<and> edited (edit c) s t"
proof (cases "c \<noteq> 0 \<and> unat (in_e (input s) - in_r (input s)) < INPUT_BUF")
  case False
  then have "put_char c s = Ok ((), s)" by (auto simp: put_char_def run_simps word_less_nat_alt)
  moreover have "edited (edit c) s s" using False c ok touched_refl in_ok_length [OF ok(1)]
    by (auto simp: edited_def view_in_def edit_def)
  ultimately show ?thesis by blast
next
  case True
  define d where "d = (if c = 13 then NEWLINE else c)"
  let ?i = "add_char d (input s)"
  have d: "d mod 256 = d" using c(1) by (simp add: d_def)
  note a = add_char_spec [OF ok(1) conjunct2 [OF True], of d]
  obtain t where t: "consputc d (s\<lparr>input := ?i\<rparr>) = Ok ((), t)" "input t = ?i" "ptable t = ptable s"
    "touched s t" "can_wake t = can_wake s" "cons_ok t" "\<forall>j pt. touched s (t\<lparr>input := j, ptable := pt\<rparr>)"
    by (rule echo [OF ok(2)])
  have k: "in_r ?i = in_r (input s)" "in_w ?i = in_w (input s)" by (simp_all add: add_char_def)
  have L: "length (ready (input s)) + length (line (input s)) = unat (in_e (input s) - in_r (input s))" by (rule in_ok_length [OF ok(1)])
  have s: "unat (in_e ?i - in_r ?i) = unat (in_w ?i - in_r ?i) + unat (in_e ?i - in_w ?i)"
    using ok(1) unfolding k by (simp add: a in_ok_def)
  have f: "in_e ?i = in_r ?i + 128 \<longleftrightarrow> length (ready (input s)) + length (line (input s)) + 1 = INPUT_BUF"
    using full_iff [of ?i] unfolding L k a(3) by simp
  have run: "put_char c s = (if d = NEWLINE \<or> d = CTRL_D \<or> length (ready (input s)) + length (line (input s)) + 1 = INPUT_BUF
      then thenk (set_input commit_line) (wakeup ChanInput) t else Ok ((), t))"
    unfolding put_char_def Let_def d_def [symmetric] d using True f t(2)
    by (simp add: run_simps word_less_nat_alt add_char_def [symmetric] thenk_Ok t(1) commit_line_def)
  show ?thesis
  proof (cases "d = NEWLINE \<or> d = CTRL_D \<or> length (ready (input s)) + length (line (input s)) + 1 = INPUT_BUF")
    case False
    have "in_ok ?i" unfolding in_ok_def
      using ok(1) s a False True by (simp add: k in_ok_def)
    then have "edited (edit c) s t" using False True c(2) t a L
      by (auto simp: edited_def view_in_def edit_def d_def [symmetric] Let_def)
    with run False show ?thesis by auto
  next
    case True': True
    let ?u = "t\<lparr>input := commit_line ?i, ptable := wake_all ChanInput (ptable s)\<rparr>"
    note m = commit_line_spec [OF s]
    have "can_wake (t\<lparr>input := commit_line ?i\<rparr>)" using ok(3) t(5) can_wake_cong [of "t\<lparr>input := commit_line ?i\<rparr>" t] by simp
    then have "put_char c s = Ok ((), ?u)"
      using True' by (simp add: run run_simps t(2,3) wakeup_run can_wake_def)
    moreover have "in_ok (commit_line ?i)" unfolding in_ok_def m
      using conjunct2 [OF True] by (simp add: commit_line_def k a)
    then have "edited (edit c) s ?u" using True True' c(2) t(7) m a L
      by (auto simp: edited_def view_in_def edit_def d_def [symmetric] Let_def)
    ultimately show ?thesis by blast
  qed
qed

lemma cons_char_run:
  assumes "in_ok (input s)" "cons_ok s" "can_wake s" "c < 256"
  shows "\<exists>t. cons_char c s = Ok (c = CTRL_P, t) \<and> edited (edit c) s t"
proof -
  consider "c = CTRL_P" | "c = CTRL_U" | "c = CTRL_H \<or> c = DEL" | "c \<notin> {CTRL_P, CTRL_U, CTRL_H, DEL}" by auto
  then show ?thesis
  proof cases
    case 1
    then show ?thesis using assms touched_refl by (auto simp: cons_char_def run_simps edited_def edit_def view_in_def)
  next
    case 2
    have "length (line (input s)) \<le> unat (in_e (input s) - in_w (input s))" by (simp add: line_def)
    then obtain t where "kill_line (unat (in_e (input s) - in_w (input s))) s = Ok ((), t)" "touched s t" "in_ok (input t)"
      "ready (input t) = ready (input s)" "line (input t) = []" "ptable t = ptable s"
      using kill_line_run [OF assms(1,2)] by blast
    then show ?thesis using 2 by (auto simp: cons_char_def run_simps edited_def edit_def view_in_def thenk_Ok)
  next
    case 3
    show ?thesis
    proof (cases "in_e (input s) = in_w (input s)")
      case True
      then show ?thesis using 3 assms touched_refl line_Nil_iff [of "input s"]
        by (auto simp: cons_char_def run_simps edited_def edit_def view_in_def)
    next
      case False
      note r = rub_spec [OF assms(1) False]
      obtain t where t: "consputc BACKSPACE (s\<lparr>input := rub (input s)\<rparr>) = Ok ((), t)" "input t = rub (input s)"
        "ptable t = ptable s" "touched s t" by (rule echo [OF assms(2)])
      have "cons_char c s = Ok (False, t)"
        using False 3 by (auto simp: cons_char_def run_simps rub_def [symmetric] thenk_Ok t(1))
      moreover have "edited (edit c) s t" using 3 t r by (auto simp: edited_def edit_def view_in_def)
      ultimately show ?thesis using 3 by auto
    qed
  next
    case 4
    obtain t where "put_char c s = Ok ((), t)" "edited (edit c) s t" using put_char_run [OF assms 4] by blast
    then show ?thesis using 4 by (auto simp: cons_char_def run_simps thenk_Ok)
  qed
qed

subsection \<open>Sources of characters\<close>

text \<open>\<open>t\<close> has the processors, locks and console of \<open>s\<close>, but for the screen and the output.\<close>

definition same_kernel :: "'z console_scheme \<Rightarrow> 'z console_scheme \<Rightarrow> bool" where
  "same_kernel s t \<longleftrightarrow> lapicid t = lapicid s \<and> fl_if t = fl_if s \<and> apicid t = apicid s \<and> cpus t = cpus s \<and> ncpu t = ncpu s \<and>
     locks t = locks s \<and> uart t = uart s \<and> cons_locking t = cons_locking s"

lemma same_kernel_trans: "same_kernel s t \<Longrightarrow> same_kernel t u \<Longrightarrow> same_kernel s u"
  by (simp add: same_kernel_def)

lemma same_kernel_can_wake: "same_kernel s t \<Longrightarrow> can_wake t = can_wake s"
  by (intro can_wake_cong) (simp_all add: same_kernel_def)

lemma touched_same: "touched s t \<Longrightarrow> same_kernel s t"
  using touched_keeps [of s t] by (simp add: same_kernel_def)

text \<open>Handling a sequence of characters.\<close>

definition handled :: "nat list \<Rightarrow> 'z console_scheme \<Rightarrow> 'z console_scheme \<Rightarrow> bool" where
  "handled cs s t \<longleftrightarrow> same_kernel s t \<and> cons_ok t \<and> in_ok (input t) \<and> view_in t = fold edit cs (view_in s) \<and>
     ptable t = (if ready (input t) = ready (input s) then ptable s else wake_all ChanInput (ptable s))"

lemma edit_ready: "\<exists>x. fst (edit c v) = fst v @ x"
  by (auto simp: edit_def Let_def split: prod.splits)

lemma fold_edit_ready: "\<exists>x. fst (fold edit cs v) = fst v @ x"
proof (induction cs arbitrary: v)
  case (Cons c cs)
  obtain x where "fst (edit c v) = fst v @ x" using edit_ready by blast
  moreover obtain y where "fst (fold edit cs (edit c v)) = fst (edit c v) @ y" using Cons by blast
  ultimately show ?case by simp
qed simp

lemma handled_Cons:
  assumes e: "edited (edit c) s t" and ok: "cons_ok s" and h: "handled cs t u"
  shows "handled (c # cs) s u"
proof -
  have v: "view_in t = edit c (view_in s)" "view_in u = fold edit cs (view_in t)"
    using e h by (simp_all add: edited_def handled_def)
  obtain x where x: "ready (input t) = ready (input s) @ x"
    using v(1) edit_ready [of c "view_in s"] by (metis fst_conv view_in_def)
  obtain y where y: "ready (input u) = ready (input t) @ y"
    using v(2) fold_edit_ready [of cs "view_in t"] by (metis fst_conv view_in_def)
  have "touched s t" using e by (simp add: edited_def)
  then show ?thesis using e h same_kernel_trans [OF touched_same] v
    by (auto simp: handled_def edited_def x y)
qed

text \<open>The process listing prints and does nothing else.\<close>

lemma emits_same: "emits xs s t \<Longrightarrow> same_kernel s t \<and> ptable t = ptable s \<and> input t = input s"
  by (auto simp: emits_def same_kernel_def)

definition can_print :: "'z console_scheme \<Rightarrow> bool" where
  "can_print s \<longleftrightarrow> cpu_ok s \<and> settled s \<and> free_lock ConsLock s \<and> cons_ok s"

lemma emits_can_print: "can_print s \<Longrightarrow> emits xs s t \<Longrightarrow> can_print t"
  by (auto simp: can_print_def emits_def cons_ok_def cpu_ok_def settled_def me_def free_lock_def)

definition prints :: "('z console_scheme, unit) kop \<Rightarrow> bool" where
  "prints m \<longleftrightarrow> (\<forall>s. can_print s \<longrightarrow> (\<exists>t xs. m s = Ok ((), t) \<and> emits xs s t))"

lemma prints_cprintf: "render fmt args \<noteq> None \<Longrightarrow> prints (cprintf fmt args)"
  unfolding prints_def can_print_def using cprintf_emits by blast

lemma prints_ret: "prints (ret ())"
  using emits_refl by (auto simp: prints_def run_simps can_print_def)

lemma prints_thenk: "prints m \<Longrightarrow> prints n \<Longrightarrow> prints (thenk m n)"
  unfolding prints_def by (metis emits_can_print emits_trans thenk_Ok)

lemma prints_bindk_getk: "(\<And>x. prints (n x)) \<Longrightarrow> prints (bindk (getk f) n)"
  by (simp add: prints_def run_simps)

lemma prints_whenk: "prints m \<Longrightarrow> prints (whenk b m)"
  using prints_ret by (cases b) (simp_all add: whenk_def)

lemma prints_for_each: "(\<And>x. prints (f x)) \<Longrightarrow> prints (for_each xs f)"
  by (induction xs) (simp_all add: prints_ret prints_thenk)

lemma procdump_prints: "prints procdump"
  unfolding procdump_def
  by (intro prints_for_each prints_bindk_getk prints_whenk prints_thenk prints_cprintf) (simp_all add: conv_text.simps)

text \<open>What \<open>consoleintr\<close> relies on of the function it is given: \<open>pend\<close> are the characters the device
  still holds, which nothing that the editor does can change.\<close>

locale char_source =
  fixes getc :: "('z kmem_scheme, int) kop" and pend :: "'z kmem_scheme \<Rightarrow> nat list"
  assumes getc_none: "pend s = [] \<Longrightarrow> getc s = Ok (- 1, s)"
    and getc_some: "pend s = c # cs \<Longrightarrow>
      \<exists>t. getc s = Ok (int c, t) \<and> pend t = cs \<and> same_kernel s t \<and> input t = input s \<and> ptable t = ptable s \<and> cons_ok t = cons_ok s"
    and pend_byte: "c \<in> set (pend s) \<Longrightarrow> c < 256"
    and pend_touched: "touched s t \<Longrightarrow> pend t = pend s"
    and pend_locks: "pend (s\<lparr>fl_if := a, cpus := b, locks := d\<rparr>) = pend s"
begin

lemma intr_loop_run:
  "length (pend s) < k \<Longrightarrow> in_ok (input s) \<Longrightarrow> cons_ok s \<Longrightarrow> can_wake s \<Longrightarrow>
   \<exists>t. intr_loop k getc dump s = Ok (dump \<or> CTRL_P \<in> set (pend s), t) \<and> pend t = [] \<and> handled (pend s) s t"
proof (induction k arbitrary: s dump)
  case (Suc k)
  show ?case
  proof (cases "pend s")
    case Nil
    then show ?thesis using Suc.prems by (auto simp: bindk_Ok getc_none run_simps handled_def same_kernel_def)
  next
    case (Cons c cs)
    then obtain t where t: "getc s = Ok (int c, t)" "pend t = cs" "same_kernel s t" "input t = input s" "ptable t = ptable s"
      "cons_ok t" using getc_some [OF Cons] Suc.prems(3) by blast
    have "c < 256" using pend_byte [of c s] Cons by simp
    then obtain u where u: "cons_char c t = Ok (c = CTRL_P, u)" "edited (edit c) t u"
      using cons_char_run [of t c] t Suc.prems same_kernel_can_wake [OF t(3)] by auto
    have tu: "touched t u" "in_ok (input u)" using u(2) by (simp_all add: edited_def)
    obtain v where v: "intr_loop k getc (dump \<or> c = CTRL_P) u = Ok ((dump \<or> c = CTRL_P) \<or> CTRL_P \<in> set (pend u), v)" "pend v = []"
      "handled (pend u) u v"
      using Suc.IH [of u "dump \<or> c = CTRL_P"] Suc.prems Cons t(2,6) pend_touched [OF tu(1)] tu(2)
        touched_keeps(1) [OF tu(1) t(6)] touched_can_wake [OF tu(1)] same_kernel_can_wake [OF t(3)] by auto
    have "handled (c # cs) t v" using handled_Cons [OF u(2) t(6) v(3)] t(2) pend_touched [OF tu(1)] by simp
    then have "handled (c # cs) s v"
      using t same_kernel_trans [OF t(3)] by (auto simp: handled_def view_in_def)
    moreover have "intr_loop (Suc k) getc dump s = Ok (dump \<or> CTRL_P \<in> set (c # cs), v)"
      using v(1) t(2) pend_touched [OF tu(1)] by (auto simp: bindk_Ok t(1) u(1))
    ultimately show ?thesis using Cons v(2) by auto
  qed
qed simp

lemma consoleintr_run:
  assumes "idle s p" "cons_ok s" "in_ok (input s)" "length (pend s) \<le> n"
  shows "\<exists>t. consoleintr n getc s = Ok ((), t) \<and> handled (pend s) s t"
proof -
  obtain C L where cs: "acquire ConsLock s = Ok ((), s\<lparr>fl_if := False, cpus := C, locks := L\<rparr>)"
    "\<forall>t. inside s C L t \<longrightarrow> release ConsLock t = Ok ((), t\<lparr>fl_if := fl_if s, cpus := cpus s, locks := locks s\<rparr>)"
    "\<forall>t. inside s C L t \<longrightarrow> cpu_ok t \<and> settled t \<and> cpu_proc (cpus t (me t)) = Some p \<and>
       held_lock ConsLock t \<and> (\<forall>l. l \<noteq> ConsLock \<longrightarrow> free_lock l t)"
    by (rule critical_section [OF assms(1)])
  let ?s = "s\<lparr>fl_if := False, cpus := C, locks := L\<rparr>"
  have "can_wake ?s" using cs(3) by (simp add: can_wake_def)
  then obtain t where t: "intr_loop (Suc n) getc False ?s = Ok (CTRL_P \<in> set (pend s), t)" "handled (pend s) ?s t"
    using intr_loop_run [of ?s "Suc n" False] assms(2-4) by (auto simp: pend_locks cons_ok_def)
  let ?t = "t\<lparr>fl_if := fl_if s, cpus := cpus s, locks := locks s\<rparr>"
  have "inside s C L t" using t(2) by (simp add: handled_def same_kernel_def)
  then have r: "release ConsLock t = Ok ((), ?t)" using cs(2) by blast
  have h: "handled (pend s) s ?t" using t(2) by (simp add: handled_def same_kernel_def view_in_def cons_ok_def)
  have i: "idle ?t p" using assms(1) h idle_cong [of ?t s p] by (simp add: handled_def same_kernel_def)
  have "can_print ?t" using h idle_ok [OF i] idle_free [OF i] by (simp add: can_print_def handled_def)
  then obtain u xs where u: "procdump ?t = Ok ((), u)" "emits xs ?t u" using procdump_prints unfolding prints_def by blast
  have "handled (pend s) s u"
    using h emits_same [OF u(2)] emits_ok [OF _ u(2)] same_kernel_trans [of s ?t u] by (simp add: handled_def view_in_def)
  then show ?thesis using h by (cases "CTRL_P \<in> set (pend s)") (auto simp: consoleintr_def run_simps cs(1) t(1) r u(1) simp del: intr_loop.simps)
qed

end

subsection \<open>The two sources\<close>

text \<open>The characters that a sequence of scan codes types.\<close>

fun scan :: "uint \<Rightarrow> byte list \<Rightarrow> nat list" where
  "scan sh [] = []"
| "scan sh (d # ds) = (let (sh, c) = kbd_step sh (unat d) in c # scan sh ds)"

lemma map_of_table_bound:
  "list_all (\<lambda>x. x < 256) xs \<Longrightarrow> (\<And>i. rest i < 256) \<Longrightarrow> map_of_table xs rest i < 256"
  by (simp add: map_of_table_def list_all_length)

lemma keypad_bound: "ent < 256 \<Longrightarrow> slash < 256 \<Longrightarrow> keypad ent slash i < 256"
  by (simp add: keypad_def)

lemma charcode_bound: "charcode m i < 256"
  unfolding charcode_def normalmap_def shiftmap_def ctlmap_def
  by (auto intro!: map_of_table_bound keypad_bound)

lemma kbd_step_bound: "snd (kbd_step sh d) < 256"
proof -
  have "capslock c < 256" if "c < 256" for c using that by (auto simp: capslock_def)
  then show ?thesis using charcode_bound by (simp add: kbd_step_def Let_def split: prod.split)
qed

lemma scan_bound: "c \<in> set (scan sh ds) \<Longrightarrow> c < 256"
proof (induction sh ds rule: scan.induct)
  case (2 sh d ds)
  obtain sh' e where k: "kbd_step sh (unat d) = (sh', e)" by fastforce
  then have "e < 256" using kbd_step_bound [of sh "unat d"] by simp
  then show ?case using 2 k by auto
qed simp

interpretation serial_in: char_source uartgetc "\<lambda>s. if uart s then map unat (uart_in s) else []"
proof unfold_locales
  fix s :: "'z kmem_scheme" and c cs
  assume "(if uart s then map unat (uart_in s) else []) = c # cs"
  then obtain b q where "uart s" "uart_in s = b # q" "c = unat b" "cs = map unat q" by (auto split: if_splits)
  then show "\<exists>t. uartgetc s = Ok (int c, t) \<and> (if uart t then map unat (uart_in t) else []) = cs \<and> same_kernel s t \<and>
      input t = input s \<and> ptable t = ptable s \<and> cons_ok t = cons_ok s"
    by (intro exI [of _ "s\<lparr>uart_in := q\<rparr>"]) (simp add: uartgetc_def run_simps same_kernel_def cons_ok_def)
next
  fix s :: "'z kmem_scheme" and c
  assume "c \<in> set (if uart s then map unat (uart_in s) else [])"
  then show "c < 256" using unsigned_less [where ?'b = 8 and ?'a = nat] by (auto split: if_splits)
qed (auto simp: uartgetc_def run_simps touched_keeps split: if_splits list.splits)

interpretation keyboard: char_source kbdgetc "\<lambda>s. scan (kbd_shift s) (kbd_in s)"
proof unfold_locales
  fix s :: "'z kbds_scheme" and c cs
  assume "scan (kbd_shift s) (kbd_in s) = c # cs"
  then obtain b q where q: "kbd_in s = b # q" by (cases "kbd_in s") auto
  obtain sh d where k: "kbd_step (kbd_shift s) (unat b) = (sh, d)" by fastforce
  with q \<open>scan (kbd_shift s) (kbd_in s) = c # cs\<close> have "d = c" "scan sh q = cs" by auto
  then show "\<exists>t. kbdgetc s = Ok (int c, t) \<and> scan (kbd_shift t) (kbd_in t) = cs \<and> same_kernel s t \<and>
      input t = input s \<and> ptable t = ptable s \<and> cons_ok t = cons_ok s"
    using q k by (intro exI [of _ "s\<lparr>kbd_in := q, kbd_shift := sh\<rparr>"]) (simp add: kbdgetc_def run_simps same_kernel_def cons_ok_def)
next
  fix s :: "'z kbds_scheme" and c
  assume "c \<in> set (scan (kbd_shift s) (kbd_in s))"
  then show "c < 256" by (rule scan_bound)
next
  fix s t :: "'z kbds_scheme"
  assume "touched s t"
  then show "scan (kbd_shift t) (kbd_in t) = scan (kbd_shift s) (kbd_in s)" by (auto simp: touched_def)
next
  fix s :: "'z kbds_scheme"
  assume "scan (kbd_shift s) (kbd_in s) = []"
  then show "kbdgetc s = Ok (- 1, s)" by (cases "kbd_in s") (auto simp: kbdgetc_def run_simps Let_def split: prod.splits)
qed simp

subsection \<open>A concrete keyboard\<close>

definition demo_kbds :: "byte list \<Rightarrow> byte list \<Rightarrow> 'z \<Rightarrow> 'z kbds_scheme" where
  "demo_kbds ks us z = (demo_procs \<lparr>kbd_shift = 0, kbd_in = ks, \<dots> = z\<rparr>)\<lparr>uart_in := us,
     input := \<lparr>in_buf = (\<lambda>_. 0), in_r = 0xFFFFFFFF, in_w = 0xFFFFFFFF, in_e = 0xFFFFFFFF\<rparr>\<rparr>"

lemma demo_kbds:
  "idle (demo_kbds ks us z) 0" "\<not> panicked (demo_kbds ks us z)" "cursor (demo_kbds ks us z) \<le> 24 * 80"
  "in_ok (input (demo_kbds ks us z))" "uart (demo_kbds ks us z)" "kbd_shift (demo_kbds ks us z) = 0"
  "kbd_in (demo_kbds ks us z) = ks" "uart_in (demo_kbds ks us z) = us"
  "ready (input (demo_kbds ks us z)) = []" "line (input (demo_kbds ks us z)) = []"
proof -
  show "idle (demo_kbds ks us z) 0"
    using demo_procs_idle [of "\<lparr>kbd_shift = 0, kbd_in = ks, \<dots> = z\<rparr>"]
      idle_cong [of "demo_kbds ks us z" "demo_procs \<lparr>kbd_shift = 0, kbd_in = ks, \<dots> = z\<rparr>" 0]
    by (simp add: demo_kbds_def)
qed (simp_all add: demo_kbds_def demo_procs_defs in_ok_def ready_def line_def)

subsection \<open>Properties\<close>

text \<open>C17. The line editor: handling the waiting scan codes of the keyboard always returns, and has
  exactly the effect of the characters they type on the input line and on what readers can
  have, however the ring buffer and its counters are wrapped; readers are woken when
  there is something new for them.\<close>

theorem keyboard_line:
  assumes "idle s p" "\<not> panicked s" "cursor s \<le> 24 * 80" "in_ok (input s)"
  shows "\<exists>t. kbdintr s = Ok ((), t) \<and> in_ok (input t) \<and>
    (ready (input t), line (input t)) = fold edit (scan (kbd_shift s) (kbd_in s)) (ready (input s), line (input s)) \<and>
    ptable t = (if ready (input t) = ready (input s) then ptable s else wake_all ChanInput (ptable s))"
proof -
  have "length (scan sh ds) = length ds" for sh ds by (induction sh ds rule: scan.induct) (simp_all split: prod.split)
  then show ?thesis
    using keyboard.consoleintr_run [OF assms(1) _ assms(4), of "length (kbd_in s)"] assms(2,3)
    by (auto simp: kbdintr_def run_simps handled_def view_in_def cons_ok_def)
qed

theorem keyboard_line_witness:
  "\<exists>t. kbdintr (demo_kbds [0x2A, 0x23, 0xAA, 0x17, 0x1C, 0x1E] [] ()) = Ok ((), t) \<and>
     ready (input t) = [72, 105, 10] \<and> line (input t) = [97]"
  using keyboard_line [OF demo_kbds(1-4), of "[0x2A, 0x23, 0xAA, 0x17, 0x1C, 0x1E]" "[]" "()"]
  by (auto simp: demo_kbds kbd_step_def shiftcode_def togglecode_def charcode_def normalmap_def shiftmap_def
      map_of_table_def edit_def)

text \<open>The same for the serial port: the waiting bytes are the characters.\<close>

lemma serial_line:
  assumes "idle s p" "\<not> panicked s" "cursor s \<le> 24 * 80" "in_ok (input s)" "uart s"
  shows "\<exists>t. uartintr s = Ok ((), t) \<and> in_ok (input t) \<and>
    (ready (input t), line (input t)) = fold edit (map unat (uart_in s)) (ready (input s), line (input s)) \<and>
    ptable t = (if ready (input t) = ready (input s) then ptable s else wake_all ChanInput (ptable s))"
  using serial_in.consoleintr_run [OF assms(1) _ assms(4), of "length (uart_in s)"] assms(2,3,5)
  by (auto simp: uartintr_def run_simps handled_def view_in_def cons_ok_def)

end
