(* ===== verification/Syscall.thy ===== *)
theory Syscall
  imports Sysfile Kbd
begin

unbundle bit_operations_syntax

text \<open>
  The system calls on processes (\<open>sysproc.c\<close>), the table of system calls and its dispatch
  (\<open>syscall.c\<close>), and the trap handler (\<open>trap.c\<close>). The kernel is the configuration whose disk is in
  memory, so \<open>ideintr\<close> is the empty handler of \<open>memide.c\<close>. The number of acknowledged
  interrupts stands for the writes to the local interrupt controller, and \<open>cr2\<close> is the
  processor's register with the address of the last page fault.
\<close>

record traps = kbds +
  cr2 :: uint
  eois :: nat

subsection \<open>System calls on processes\<close>

definition sys_fork :: "('z procs_scheme, int) kop" where
  "sys_fork = fork"

definition sys_exit :: "('z procs_scheme, int) kop" where
  "sys_exit = bindk exit (\<lambda>_ :: unit. ret 0)"

definition sys_wait :: "('z procs_scheme, int) kop" where
  "sys_wait = wait"

definition sys_kill :: "('z procs_scheme, int) kop" where
  "sys_kill =
     bindk (argint 0) (\<lambda>io. case io of None \<Rightarrow> ret (- 1) | Some n \<Rightarrow> kill n)"

definition sys_getpid :: "('z procs_scheme, int) kop" where
  "sys_getpid = cur_pid"

definition sys_sbrk :: "('z procs_scheme, int) kop" where
  "sys_sbrk =
     bindk (argint 0) (\<lambda>io. case io of None \<Rightarrow> ret (- 1) | Some n \<Rightarrow>
     bindk curproc (\<lambda>p.
     bindk (getk (\<lambda>s. sint (sz (ptable s p)))) (\<lambda>addr.
     bindk (growproc n) (\<lambda>r. if r < 0 then ret (- 1) else ret addr))))"

text \<open>\<open>ticks - ticks0 < n\<close> compares unsigned numbers; at the first test the left side is zero, and
  \<open>sleep\<close> does not come back.\<close>

definition sys_sleep :: "('z procs_scheme, int) kop" where
  "sys_sleep =
     bindk (argint 0) (\<lambda>io. case io of None \<Rightarrow> ret (- 1) | Some n \<Rightarrow>
     thenk (acquire TicksLock) (
     bindk (getk ticks) (\<lambda>ticks0.
     bindk (getk ticks) (\<lambda>t.
     if t - ticks0 < of_int n then
       bindk curproc (\<lambda>p.
       bindk (getk (\<lambda>s. killed (ptable s p))) (\<lambda>k.
       if k then thenk (release TicksLock) (ret (- 1))
       else thenk (sleep ChanTicks TicksLock) block))
     else thenk (release TicksLock) (ret 0)))))"

definition sys_uptime :: "('z procs_scheme, int) kop" where
  "sys_uptime =
     thenk (acquire TicksLock) (
     bindk (getk ticks) (\<lambda>x.
     thenk (release TicksLock) (ret (sint x))))"

definition sys_getproccount :: "('z procs_scheme, int) kop" where
  "sys_getproccount = getproccount"

definition out_port :: "nat \<Rightarrow> nat \<Rightarrow> ('z procs_scheme, unit) kop" where
  "out_port port v = modk (\<lambda>s. s\<lparr>ports := ports s @ [(port, v)]\<rparr>)"

definition sys_reboot :: "('z procs_scheme, int) kop" where
  "sys_reboot =
     bindk (argint 0) (\<lambda>io. case io of None \<Rightarrow> ret (- 1) | Some typ \<Rightarrow>
     thenk (if typ = 1 then out_port 0x64 0xFE
            else if typ = 2 then out_port 0x604 0x2000
            else ret ())
       (ret 0))"

subsection \<open>Dispatch\<close>

definition syscalls :: "int \<Rightarrow> ('z procs_scheme, int) kop option" where
  "syscalls = map_of
     [(1, sys_fork), (2, sys_exit), (3, sys_wait), (4, sys_pipe), (5, sys_read), (6, sys_kill),
      (7, sys_exec), (8, sys_fstat), (9, sys_chdir), (10, sys_dup), (11, sys_getpid),
      (12, sys_sbrk), (13, sys_sleep), (14, sys_uptime), (15, sys_open), (16, sys_write),
      (17, sys_mknod), (18, sys_unlink), (19, sys_link), (20, sys_mkdir), (21, sys_close),
      (22, sys_getproccount), (23, sys_reboot)]"

definition set_eax :: "nat \<Rightarrow> int \<Rightarrow> ('z machine_scheme, unit) kop" where
  "set_eax p r = set_proc p (\<lambda>q. q\<lparr>tf := (tf q)\<lparr>tf_eax := of_int r\<rparr>\<rparr>)"

definition syscall :: "('z procs_scheme, unit) kop" where
  "syscall =
     bindk curproc (\<lambda>p.
     bindk (getk (\<lambda>s. sint (tf_eax (tf (ptable s p))))) (\<lambda>num.
     case syscalls num of
       Some call \<Rightarrow> bindk call (set_eax p)
     | None \<Rightarrow>
       bindk (getk (\<lambda>s. ptable s p)) (\<lambda>q.
       thenk (cprintf (''%d %s: unknown sys call %d'' @ [CHR 0x0A])
         [Num (of_int (pid q)), Str (Some (chars (pname q))), Num (of_int num)])
         (set_eax p (- 1)))))"

subsection \<open>Traps\<close>

abbreviation (input) T_SYSCALL :: uint where "T_SYSCALL \<equiv> 64"
abbreviation (input) IRQ_TIMER :: uint where "IRQ_TIMER \<equiv> 32"

record gatedesc =
  g_off_15_0 :: uint
  g_cs :: uint
  g_type :: uint
  g_dpl :: uint
  g_p :: bool
  g_off_31_16 :: uint

definition SETGATE :: "bool \<Rightarrow> uint \<Rightarrow> uint \<Rightarrow> uint \<Rightarrow> gatedesc" where
  "SETGATE istrap sel off d =
     \<lparr>g_off_15_0 = off AND 0xFFFF, g_cs = sel, g_type = (if istrap then 0xF else 0xE), g_dpl = d,
      g_p = True, g_off_31_16 = drop_bit 16 off\<rparr>"

text \<open>The descriptor table that \<open>tvinit\<close> fills, for the entry points \<open>vectors\<close> of the assembler file.\<close>

definition idt :: "(nat \<Rightarrow> uint) \<Rightarrow> nat \<Rightarrow> gatedesc" where
  "idt vectors i =
     (if i = 64 then SETGATE True 8 (vectors i) 3 else SETGATE False 8 (vectors i) 0)"

definition tvinit :: "('z procs_scheme, unit) kop" where
  "tvinit = initlock TicksLock"

definition lapiceoi :: "('z traps_scheme, unit) kop" where
  "lapiceoi = modk (\<lambda>s. s\<lparr>eois := eois s + 1\<rparr>)"

definition is_killed :: "('z machine_scheme, bool) kop" where
  "is_killed = bindk curproc (\<lambda>p. getk (\<lambda>s. killed (ptable s p)))"

definition trap_syscall :: "trapframe \<Rightarrow> ('z traps_scheme, unit) kop" where
  "trap_syscall f =
     bindk is_killed (\<lambda>k.
     thenk (whenk k exit) (
     bindk curproc (\<lambda>p.
     thenk (set_proc p (\<lambda>q. q\<lparr>tf := f\<rparr>)) (
     thenk syscall (
     bindk is_killed (\<lambda>k.
     whenk k exit))))))"

definition timer_tick :: "('z procs_scheme, unit) kop" where
  "timer_tick =
     bindk cpuid (\<lambda>c.
     whenk (c = 0) (
       thenk (acquire TicksLock) (
       thenk (modk (\<lambda>s. s\<lparr>ticks := ticks s + 1\<rparr>)) (
       thenk (wakeup ChanTicks)
         (release TicksLock)))))"

definition user_mode :: "trapframe \<Rightarrow> bool" where
  "user_mode f \<longleftrightarrow> tf_cs f AND 3 = 3"

definition trap_other :: "trapframe \<Rightarrow> ('z traps_scheme, unit) kop" where
  "trap_other f =
     bindk myproc (\<lambda>po.
     bindk cpuid (\<lambda>c.
     bindk (getk cr2) (\<lambda>a.
     case (if tf_cs f AND 3 = 0 then None else po) of
       None \<Rightarrow>
         thenk (cprintf (''unexpected trap %d from cpu %d eip %x (cr2=0x%x)'' @ [CHR 0x0A])
           [Num (tf_trapno f), Num (of_nat c), Num (tf_eip f), Num a])
           (panic ''trap'')
     | Some p \<Rightarrow>
         bindk (getk (\<lambda>s. ptable s p)) (\<lambda>q.
         thenk (cprintf (''pid %d %s: trap %d err %d on cpu %d eip 0x%x addr 0x%x--kill proc'' @ [CHR 0x0A])
           [Num (of_int (pid q)), Str (Some (chars (pname q))), Num (tf_trapno f), Num (tf_err f),
            Num (of_nat c), Num (tf_eip f), Num a])
           (set_proc p (\<lambda>q. q\<lparr>killed := True\<rparr>))))))"

definition trap_device :: "trapframe \<Rightarrow> ('z traps_scheme, unit) kop" where
  "trap_device f =
     (if tf_trapno f = 32 then thenk timer_tick lapiceoi
      else if tf_trapno f = 46 then lapiceoi
      else if tf_trapno f = 47 then ret ()
      else if tf_trapno f = 33 then thenk kbdintr lapiceoi
      else if tf_trapno f = 36 then thenk uartintr lapiceoi
      else if tf_trapno f = 39 \<or> tf_trapno f = 63 then
        bindk cpuid (\<lambda>c.
        thenk (cprintf (''cpu%d: spurious interrupt at %x:%x'' @ [CHR 0x0A])
          [Num (of_nat c), Num (ucast (tf_cs f)), Num (tf_eip f)])
          lapiceoi)
      else trap_other f)"

text \<open>\<open>myproc() && myproc()->killed && (tf->cs&3) == DPL_USER\<close>\<close>

definition exit_if_killed :: "trapframe \<Rightarrow> ('z procs_scheme, unit) kop" where
  "exit_if_killed f =
     bindk myproc (\<lambda>po. case po of None \<Rightarrow> ret () | Some p \<Rightarrow>
     bindk (getk (\<lambda>s. killed (ptable s p))) (\<lambda>k.
     whenk (k \<and> user_mode f) exit))"

definition trap :: "trapframe \<Rightarrow> ('z traps_scheme, unit) kop" where
  "trap f =
     (if tf_trapno f = T_SYSCALL then trap_syscall f
      else
        thenk (trap_device f) (
        thenk (exit_if_killed f) (
        bindk myproc (\<lambda>po.
        thenk (case po of None \<Rightarrow> ret () | Some p \<Rightarrow>
          bindk (getk (\<lambda>s. state (ptable s p))) (\<lambda>st.
          whenk (st = RUNNING \<and> tf_trapno f = IRQ_TIMER) yield))
          (exit_if_killed f)))))"

end
