(* ===== verification/Family.thy ===== *)
theory Family
  imports Exec Syscall
begin

text \<open>
  The process table under the whole kernel. \<open>calm s t\<close> is the discipline that all code outside
  \<open>proc.c\<close> obeys: it creates and ends no process, moves none to another processor, and makes at most
  sleeping processes runnable; \<open>rest\<close> is what it may leave behind when it blocks, with the current
  process put to sleep. The operations of \<open>proc.c\<close> that do more are shown to keep \<open>procs_ok\<close>: process
  identifiers are unique, a process runs on one processor at most, and parents are alive. The last
  section composes this into a statement about every system call and every trap.
\<close>

subsection \<open>What code outside the process manager may change\<close>

definition calm_state :: "procstate \<Rightarrow> procstate \<Rightarrow> bool" where
  "calm_state a b \<longleftrightarrow> b = a \<or> a = SLEEPING \<and> b = RUNNABLE"

definition same_procs :: "'z machine_scheme \<Rightarrow> 'z machine_scheme \<Rightarrow> bool" where
  "same_procs s t \<longleftrightarrow> lapicid t = lapicid s \<and> apicid t = apicid s \<and> ncpu t = ncpu s \<and>
     nextpid t = nextpid s \<and> initproc t = initproc s \<and>
     (\<forall>c. cpu_proc (cpus t c) = cpu_proc (cpus s c)) \<and>
     (\<forall>p. pid (ptable t p) = pid (ptable s p) \<and> parent (ptable t p) = parent (ptable s p))"

definition calm :: "'z machine_scheme \<Rightarrow> 'z machine_scheme \<Rightarrow> bool" where
  "calm s t \<longleftrightarrow> same_procs s t \<and> (\<forall>p. calm_state (state (ptable s p)) (state (ptable t p)))"

definition current :: "'z machine_scheme \<Rightarrow> nat option" where
  "current s = cpu_proc (cpus s (me s))"

definition rest :: "'z machine_scheme \<Rightarrow> 'z machine_scheme \<Rightarrow> bool" where
  "rest s t \<longleftrightarrow> same_procs s t \<and> (\<forall>p. calm_state (state (ptable s p)) (state (ptable t p)) \<or>
     current s = Some p \<and> (state (ptable t p) = SLEEPING \<or> state (ptable t p) = RUNNABLE))"

lemma same_procs_trans: "same_procs s t \<Longrightarrow> same_procs t u \<Longrightarrow> same_procs s u"
  by (simp add: same_procs_def)

lemma calm_state_trans: "calm_state a b \<Longrightarrow> calm_state b c \<Longrightarrow> calm_state a c"
  by (auto simp: calm_state_def)

lemma calm_me: "calm s t \<Longrightarrow> me t = me s"
  by (simp add: calm_def same_procs_def me_def)

lemma calm_current: "calm s t \<Longrightarrow> current t = current s"
  by (simp add: calm_def same_procs_def current_def me_def)

interpretation calmly: waiting_discipline calm rest
proof
  fix s t u :: "'z machine_scheme"
  show "calm s s" "rest s s"
    by (simp_all add: calm_def rest_def same_procs_def calm_state_def)
  show "calm s u" if "calm s t" "calm t u"
    using that by (auto simp: calm_def intro: same_procs_trans calm_state_trans)
  show "rest s u" if "calm s t" "rest t u"
    using that calm_current [OF that(1)] by (auto simp: calm_def rest_def intro: same_procs_trans calm_state_trans)
qed

abbreviation calmly :: "('z machine_scheme, 'a) kop \<Rightarrow> bool" where
  "calmly m \<equiv> steps calm rest m"

lemma calm_same:
  "same_procs s t \<Longrightarrow> (\<And>p. state (ptable t p) = state (ptable s p)) \<Longrightarrow> calm s t"
  by (simp add: calm_def calm_state_def)

lemma calmly_modk:
  "(\<And>s. same_procs s (f s) \<and> (\<forall>p. state (ptable (f s) p) = state (ptable s p))) \<Longrightarrow> calmly (modk f)"
  by (rule calmly.steps_modk) (simp add: calm_same)

lemma calmly_set_proc:
  "(\<And>q. pid (f q) = pid q \<and> parent (f q) = parent q \<and> state (f q) = state q) \<Longrightarrow> calmly (set_proc p f)"
  unfolding set_proc_def by (rule calmly_modk) (simp add: same_procs_def)

lemma calmly_set_cpu: "(\<And>q. cpu_proc (f q) = cpu_proc q) \<Longrightarrow> calmly (set_cpu c f)"
  unfolding set_cpu_def by (rule calmly_modk) (simp add: same_procs_def)

lemma calmly_wakeup1 [inv_intros]: "calmly (wakeup1 ch)"
  unfolding wakeup1_def
  by (rule calmly.steps_modk) (auto simp: calm_def same_procs_def calm_state_def wake_def)

subsection \<open>The machine\<close>

lemma calmly_interrupts [inv_intros]: "calmly cli" "calmly sti" "calmly mycpu" "calmly (initlock lk)"
  unfolding cli_def sti_def mycpu_def initlock_def
  by (intro inv_intros calmly_modk; simp add: same_procs_def)+

lemma calmly_pushcli [inv_intros]: "calmly pushcli"
  unfolding pushcli_def by (intro inv_intros calmly_set_cpu; simp)

lemma calmly_popcli [inv_intros]: "calmly popcli"
  unfolding popcli_def by (intro inv_intros calmly_set_cpu; simp)

lemma calmly_myproc [inv_intros]: "calmly myproc" "calmly curproc" "calmly cur_pid" "calmly (holding lk)" "calmly cpuid"
  unfolding myproc_def curproc_def cur_pid_def holding_def cpuid_def by (intro inv_intros)+

lemma calmly_acquire [inv_intros]: "calmly (acquire lk)"
  unfolding acquire_def by (intro inv_intros calmly_modk; simp add: same_procs_def)

lemma calmly_release [inv_intros]: "calmly (release lk)"
  unfolding release_def by (intro inv_intros calmly_modk; simp add: same_procs_def)

lemma calmly_wakeup [inv_intros]: "calmly (wakeup ch)"
  unfolding wakeup_def by (intro inv_intros)

lemma calmly_sched [inv_intros]: "calmly sched"
  unfolding sched_def by (intro inv_intros)


lemma calm_rest: "calm s t \<Longrightarrow> rest s t"
  by (simp add: calm_def rest_def)

lemma rest_trans:
  assumes "rest s t" "rest t u"
  shows "rest s u"
proof -
  have "current t = current s" using assms by (simp add: rest_def same_procs_def current_def me_def)
  then have "calm_state (state (ptable s p)) (state (ptable u p)) \<or>
      current s = Some p \<and> (state (ptable u p) = SLEEPING \<or> state (ptable u p) = RUNNABLE)" for p
    using assms unfolding rest_def calm_state_def by metis
  then show ?thesis using assms same_procs_trans by (auto simp: rest_def)
qed

text \<open>Code that neither spins nor sleeps.\<close>

interpretation awake: discipline "\<lambda>_ _. True" "\<lambda>_ _. False"
  by unfold_locales simp_all

lemma awake_set [inv_intros]: "steps (\<lambda>_ _. True) (\<lambda>_ _. False) (modk f)"
  by (rule awake.steps_modk) simp

lemma awake_sched: "steps (\<lambda>_ _. True) (\<lambda>_ _. False) sched"
  unfolding sched_def myproc_def holding_def pushcli_def popcli_def mycpu_def set_cpu_def cli_def sti_def
  by (intro inv_intros)

lemma wlp_sched: "wlp sched (\<lambda>_. calm s) (\<lambda>_. False) s"
  using stepsD [OF awake_sched, of s] stepsD [OF calmly_sched, of s] by (auto simp: wlp_def split: outcome.splits)

lemma wlp_mycpu: "wlp mycpu (\<lambda>c t. t = s \<and> c = me s) (\<lambda>_. False) s"
  by (simp add: mycpu_def wp_simps me_def split: option.split)

lemma wlp_myproc: "wlp myproc (\<lambda>po t. calm s t \<and> po = current s) (rest s) s"
proof -
  have "wlp popcli (\<lambda>_ u. wlp (ret (cpu_proc (cpus t (me t)))) (\<lambda>po t. calm s t \<and> po = current s) (rest s) u) (rest s) t"
    if "calm s t" for t
    by (rule steps_wlp [OF calmly_popcli])
       (use that calm_current [OF that] calmly.trans [OF that] calmly.late [OF that] in \<open>simp_all add: wp_simps current_def\<close>)
  then show ?thesis
    unfolding myproc_def wp_simps
    by (intro steps_wlp [OF calmly_pushcli] wlp_mono [OF wlp_mycpu]) (simp_all add: wp_simps)
qed

lemma wlp_curproc: "wlp curproc (\<lambda>p t. calm s t \<and> current s = Some p) (rest s) s"
  unfolding curproc_def wp_simps
  by (rule wlp_mono [OF wlp_myproc]) (auto simp: wp_simps split: option.split)

text \<open>The entry of \<open>sleep\<close> leaves the table at rest, with the lock of the table held.\<close>

lemma wlp_set_asleep:
  assumes "calm s t" "current s = Some p"
  shows "wlp (thenk (set_proc p (\<lambda>q. q\<lparr>chan := Some ch\<rparr>)) (thenk (set_proc p (\<lambda>q. q\<lparr>state := SLEEPING\<rparr>)) sched))
    (\<lambda>_. rest s) (rest s) t"
proof -
  let ?u = "t\<lparr>ptable := (ptable t)(p := (ptable t p)\<lparr>chan := Some ch, state := SLEEPING\<rparr>)\<rparr>"
  have "rest s ?u" using assms by (auto simp: calm_def rest_def same_procs_def)
  then have "wlp sched (\<lambda>_. rest s) (rest s) ?u"
    by (intro steps_wlp [OF calmly_sched]) (auto intro: rest_trans calm_rest)
  then show ?thesis by (simp add: wp_simps set_proc_def)
qed

lemma wlp_sleep_enter: "wlp (sleep_enter ch lk) (\<lambda>_. rest s) (rest s) s"
  unfolding sleep_enter_def wlp_bindk
proof (rule wlp_mono [OF wlp_myproc])
  fix po t assume t: "calm s t \<and> po = current s"
  let ?swap = "whenk (lk \<noteq> PtableLock) (thenk (acquire PtableLock) (release lk))"
  have "calmly ?swap" by (intro inv_intros)
  then have "wlp ?swap (\<lambda>_. calm s) (rest s) t"
    by (rule steps_wlp) (use t in \<open>auto dest: calmly.trans calmly.late\<close>)
  then show "wlp (case po of None \<Rightarrow> panic ''sleep'' | Some p \<Rightarrow>
       thenk ?swap (thenk (set_proc p (\<lambda>q. q\<lparr>chan := Some ch\<rparr>)) (thenk (set_proc p (\<lambda>q. q\<lparr>state := SLEEPING\<rparr>)) sched)))
    (\<lambda>_. rest s) (rest s) t"
    using t by (auto simp: wlp_panic wlp_thenk [of ?swap] split: option.split elim!: wlp_mono intro: wlp_set_asleep)
qed

lemma calmly_sleep [inv_intros]: "calmly (sleep ch lk)"
  unfolding sleep_def by (rule stepsI) (simp add: wlp_thenk wlp_block wlp_sleep_enter)

subsection \<open>Sleep locks and the console\<close>

lemma calmly_sleeplock [inv_intros]:
  assumes "\<And>l s. same_procs s (put l s) \<and> (\<forall>p. state (ptable (put l s) p) = state (ptable s p))"
  shows "calmly (acquiresleep lk ch get put)" "calmly (releasesleep lk ch put)" "calmly (initsleeplock lk put)"
  unfolding acquiresleep_def releasesleep_def initsleeplock_def
  by (intro inv_intros calmly_modk assms)+

lemma calmly_holdingsleep [inv_intros]: "calmly (holdingsleep lk get)"
  unfolding holdingsleep_def by (intro inv_intros)

lemma calmly_putc [inv_intros]: "calmly (uartputc c)" "calmly (cgaputc c)"
  unfolding uartputc_def cgaputc_def by (intro inv_intros calmly_modk; simp add: same_procs_def)+

lemma calmly_consputc [inv_intros]: "calmly (consputc c)" "calmly (consputs xs)" "calmly (printint x b sg)"
  unfolding consputs_def printint_def consputc_def by (intro inv_intros)+

lemma calmly_print_conv [inv_intros]: "calmly (print_conv c args)"
  by (auto simp: print_conv.simps split: list.split carg.split option.split intro!: inv_intros)

lemma calmly_print_fmt [inv_intros]: "calmly (print_fmt fmt args)"
  by (induction fmt args rule: print_fmt.induct) (simp_all split: list.split add: inv_intros)

lemma calmly_cprintf [inv_intros]: "calmly (cprintf fmt args)"
  unfolding cprintf_def by (intro inv_intros)

subsection \<open>Memory\<close>

lemma calmly_kfree [inv_intros]: "calmly (kfree v)"
  unfolding kfree_def by (intro inv_intros calmly_modk; simp add: same_procs_def)

lemma calmly_kalloc [inv_intros]: "calmly kalloc"
  unfolding kalloc_def by (intro inv_intros calmly_modk; simp add: same_procs_def)

lemma calmly_stores [inv_intros]:
  "calmly (set_gdt c i d)" "calmly (set_ts c f)" "calmly (lcr3 v)" "calmly (ld32 a)" "calmly (st32 a w)"
  "calmly (fill a b n)" "calmly (move_mem dst src n)"
  unfolding set_gdt_def set_ts_def lcr3_def ld32_def st32_def fill_def move_mem_def
  by (intro inv_intros calmly_modk; simp add: same_procs_def)+

lemma calmly_walkpgdir [inv_intros]: "calmly (walkpgdir pd va alloc)"
  unfolding walkpgdir_def by (intro inv_intros)

lemma calmly_mappages [inv_intros]: "calmly (mappages pd va n pa perm)"
proof -
  have "calmly (map_loop k pd a la pa perm)" for k a pa la
    by (induction k arbitrary: a pa) (auto intro!: inv_intros)
  then show ?thesis by (simp add: mappages_def)
qed

lemma calmly_deallocuvm [inv_intros]: "calmly (deallocuvm pd oldsz newsz)"
proof -
  have "calmly (dealloc_loop k pd a n)" for k a n
    by (induction k arbitrary: a) (auto simp: Let_def intro!: inv_intros)
  then show ?thesis by (auto simp: deallocuvm_def intro!: inv_intros)
qed

lemma calmly_freevm [inv_intros]: "calmly (freevm pd)"
  unfolding freevm_def by (intro inv_intros)

lemma calmly_map_kernel [inv_intros]: "calmly (map_kernel pd ks)"
  by (induction ks) (auto intro!: inv_intros)

lemma calmly_setupkvm [inv_intros]: "calmly setupkvm" "calmly switchkvm"
  unfolding setupkvm_def switchkvm_def by (intro inv_intros)+

lemma calmly_switchuvm [inv_intros]: "calmly (switchuvm po)"
  unfolding switchuvm_def by (intro inv_intros calmly_modk; simp add: same_procs_def)

lemma calmly_allocuvm [inv_intros]: "calmly (allocuvm pd oldsz newsz)"
proof -
  have "calmly (alloc_loop k pd a oldsz newsz)" for k a
    by (induction k arbitrary: a) (auto intro!: inv_intros)
  then show ?thesis by (auto simp: allocuvm_def intro!: inv_intros)
qed

lemma calmly_clearpteu [inv_intros]: "calmly (clearpteu pd a)" "calmly (uva2ka pd a)"
  unfolding clearpteu_def uva2ka_def by (intro inv_intros)+

lemma calmly_copyuvm [inv_intros]: "calmly (copyuvm pd n)"
proof -
  have "calmly (copy_loop k pd d i n)" for k d i
    by (induction k arbitrary: i) (auto intro!: inv_intros)
  then show ?thesis by (auto simp: copyuvm_def intro!: inv_intros)
qed

lemma calmly_copyout [inv_intros]: "calmly (copyout pd va bs)"
proof -
  have "calmly (copyout_loop k pd va bs)" for k va bs
    by (induction k arbitrary: va bs) (auto simp: Let_def same_procs_def intro!: inv_intros calmly_modk)
  then show ?thesis by (simp add: copyout_def del: copyout_loop.simps)
qed

subsection \<open>Disk and file system\<close>

lemma calm_upd_buf: "same_procs s (upd_buf i f s) \<and> (\<forall>p. state (ptable (upd_buf i f s) p) = state (ptable s p))"
  by (simp add: upd_buf_def same_procs_def)

lemma calmly_buf [inv_intros]:
  "calmly (acquire_buf i)" "calmly (release_buf i)" "calmly (holding_buf i)" "calmly (set_data i g)" "calmly (get_data i)"
  unfolding acquire_buf_def release_buf_def holding_buf_def set_data_def get_data_def
  by (intro inv_intros calmly_modk calm_upd_buf)+

lemma calmly_iderw [inv_intros]: "calmly (iderw i)"
  unfolding iderw_def by (intro inv_intros calmly_modk; simp add: same_procs_def upd_buf_def)

lemma calmly_bget [inv_intros]: "calmly (bget dev b)"
  unfolding bget_def by (intro inv_intros calmly_modk calm_upd_buf)

lemma calmly_bread [inv_intros]: "calmly (bread dev b)" "calmly (bwrite i)"
  unfolding bread_def bwrite_def by (intro inv_intros calmly_modk calm_upd_buf)+

lemma calmly_brelse [inv_intros]: "calmly (brelse i)"
  unfolding brelse_def by (intro inv_intros calmly_modk; simp add: same_procs_def upd_buf_def)

lemma calmly_install [inv_intros]: "calmly install_trans" "calmly write_log" "calmly write_head"
  unfolding install_trans_def write_log_def write_head_def install_one_def write_one_def by (intro inv_intros)+

lemma calmly_commit [inv_intros]: "calmly commit"
  unfolding commit_def by (intro inv_intros calmly_modk; simp add: same_procs_def)

lemma calmly_op [inv_intros]: "calmly begin_op" "calmly end_op" "calmly (log_write b)"
  unfolding begin_op_def end_op_def log_write_def
  by (intro inv_intros calmly_modk; simp add: same_procs_def upd_buf_def)+

lemma calmly_bzero [inv_intros]: "calmly (bzero dev b)" "calmly (bfree dev b)"
  unfolding bzero_def bfree_def by (intro inv_intros)+

lemma calmly_balloc [inv_intros]: "calmly (balloc dev)"
proof -
  have "calmly (balloc_scan dev bs)" for bs
    by (induction bs) (simp_all only: balloc_scan.simps, (intro inv_intros; assumption)+)
  then show ?thesis unfolding balloc_def by (intro inv_intros)
qed

lemma calm_upd_inode:
  "same_procs s (upd_inode i f s) \<and> (\<forall>p. state (ptable (upd_inode i f s) p) = state (ptable s p))"
  by (simp add: upd_inode_def same_procs_def)

lemma calmly_inode [inv_intros]: "calmly (set_inode i f)" "calmly (get_inode i)" "calmly (set_d i g)"
  "calmly (acquire_inode i)" "calmly (release_inode i)" "calmly (holding_inode i)"
  unfolding set_d_def set_inode_def get_inode_def acquire_inode_def release_inode_def holding_inode_def
  by (intro inv_intros calmly_modk calm_upd_inode)+

lemma calmly_iget [inv_intros]: "calmly (iget dev inum)" "calmly (idup i)" "calmly (iupdate i)"
  unfolding iget_def idup_def iupdate_def by (intro inv_intros)+

lemma calmly_ialloc [inv_intros]: "calmly (ialloc dev typ)"
proof -
  have "calmly (ialloc_scan dev typ ns)" for ns
    by (induction ns) (simp_all only: ialloc_scan.simps, (intro inv_intros; assumption)+)
  then show ?thesis unfolding ialloc_def by (intro inv_intros)
qed

lemma calmly_ilock [inv_intros]: "calmly (ilock i)" "calmly (iunlock i)" "calmly (bmap i bn)"
  unfolding ilock_def iunlock_def bmap_def by (intro inv_intros)+

lemma calmly_iput [inv_intros]: "calmly (itrunc i)" "calmly (iput i)" "calmly (iunlockput i)" "calmly (stati i)"
  unfolding itrunc_def iunlockput_def iput_def stati_def by (intro inv_intros)+

lemma calmly_set_input [inv_intros]: "calmly (set_input f)"
  unfolding set_input_def by (rule calmly_modk) (simp add: same_procs_def)

lemma calmly_cons_read [inv_intros]: "calmly (cons_read target n acc)"
  by (induction n arbitrary: acc) (simp_all only: cons_read.simps, (intro inv_intros; assumption)+)

lemma calmly_console [inv_intros]: "calmly (consoleread i n)" "calmly (consolewrite i bs)"
  unfolding consoleread_def consolewrite_def by (intro inv_intros)+

lemma calmly_driver [inv_intros]: "calmly m \<Longrightarrow> calmly (case d of ConsoleDriver \<Rightarrow> m)"
  by (simp split: driver.split)

lemma calmly_readi [inv_intros]: "calmly (readi i off n)"
proof -
  have "calmly (readi_loop k i off n)" for k off n
    by (induction k arbitrary: off n) (simp_all only: readi_loop.simps, (intro inv_intros; assumption)+)
  then show ?thesis unfolding readi_def by (intro inv_intros)
qed

lemma calmly_writei [inv_intros]: "calmly (writei i src off)"
proof -
  have "calmly (writei_loop k i off src)" for k off src
    by (induction k arbitrary: off src) (simp_all only: writei_loop.simps, (intro inv_intros; assumption)+)
  then show ?thesis unfolding writei_def by (intro inv_intros)
qed

lemma calmly_dirlookup [inv_intros]: "calmly (dirlookup dp name)"
proof -
  have "calmly (dirlookup_from k dp name off)" for k off
    by (induction k arbitrary: off) (simp_all only: dirlookup_from.simps, (intro inv_intros; assumption)+)
  then show ?thesis unfolding dirlookup_def by (intro inv_intros)
qed

lemma calmly_dirlink [inv_intros]: "calmly (dirlink dp name inum)"
proof -
  have "calmly (dir_free_from k dp off)" for k off
    by (induction k arbitrary: off) (simp_all only: dir_free_from.simps, (intro inv_intros; assumption)+)
  then show ?thesis unfolding dirlink_def by (intro inv_intros)
qed

lemma calmly_namex [inv_intros]: "calmly (namex path np)" "calmly (namei path)" "calmly (nameiparent path)"
proof -
  have loop: "calmly (namex_loop k ip path np name)" for k ip path np name
    by (induction k arbitrary: ip path name) (simp_all only: namex_loop.simps, (intro inv_intros; assumption)+)
  show "calmly (namex path np)" "calmly (namei path)" "calmly (nameiparent path)"
    unfolding namei_def nameiparent_def namex_def by (intro inv_intros loop)+
qed

subsection \<open>Pipes and files\<close>

lemma calmly_pipe [inv_intros]: "calmly (set_pipe p f)" "calmly (get_pipe p)" "calmly (pipeclose p w)"
  unfolding pipeclose_def set_pipe_def get_pipe_def
  by (intro inv_intros calmly_modk; simp add: same_procs_def)+

lemma calmly_pipewrite [inv_intros]: "calmly (pipewrite p bs)"
proof -
  have "calmly (write_bytes p bs)" for bs
    by (induction bs) (simp_all only: write_bytes.simps, (intro inv_intros; assumption)+)
  then show ?thesis unfolding pipewrite_def by (intro inv_intros)
qed

lemma calmly_piperead [inv_intros]: "calmly (piperead p n)"
proof -
  have "calmly (read_bytes p n)" for n
    by (induction n) (simp_all only: read_bytes.simps, (intro inv_intros; assumption)+)
  then show ?thesis unfolding piperead_def by (intro inv_intros)
qed

lemma calmly_file [inv_intros]: "calmly (set_file i f)" "calmly (get_file i)"
  unfolding set_file_def get_file_def by (intro inv_intros calmly_modk; simp add: same_procs_def)+

lemma calmly_filealloc [inv_intros]: "calmly filealloc" "calmly (filedup i)" "calmly (fileclose i)"
  "calmly (filestat i)" "calmly (fileread i n)" "calmly pipealloc"
  unfolding pipealloc_def filealloc_def filedup_def fileclose_def filestat_def fileread_def
  by (intro inv_intros)+

lemma calmly_filewrite [inv_intros]: "calmly (filewrite i bs)"
proof -
  have "calmly (filewrite_loop k i bs)" for k bs
    by (induction k arbitrary: bs) (simp_all only: filewrite_loop.simps, (intro inv_intros; assumption)+)
  then show ?thesis unfolding filewrite_def by (intro inv_intros)
qed

subsection \<open>Program loading and system call arguments\<close>

lemma calmly_user [inv_intros]: "calmly (uload va)" "calmly (ustore va b)"
  unfolding uload_def ustore_def by (intro inv_intros calmly_modk; simp add: same_procs_def)+

lemma calmly_uload_bytes [inv_intros]: "calmly (uload_bytes va n)"
  by (induction n arbitrary: va) (simp_all only: uload_bytes.simps, (intro inv_intros; assumption)+)

lemma calmly_ustore_bytes [inv_intros]: "calmly (ustore_bytes va bs)"
  by (induction bs arbitrary: va) (simp_all only: ustore_bytes.simps, (intro inv_intros; assumption)+)

lemma calmly_fetchint [inv_intros]: "calmly (fetchint a)" "calmly (argint n)" "calmly (argptr n len)"
  unfolding argptr_def argint_def fetchint_def by (intro inv_intros)+

lemma calmly_fetchstr [inv_intros]: "calmly (fetchstr a)" "calmly (argstr n)"
proof -
  have scan: "calmly (scan_str k a ep)" for k a ep
    by (induction k arbitrary: a) (simp_all only: scan_str.simps, (intro inv_intros; assumption)+)
  show "calmly (fetchstr a)" "calmly (argstr n)"
    unfolding argstr_def fetchstr_def by (intro inv_intros scan)+
qed

lemma calmly_loaduvm [inv_intros]: "calmly (loaduvm pd a ip off n)"
proof -
  have "calmly (load_pages k pd a ip off i n)" for k i
    by (induction k arbitrary: i) (auto simp: Let_def same_procs_def intro!: inv_intros calmly_modk)
  then show ?thesis unfolding loaduvm_def by (intro inv_intros)
qed

lemma calmly_load_segments [inv_intros]: "calmly (load_segments k pd ip off n)"
  by (induction k arbitrary: off n) (simp_all only: load_segments.simps, (intro inv_intros; assumption)+)

lemma calmly_push_args [inv_intros]: "calmly (push_args pd sp argc as)"
  by (induction as arbitrary: sp argc) (simp_all only: push_args.simps, (intro inv_intros; assumption)+)

lemma calmly_exec [inv_intros]: "calmly (exec path argv)"
  unfolding exec_def exec_stack_def exec_commit_def exec_bad_def by (intro inv_intros calmly_set_proc; simp)

subsection \<open>File system calls\<close>

lemma calmly_argfd [inv_intros]: "calmly (argfd n)" "calmly (set_ofile p fd fo)" "calmly (fdalloc f)" "calmly arg_buf"
  unfolding arg_buf_def argfd_def fdalloc_def set_ofile_def by (intro inv_intros calmly_set_proc; simp)+

lemma calmly_sys_files [inv_intros]: "calmly sys_dup" "calmly sys_read" "calmly sys_write" "calmly sys_close"
  "calmly (put_stat a st)" "calmly sys_fstat"
  unfolding sys_dup_def sys_read_def sys_write_def sys_close_def sys_fstat_def put_stat_def by (intro inv_intros)+

lemma calmly_sys_link [inv_intros]: "calmly (add_nlink i k)" "calmly (link_bad i)" "calmly sys_link"
  unfolding sys_link_def link_bad_def add_nlink_def by (intro inv_intros)+

lemma calmly_isdirempty [inv_intros]: "calmly (isdirempty dp)"
proof -
  have "calmly (isdirempty_from k dp off)" for k off
    by (induction k arbitrary: off) (simp_all only: isdirempty_from.simps, (intro inv_intros; assumption)+)
  then show ?thesis unfolding isdirempty_def by (intro inv_intros)
qed

lemma calmly_sys_unlink [inv_intros]: "calmly sys_unlink"
  unfolding sys_unlink_def unlink_bad_def unlink_entry_def by (intro inv_intros)

lemma calmly_create [inv_intros]: "calmly (create path typ major minor)" "calmly (open_inode path omode)"
  "calmly (finish_create io)"
  unfolding open_inode_def create_def finish_create_def by (intro inv_intros)+

lemma calmly_sys_open [inv_intros]: "calmly sys_open" "calmly sys_mkdir" "calmly sys_mknod" "calmly sys_pipe"
  unfolding sys_open_def sys_mkdir_def sys_mknod_def sys_pipe_def by (intro inv_intros)+

lemma calmly_sys_chdir [inv_intros]: "calmly sys_chdir"
  unfolding sys_chdir_def by (intro inv_intros calmly_set_proc; simp)

lemma calmly_sys_exec [inv_intros]: "calmly sys_exec"
proof -
  have "calmly (fetch_argv k a i)" for k a i
    by (induction k arbitrary: i) (simp_all only: fetch_argv.simps, (intro inv_intros; assumption)+)
  then show ?thesis unfolding sys_exec_def by (intro inv_intros)
qed

subsection \<open>The calm part of the process manager and the interrupt handlers\<close>

lemma calmly_growproc [inv_intros]: "calmly (growproc n)"
  unfolding growproc_def Let_def by (intro inv_intros calmly_set_proc; simp)

lemma calmly_dup_files [inv_intros]: "calmly (dup_files cur np)" "calmly (close_files p)"
  unfolding dup_files_def close_files_def by (intro inv_intros calmly_set_proc; simp)+

lemma calmly_wakeup_proc [inv_intros]: "calmly (wakeup_proc po)"
  unfolding wakeup_proc_def by (intro inv_intros)

lemma calmly_kill [inv_intros]: "calmly (kill n)"
proof -
  have "calmly (set_proc p (\<lambda>q. if state q = SLEEPING then q\<lparr>state := RUNNABLE\<rparr> else q))" for p
    unfolding set_proc_def by (rule calmly.steps_modk) (auto simp: calm_def same_procs_def calm_state_def)
  moreover have "calmly (set_proc p (\<lambda>q. q\<lparr>killed := True\<rparr>))" for p
    by (rule calmly_set_proc) simp
  ultimately show ?thesis unfolding kill_def by (intro inv_intros)
qed

lemma calmly_listings [inv_intros]: "calmly procdump" "calmly getproccount"
  unfolding procdump_def getproccount_def by (intro inv_intros)+

lemma calmly_getc [inv_intros]: "calmly kbdgetc" "calmly uartgetc"
  unfolding kbdgetc_def uartgetc_def by (intro inv_intros calmly_modk; simp add: same_procs_def)+

lemma calmly_cons_char [inv_intros]: "calmly (cons_char c)"
proof -
  have "calmly (kill_line k)" for k
    by (induction k) (simp_all only: kill_line.simps, (intro inv_intros; assumption)+)
  then show ?thesis unfolding cons_char_def put_char_def by (intro inv_intros)
qed

lemma calmly_consoleintr [inv_intros]:
  assumes "calmly getc"
  shows "calmly (consoleintr n getc)"
proof -
  have "calmly (intr_loop k getc d)" for k d
    by (induction k arbitrary: d) (simp_all only: intr_loop.simps, (intro inv_intros assms; assumption)+)
  then show ?thesis unfolding consoleintr_def by (intro inv_intros)
qed

lemma calmly_interrupts_in [inv_intros]: "calmly kbdintr" "calmly uartintr"
  unfolding kbdintr_def uartintr_def by (intro inv_intros)+

lemma calmly_sys_procs [inv_intros]: "calmly sys_kill" "calmly sys_getpid" "calmly sys_sbrk" "calmly sys_sleep"
  "calmly sys_uptime" "calmly sys_getproccount" "calmly sys_reboot"
  unfolding sys_kill_def sys_getpid_def sys_sbrk_def sys_sleep_def sys_uptime_def sys_getproccount_def sys_reboot_def
    out_port_def
  by (intro inv_intros calmly_modk; simp add: same_procs_def)+

lemma calmly_timer_tick [inv_intros]: "calmly timer_tick" "calmly lapiceoi"
  unfolding timer_tick_def lapiceoi_def by (intro inv_intros calmly_modk; simp add: same_procs_def)+

lemma calmly_trap_device [inv_intros]: "calmly (trap_device f)" "calmly is_killed" "calmly (set_eax p r)"
  unfolding trap_device_def trap_other_def is_killed_def set_eax_def
  by (intro inv_intros calmly_set_proc; simp)+

subsection \<open>The process table\<close>

text \<open>\<open>procs_ok X s\<close>: the identifiers of the processes in use are positive, distinct and below the counter.
  Every processor outside \<open>X\<close> runs at most one process, which is marked running and runs nowhere else; a processor in
  \<open>X\<close> is switching, and its process is in use. Init is not a zombie, an unused slot has no parent, and every other
  parent is a process that has been set up and is not a zombie.\<close>

definition grown :: "'z machine_scheme \<Rightarrow> nat \<Rightarrow> bool" where
  "grown s p \<longleftrightarrow> p < NPROC \<and> state (ptable s p) \<noteq> UNUSED \<and> state (ptable s p) \<noteq> EMBRYO \<and> state (ptable s p) \<noteq> ZOMBIE"

definition on_cpus_ok :: "nat set \<Rightarrow> 'z machine_scheme \<Rightarrow> bool" where
  "on_cpus_ok X s \<longleftrightarrow> (\<forall>c p. cpu_proc (cpus s c) = Some p \<longrightarrow> live s p \<and> (c \<notin> X \<longrightarrow> state (ptable s p) = RUNNING) \<and>
     (\<forall>d. cpu_proc (cpus s d) = Some p \<longrightarrow> d = c))"

definition parents_ok :: "'z machine_scheme \<Rightarrow> bool" where
  "parents_ok s \<longleftrightarrow> (\<forall>i. initproc s = Some i \<longrightarrow> grown s i) \<and>
     (\<forall>p. p < NPROC \<longrightarrow> (state (ptable s p) = UNUSED \<longrightarrow> parent (ptable s p) = None) \<and>
       (\<forall>q. parent (ptable s p) = Some q \<longrightarrow> grown s q))"

definition procs_ok :: "nat set \<Rightarrow> 'z machine_scheme \<Rightarrow> bool" where
  "procs_ok X s \<longleftrightarrow> pids_ok s \<and> on_cpus_ok X s \<and> parents_ok s"

lemma procs_ok_same:
  assumes "procs_ok X s" "same_procs s t" "\<And>p. live t p = live s p" "\<And>p. grown t p = grown s p"
    and "\<And>c p. c \<notin> Y \<Longrightarrow> cpu_proc (cpus s c) = Some p \<Longrightarrow> state (ptable t p) = RUNNING"
  shows "procs_ok Y t"
proof -
  have "state (ptable t p) = UNUSED \<longleftrightarrow> state (ptable s p) = UNUSED" if "p < NPROC" for p
    using assms(3) [of p] that by (simp add: live_def)
  then show ?thesis
    using assms unfolding procs_ok_def same_procs_def pids_ok_def on_cpus_ok_def parents_ok_def by simp
qed

lemma calm_states:
  assumes "calm s t"
  shows "live t p = live s p" "grown t p = grown s p" "state (ptable s p) = RUNNING \<Longrightarrow> state (ptable t p) = RUNNING"
    "state (ptable s p) = ZOMBIE \<Longrightarrow> state (ptable t p) = ZOMBIE" "state (ptable s p) = EMBRYO \<Longrightarrow> state (ptable t p) = EMBRYO"
proof -
  have "calm_state (state (ptable s p)) (state (ptable t p))" using assms by (simp add: calm_def)
  then show "live t p = live s p" "grown t p = grown s p" "state (ptable s p) = RUNNING \<Longrightarrow> state (ptable t p) = RUNNING"
    "state (ptable s p) = ZOMBIE \<Longrightarrow> state (ptable t p) = ZOMBIE" "state (ptable s p) = EMBRYO \<Longrightarrow> state (ptable t p) = EMBRYO"
    by (auto simp: calm_state_def live_def grown_def)
qed

lemma procs_ok_calm:
  assumes "procs_ok X s" "calm s t"
  shows "procs_ok X t"
  by (rule procs_ok_same [OF assms(1)])
     (use assms calm_states [OF assms(2)] in \<open>auto simp: calm_def procs_ok_def on_cpus_ok_def\<close>)

lemma procs_ok_current: "procs_ok {} s \<Longrightarrow> current s = Some p \<Longrightarrow> live s p \<and> state (ptable s p) = RUNNING"
  by (auto simp: procs_ok_def on_cpus_ok_def current_def)

lemma procs_ok_rest:
  assumes "procs_ok {} s" "rest s t"
  shows "procs_ok {me s} t"
proof (rule procs_ok_same [OF assms(1)])
  have st: "calm_state (state (ptable s p)) (state (ptable t p)) \<or>
      state (ptable s p) = RUNNING \<and> (state (ptable t p) = SLEEPING \<or> state (ptable t p) = RUNNABLE)" for p
    using assms procs_ok_current [OF assms(1)] by (auto simp: rest_def)
  show "same_procs s t" using assms(2) by (simp add: rest_def)
  show "live t p = live s p" "grown t p = grown s p" for p
    using st [of p] by (auto simp: calm_state_def live_def grown_def)
  show "state (ptable t p) = RUNNING" if "c \<notin> {me s}" "cpu_proc (cpus s c) = Some p" for c p
  proof -
    have "state (ptable s p) = RUNNING" "current s \<noteq> Some p"
      using that assms(1) by (auto simp: procs_ok_def on_cpus_ok_def current_def)
    moreover from assms(2) have "calm_state (state (ptable s p)) (state (ptable t p)) \<or> current s = Some p"
      by (auto simp: rest_def)
    ultimately show ?thesis by (auto simp: calm_state_def)
  qed
qed

definition kept :: "'z machine_scheme \<Rightarrow> 'z machine_scheme \<Rightarrow> bool" where
  "kept s t \<longleftrightarrow> (procs_ok {} s \<longrightarrow> procs_ok {} t \<and> me t = me s)"

definition stopped :: "'z machine_scheme \<Rightarrow> 'z machine_scheme \<Rightarrow> bool" where
  "stopped s t \<longleftrightarrow> (procs_ok {} s \<longrightarrow> procs_ok {me s} t)"

lemma procs_ok_mono: "procs_ok X s \<Longrightarrow> X \<subseteq> Y \<Longrightarrow> procs_ok Y s"
  by (auto simp: procs_ok_def on_cpus_ok_def)

interpretation safely: waiting_discipline kept stopped
  by unfold_locales (auto simp: kept_def stopped_def intro: procs_ok_mono)

abbreviation safely :: "('z machine_scheme, 'a) kop \<Rightarrow> bool" where
  "safely m \<equiv> steps kept stopped m"

lemma calm_kept: "calm s t \<Longrightarrow> kept s t"
  by (auto simp: kept_def calm_def same_procs_def me_def intro: procs_ok_calm)

lemma rest_stopped: "rest s t \<Longrightarrow> stopped s t"
  by (simp add: stopped_def procs_ok_rest)

lemma calmly_safely: "calmly m \<Longrightarrow> safely m"
  by (auto simp: steps_def intro: wlp_mono calm_kept rest_stopped)

subsection \<open>Births and deaths\<close>

text \<open>Changing one slot of the table.\<close>

lemma procs_ok_slot:
  assumes ok: "procs_ok X s" and "X \<subseteq> Y"
    and other: "\<And>q. q \<noteq> p \<Longrightarrow> ptable t q = ptable s q"
    and cpu: "\<And>c. cpu_proc (cpus t c) = cpu_proc (cpus s c)" and init: "initproc t = initproc s"
    and up: "nextpid s \<le> nextpid t"
    and pid: "live t p \<Longrightarrow> live s p \<and> pid (ptable t p) = pid (ptable s p) \<or>
       nextpid s \<le> pid (ptable t p) \<and> pid (ptable t p) < nextpid t"
    and on: "\<And>c. cpu_proc (cpus s c) = Some p \<Longrightarrow> live t p \<and> (c \<notin> Y \<longrightarrow> state (ptable t p) = RUNNING)"
    and par: "live t p \<or> parent (ptable t p) = None" "\<And>q. parent (ptable t p) = Some q \<Longrightarrow> grown t q"
    and kids: "grown s p \<Longrightarrow> \<not> grown t p \<Longrightarrow>
       initproc s \<noteq> Some p \<and> (\<forall>q<NPROC. q \<noteq> p \<longrightarrow> parent (ptable s q) \<noteq> Some p)"
  shows "procs_ok Y t"
proof -
  have l: "live t q = live s q" "grown t q = grown s q" if "q \<noteq> p" for q
    using other [OF that] by (simp_all add: live_def grown_def)
  have s: "pids_ok s" "on_cpus_ok X s" "parents_ok s" using ok by (simp_all add: procs_ok_def)
  have lt: "pid (ptable s q) < nextpid s" "0 < pid (ptable s q)" "0 < nextpid s" if "live s q" for q
    using s(1) that by (auto simp: pids_ok_def)
  have bound: "0 < pid (ptable t q) \<and> pid (ptable t q) < nextpid t" if "live t q" for q
    using that l(1) [of q] other [of q] pid lt [of q] up s(1) by (cases "q = p") (auto simp: pids_ok_def)
  have "q = r" if "live t q" "live t r" "pid (ptable t q) = pid (ptable t r)" for q r
    using that l(1) [of q] l(1) [of r] other [of q] other [of r] pid lt [of q] lt [of r] s(1)
    by (cases "q = p"; cases "r = p") (auto simp: pids_ok_def)
  then have "pids_ok t" using bound up s(1) by (auto simp: pids_ok_def)
  moreover have "on_cpus_ok Y t"
    using s(2) \<open>X \<subseteq> Y\<close> on other l unfolding on_cpus_ok_def cpu by (metis subsetD)
  moreover have "parents_ok t"
  proof -
    have g: "grown t q" if "grown s q" "initproc s = Some q \<or> (\<exists>r<NPROC. r \<noteq> p \<and> parent (ptable s r) = Some q)" for q
      using that kids l(2) [of q] by (cases "q = p") auto
    have "grown t i" if "initproc t = Some i" for i
      using that s(3) g [of i] init by (auto simp: parents_ok_def)
    moreover have "grown t r" if "q < NPROC" "parent (ptable t q) = Some r" for q r
      using that s(3) g [of r] other [of q] par(2) [of r] l(2) [of r] by (cases "q = p") (auto simp: parents_ok_def)
    moreover have "parent (ptable t q) = None" if "q < NPROC" "state (ptable t q) = UNUSED" for q
      using that s(3) other [of q] par(1) by (cases "q = p") (auto simp: parents_ok_def live_def)
    ultimately show ?thesis by (simp add: parents_ok_def)
  qed
  ultimately show ?thesis by (simp add: procs_ok_def)
qed

text \<open>States on the way of an operation started in \<open>s\<close>, and the same with a process \<open>p\<close> that is being set up.\<close>

definition good :: "'z machine_scheme \<Rightarrow> 'z machine_scheme \<Rightarrow> bool" where
  "good s t \<longleftrightarrow> procs_ok {} t \<and> me t = me s \<and> current t = current s"

definition born :: "'z machine_scheme \<Rightarrow> nat \<Rightarrow> nat option \<Rightarrow> 'z machine_scheme \<Rightarrow> bool" where
  "born s p par t \<longleftrightarrow> good s t \<and> p < NPROC \<and> state (ptable t p) = EMBRYO \<and> parent (ptable t p) = par"

lemma good_calm: "good s t \<Longrightarrow> calm t u \<Longrightarrow> good s u"
  using procs_ok_calm [of "{}" t u] calm_current [of t u] calm_me [of t u] by (simp add: good_def)

lemma good_rest: "good s t \<Longrightarrow> rest t u \<Longrightarrow> procs_ok {me s} u"
  using procs_ok_rest [of t u] by (simp add: good_def)

lemma born_calm: "born s p par t \<Longrightarrow> calm t u \<Longrightarrow> born s p par u"
  using good_calm [of s t u] calm_states(5) [of t u p] by (simp add: born_def calm_def same_procs_def)

lemma born_rest: "born s p par t \<Longrightarrow> rest t u \<Longrightarrow> procs_ok {me s} u"
  using good_rest [of s t u] by (simp add: born_def)

text \<open>A calm step in the middle of an operation keeps any condition that calm code cannot change.\<close>

definition lasting :: "('z machine_scheme \<Rightarrow> bool) \<Rightarrow> bool" where
  "lasting P \<longleftrightarrow> (\<forall>t u. P t \<longrightarrow> calm t u \<longrightarrow> P u)"

lemma lasting_simps [simp]: "lasting (\<lambda>_. True)" "lasting (\<lambda>t. state (ptable t p) = ZOMBIE)"
  "lasting (\<lambda>t. initproc t \<noteq> Some p)" "lasting (born s p par)"
  unfolding lasting_def using calm_states(4) born_calm by (simp, blast, auto simp: calm_def same_procs_def, blast)

lemma stage_bind:
  assumes "good s t" "P t" "lasting P" "calmly m" "\<And>x u. good s u \<Longrightarrow> P u \<Longrightarrow> wlp (f x) Q (procs_ok {me s}) u"
  shows "wlp (bindk m f) Q (procs_ok {me s}) t"
  unfolding wlp_bindk
  by (rule steps_wlp [OF assms(4)]) (use assms good_calm good_rest in \<open>unfold lasting_def, blast+\<close>)

lemma stage_then:
  assumes "good s t" "P t" "lasting P" "calmly m" "\<And>u. good s u \<Longrightarrow> P u \<Longrightarrow> wlp n Q (procs_ok {me s}) u"
  shows "wlp (thenk m n) Q (procs_ok {me s}) t"
  unfolding thenk_def by (rule stage_bind [OF assms(1-4)]) (rule assms(5))

lemma good_bind:
  assumes "good s t" "calmly m" "\<And>x u. good s u \<Longrightarrow> wlp (f x) Q (procs_ok {me s}) u"
  shows "wlp (bindk m f) Q (procs_ok {me s}) t"
  by (rule stage_bind [where P = "\<lambda>_. True"]) (use assms in simp_all)

lemma good_then:
  assumes "good s t" "calmly m" "\<And>u. good s u \<Longrightarrow> wlp n Q (procs_ok {me s}) u"
  shows "wlp (thenk m n) Q (procs_ok {me s}) t"
  unfolding thenk_def by (rule good_bind [OF assms(1,2)]) (rule assms(3))

lemma born_bind:
  assumes "born s p par t" "calmly m" "\<And>x u. born s p par u \<Longrightarrow> wlp (f x) Q (procs_ok {me s}) u"
  shows "wlp (bindk m f) Q (procs_ok {me s}) t"
  by (rule stage_bind [where P = "born s p par"]) (use assms in \<open>simp_all add: born_def\<close>)

lemma born_then:
  assumes "born s p par t" "calmly m" "\<And>u. born s p par u \<Longrightarrow> wlp n Q (procs_ok {me s}) u"
  shows "wlp (thenk m n) Q (procs_ok {me s}) t"
  unfolding thenk_def by (rule born_bind [OF assms(1,2)]) (rule assms(3))

lemma procs_okD:
  assumes "procs_ok X s"
  shows "\<not> grown s p \<Longrightarrow> initproc s \<noteq> Some p" "\<not> grown s p \<Longrightarrow> q < NPROC \<Longrightarrow> parent (ptable s q) \<noteq> Some p"
    "p < NPROC \<Longrightarrow> state (ptable s p) = UNUSED \<Longrightarrow> parent (ptable s p) = None"
    "c \<notin> X \<Longrightarrow> state (ptable s p) \<noteq> RUNNING \<Longrightarrow> cpu_proc (cpus s c) \<noteq> Some p"
  using assms by (auto simp: procs_ok_def parents_ok_def on_cpus_ok_def)

lemma procs_ok_embryo:
  assumes "procs_ok {} s" "p < NPROC" "state (ptable s p) = UNUSED"
  shows "procs_ok {} (s\<lparr>ptable := (ptable s)(p := (ptable s p)\<lparr>state := EMBRYO, pid := nextpid s\<rparr>), nextpid := nextpid s + 1\<rparr>)"
    (is "procs_ok _ ?t")
proof (rule procs_ok_slot [OF assms(1), where p = p])
  show "cpu_proc (cpus s c) = Some p \<Longrightarrow> live ?t p \<and> (c \<notin> {} \<longrightarrow> state (ptable ?t p) = RUNNING)" for c
    using procs_okD(4) [OF assms(1), of c p] assms(3) by simp
  show "parent (ptable ?t p) = Some q \<Longrightarrow> grown ?t q" for q
    using procs_okD(3) [OF assms(1), of p] assms by simp
qed (use assms in \<open>simp_all add: grown_def live_def\<close>)

lemma procs_ok_unborn:
  assumes "procs_ok {} s" "state (ptable s p) = EMBRYO" "parent (ptable s p) = None"
  shows "procs_ok {} (s\<lparr>ptable := (ptable s)(p := (ptable s p)\<lparr>state := UNUSED\<rparr>)\<rparr>)" (is "procs_ok _ ?t")
proof (rule procs_ok_slot [OF assms(1), where p = p])
  show "cpu_proc (cpus s c) = Some p \<Longrightarrow> live ?t p \<and> (c \<notin> {} \<longrightarrow> state (ptable ?t p) = RUNNING)" for c
    using procs_okD(4) [OF assms(1), of c p] assms(2) by simp
qed (use assms in \<open>simp_all add: grown_def live_def\<close>)

lemma procs_ok_adopt:
  assumes "procs_ok {} s" "p < NPROC" "state (ptable s p) = EMBRYO" "grown s q"
  shows "procs_ok {} (s\<lparr>ptable := (ptable s)(p := (ptable s p)\<lparr>sz := z, parent := Some q, tf := f\<rparr>)\<rparr>)" (is "procs_ok _ ?t")
proof (rule procs_ok_slot [OF assms(1), where p = p])
  show "cpu_proc (cpus s c) = Some p \<Longrightarrow> live ?t p \<and> (c \<notin> {} \<longrightarrow> state (ptable ?t p) = RUNNING)" for c
    using procs_okD(4) [OF assms(1), of c p] assms(3) by simp
qed (use assms in \<open>auto simp: grown_def live_def\<close>)

lemma procs_ok_hatch:
  assumes "procs_ok {} s" "p < NPROC" "state (ptable s p) = EMBRYO"
  shows "procs_ok {} (s\<lparr>ptable := (ptable s)(p := (ptable s p)\<lparr>state := RUNNABLE\<rparr>)\<rparr>)" (is "procs_ok _ ?t")
proof (rule procs_ok_slot [OF assms(1), where p = p])
  show "cpu_proc (cpus s c) = Some p \<Longrightarrow> live ?t p \<and> (c \<notin> {} \<longrightarrow> state (ptable ?t p) = RUNNING)" for c
    using procs_okD(4) [OF assms(1), of c p] assms(3) by simp
  show "parent (ptable ?t p) = Some q \<Longrightarrow> grown ?t q" for q
    using procs_okD(2) [OF assms(1), of q p] assms by (auto simp: grown_def)
qed (use assms in \<open>simp_all add: grown_def live_def\<close>)

lemma procs_ok_bury:
  assumes "procs_ok {} s" "state (ptable s p) = ZOMBIE"
  shows "procs_ok {} (s\<lparr>ptable := (ptable s)(p := (ptable s p)
    \<lparr>pid := 0, parent := None, pname := [], killed := False, state := UNUSED\<rparr>)\<rparr>)" (is "procs_ok _ ?t")
proof (rule procs_ok_slot [OF assms(1), where p = p])
  show "cpu_proc (cpus s c) = Some p \<Longrightarrow> live ?t p \<and> (c \<notin> {} \<longrightarrow> state (ptable ?t p) = RUNNING)" for c
    using procs_okD(4) [OF assms(1), of c p] assms(2) by simp
qed (use assms in \<open>simp_all add: grown_def live_def\<close>)

lemma procs_ok_switch:
  assumes "procs_ok {} s" "current s = Some p"
  shows "procs_ok {me s} (s\<lparr>ptable := (ptable s)(p := (ptable s p)\<lparr>state := RUNNABLE\<rparr>)\<rparr>)" (is "procs_ok _ ?t")
proof (rule procs_ok_slot [OF assms(1), where p = p])
  have p: "p < NPROC" "state (ptable s p) = RUNNING" using procs_ok_current [OF assms] by (simp_all add: live_def)
  show "cpu_proc (cpus s c) = Some p \<Longrightarrow> live ?t p \<and> (c \<notin> {me s} \<longrightarrow> state (ptable ?t p) = RUNNING)" for c
    using assms p by (auto simp: live_def procs_ok_def on_cpus_ok_def current_def)
  show "parent (ptable ?t p) = Some q \<Longrightarrow> grown ?t q" for q
    using procs_okD(2) [OF assms(1), of q p] p by (auto simp: grown_def)
  show "live ?t p \<Longrightarrow> live s p \<and> pid (ptable ?t p) = pid (ptable s p) \<or> nextpid s \<le> pid (ptable ?t p) \<and> pid (ptable ?t p) < nextpid ?t"
    "live ?t p \<or> parent (ptable ?t p) = None" using p by (simp_all add: live_def)
qed (simp_all add: grown_def)

lemma current_upd [simp]: "current (s\<lparr>ptable := pt\<rparr>) = current s" "current (s\<lparr>nextpid := n\<rparr>) = current s"
  "me (s\<lparr>nextpid := n\<rparr>) = me s" "me (s\<lparr>ptable := pt\<rparr>) = me s"
  by (simp_all add: current_def me_def)

lemma calmly_proc_fields [inv_intros]: "calmly (set_proc p (\<lambda>q. q\<lparr>kstack := k\<rparr>))"
  "calmly (set_proc p (\<lambda>q. q\<lparr>kctx := c\<rparr>))" "calmly (set_proc p (\<lambda>q. q\<lparr>pgdir := d\<rparr>))"
  "calmly (set_proc p (\<lambda>q. q\<lparr>cwd := i\<rparr>))" "calmly (set_proc p (\<lambda>q. q\<lparr>pname := n\<rparr>))" "calmly (set_proc p (\<lambda>q. q\<lparr>tf := f\<rparr>))"
  by (rule calmly_set_proc, simp)+

text \<open>\<open>allocproc\<close> after it has released the lock.\<close>

lemma wlp_alloc_grow:
  assumes "born s p None t"
  shows "wlp (thenk (release PtableLock) (
       bindk kalloc (\<lambda>k.
       thenk (set_proc p (\<lambda>q. q\<lparr>kstack := k\<rparr>)) (
       if k = 0 then thenk (set_proc p (\<lambda>q. q\<lparr>state := UNUSED\<rparr>)) (ret None)
       else thenk (set_proc p (\<lambda>q. q\<lparr>kctx := new_context\<rparr>)) (ret (Some p))))))
    (\<lambda>r u. good s u \<and> (\<forall>p. r = Some p \<longrightarrow> born s p None u)) (procs_ok {me s}) t" (is "wlp _ ?Q ?B t")
proof -
  have fin: "wlp (if k = 0 then thenk (set_proc p (\<lambda>q. q\<lparr>state := UNUSED\<rparr>)) (ret None)
      else thenk (set_proc p (\<lambda>q. q\<lparr>kctx := new_context\<rparr>)) (ret (Some p))) ?Q ?B u" if u: "born s p None u" for k u
  proof -
    have "wlp (thenk (set_proc p (\<lambda>q. q\<lparr>state := UNUSED\<rparr>)) (ret None)) ?Q ?B u"
      using u procs_ok_unborn [of u p] by (simp add: wp_simps set_proc_def born_def good_def)
    moreover have "wlp (thenk (set_proc p (\<lambda>q. q\<lparr>kctx := new_context\<rparr>)) (ret (Some p))) ?Q ?B u"
      by (rule born_then [OF u]) (auto simp: wlp_ret born_def intro: inv_intros)
    ultimately show ?thesis by simp
  qed
  show ?thesis
    by (rule born_then [OF assms], rule inv_intros, rule born_bind, assumption, rule inv_intros,
        rule born_then, assumption, rule inv_intros, rule fin)
qed

lemma wlp_allocproc:
  assumes "good s t"
  shows "wlp allocproc (\<lambda>r u. good s u \<and> (\<forall>p. r = Some p \<longrightarrow> born s p None u)) (procs_ok {me s}) t"
    (is "wlp _ ?Q ?B t")
  unfolding allocproc_def
proof (intro good_then [OF assms] inv_intros, unfold wlp_bindk wlp_getk)
  fix u assume u: "good s u"
  let ?r = "find_slot (\<lambda>i. state (ptable u i) = UNUSED) 0 NPROC"
  show "wlp (case ?r of None \<Rightarrow> thenk (release PtableLock) (ret None)
     | Some p \<Rightarrow>
       thenk (set_proc p (\<lambda>q. q\<lparr>state := EMBRYO\<rparr>)) (
       bindk (getk nextpid) (\<lambda>n.
       thenk (set_proc p (\<lambda>q. q\<lparr>pid := n\<rparr>)) (
       thenk (modk (\<lambda>s. s\<lparr>nextpid := n + 1\<rparr>)) (
       thenk (release PtableLock) (
       bindk kalloc (\<lambda>k.
       thenk (set_proc p (\<lambda>q. q\<lparr>kstack := k\<rparr>)) (
       if k = 0 then thenk (set_proc p (\<lambda>q. q\<lparr>state := UNUSED\<rparr>)) (ret None)
       else thenk (set_proc p (\<lambda>q. q\<lparr>kctx := new_context\<rparr>)) (ret (Some p)))))))))) ?Q ?B u"
  proof (cases ?r)
    case None
    then show ?thesis by (auto simp: wlp_ret intro!: good_then [OF u] inv_intros)
  next
    case (Some p)
    then have p: "p < NPROC" "state (ptable u p) = UNUSED" using find_slot_Some by blast+
    let ?v = "u\<lparr>ptable := (ptable u)(p := (ptable u p)\<lparr>state := EMBRYO, pid := nextpid u\<rparr>), nextpid := nextpid u + 1\<rparr>"
    have "born s p None ?v"
      using u p procs_ok_embryo [of u p] procs_okD(3) [of "{}" u p] by (simp add: born_def good_def)
    from wlp_alloc_grow [OF this] Some show ?thesis
      by (simp add: set_proc_def wlp_thenk [of "modk _"] wlp_bindk [of "getk _"] wlp_getk wlp_modk)
  qed
qed

lemma safelyI:
  assumes "\<And>s. procs_ok {} s \<Longrightarrow> wlp m (\<lambda>_. good s) (procs_ok {me s}) s"
  shows "safely m"
proof (rule stepsI)
  fix s
  show "wlp m (\<lambda>_. kept s) (stopped s) s"
  proof (cases "procs_ok {} s")
    case True
    from assms [OF this] show ?thesis by (rule wlp_mono) (simp_all add: kept_def stopped_def good_def)
  next
    case False
    then show ?thesis by (simp add: wlp_def kept_def stopped_def split: outcome.split)
  qed
qed

lemma good_refl: "procs_ok {} s \<Longrightarrow> good s s"
  by (simp add: good_def)

lemma good_end: "good s t \<Longrightarrow> calmly m \<Longrightarrow> wlp m (\<lambda>_. good s) (procs_ok {me s}) t"
  by (rule steps_wlp [of calm rest]) (auto intro: good_calm good_rest)

text \<open>\<open>fork\<close> when it could not copy the parent's memory, and the rest of it when it could.\<close>

lemma wlp_set_then:
  "wlp (thenk (set_proc p f) n) Q B s = wlp n Q B (s\<lparr>ptable := (ptable s)(p := f (ptable s p))\<rparr>)"
  by (simp add: wp_simps set_proc_def)

lemma wlp_fork_undo:
  assumes "born s np None t"
  shows "wlp (thenk (kfree k) (thenk (set_proc np (\<lambda>q. q\<lparr>kstack := 0\<rparr>)) (
     thenk (set_proc np (\<lambda>q. q\<lparr>state := UNUSED\<rparr>)) (ret (- 1 :: int))))) (\<lambda>_. good s) (procs_ok {me s}) t"
proof -
  have fin: "wlp (thenk (set_proc np (\<lambda>q. q\<lparr>state := UNUSED\<rparr>)) (ret (- 1 :: int))) (\<lambda>_. good s) (procs_ok {me s}) u"
    if "born s np None u" for u
    using that procs_ok_unborn [of u np] by (simp add: wp_simps set_proc_def born_def good_def)
  show ?thesis
    by (rule born_then [OF assms], rule inv_intros, rule born_then, assumption, rule inv_intros, rule fin)
qed

lemma wlp_fork_finish:
  assumes "born s np (Some cur) t"
  shows "wlp (thenk (dup_files cur np) (
       bindk (case c of None \<Rightarrow> panic ''null dereference: cwd'' | Some i \<Rightarrow> idup i) (\<lambda>i.
       thenk (set_proc np (\<lambda>q. q\<lparr>cwd := Some i\<rparr>)) (
       thenk (set_proc np (\<lambda>q. q\<lparr>pname := nm\<rparr>)) (
       bindk (getk (\<lambda>s. pid (ptable s np))) (\<lambda>n.
       thenk (acquire PtableLock) (
       thenk (set_proc np (\<lambda>q. q\<lparr>state := RUNNABLE\<rparr>)) (
       thenk (release PtableLock)
         (ret n))))))))) (\<lambda>_. good s) (procs_ok {me s}) t"
proof -
  have fin: "wlp (thenk (set_proc np (\<lambda>q. q\<lparr>state := RUNNABLE\<rparr>)) (thenk (release PtableLock) (ret n)))
      (\<lambda>_. good s) (procs_ok {me s}) u" if "born s np (Some cur) u" for u n
  proof -
    let ?v = "u\<lparr>ptable := (ptable u)(np := (ptable u np)\<lparr>state := RUNNABLE\<rparr>)\<rparr>"
    have "good s ?v" using that procs_ok_hatch [of u np] by (simp add: born_def good_def)
    then have "wlp (thenk (release PtableLock) (ret n)) (\<lambda>_. good s) (procs_ok {me s}) ?v"
      by (rule good_end) (intro inv_intros)
    then show ?thesis by (simp add: set_proc_def wlp_thenk [of "modk _"] wlp_modk)
  qed
  show ?thesis
    by (rule born_then [OF assms], rule inv_intros, rule born_bind, assumption, intro inv_intros,
        rule born_then, assumption, rule inv_intros, rule born_then, assumption, rule inv_intros,
        rule born_bind, assumption, rule inv_intros, rule born_then, assumption, rule inv_intros, rule fin)
qed

lemma wlp_alloc_case:
  assumes "good s t" "\<And>np u. born s np None u \<Longrightarrow> wlp (m np) (\<lambda>_. good s) (procs_ok {me s}) u"
  shows "wlp (bindk allocproc (\<lambda>po. case po of None \<Rightarrow> ret x | Some np \<Rightarrow> m np)) (\<lambda>_. good s) (procs_ok {me s}) t"
  unfolding wlp_bindk
  by (rule wlp_mono [OF wlp_allocproc [OF assms(1)]]) (auto simp: wlp_ret split: option.split intro: assms(2))

lemma born_adopt:
  assumes "born s np None t" "current s = Some cur"
  shows "born s np (Some cur) (t\<lparr>ptable := (ptable t)(np := (ptable t np)\<lparr>sz := z, parent := Some cur, tf := f\<rparr>)\<rparr>)"
proof -
  have "live t cur \<and> state (ptable t cur) = RUNNING"
    by (rule procs_ok_current) (use assms in \<open>auto simp: born_def good_def\<close>)
  then have "grown t cur" by (simp add: grown_def live_def)
  then show ?thesis using assms procs_ok_adopt [where s = t and p = np and q = cur and z = z and f = f] by (simp add: born_def good_def)
qed

lemma safely_fork [inv_intros]: "safely fork"
proof (rule safelyI)
  fix s :: "'z procs_scheme" assume s: "procs_ok {} s"
  show "wlp fork (\<lambda>_. good s) (procs_ok {me s}) s"
    unfolding fork_def wlp_bindk [of curproc]
  proof (rule wlp_mono [OF wlp_curproc], goal_cases)
    case (1 cur t)
    then have cur: "current s = Some cur" and t: "good s t" using s good_calm good_refl by blast+
    show ?case
    proof (rule wlp_alloc_case [OF t], unfold wlp_bindk [of "getk _"] wlp_getk,
        rule born_bind, assumption, rule inv_intros, rule born_then, assumption, rule inv_intros, goal_cases)
      case (1 np u d v w)
      note undo = wlp_fork_undo [OF 1(3)] and adopt = wlp_fork_finish [OF born_adopt [OF 1(3) cur]]
      show ?case
      proof (cases "d = 0")
        case True
        then show ?thesis by (simp add: wlp_bindk [of "getk _"] wlp_getk undo)
      next
        case False
        then show ?thesis by (simp add: wlp_set_then adopt)
      qed
    qed
  qed (use s in \<open>auto intro: good_rest good_refl\<close>)
qed

lemma wlp_reap:
  assumes "good s t" "state (ptable t p) = ZOMBIE"
  shows "wlp (reap p) (\<lambda>_. good s) (procs_ok {me s}) t"
proof -
  have fin: "wlp (thenk (set_proc p (\<lambda>q. q\<lparr>pid := 0, parent := None, pname := [], killed := False, state := UNUSED\<rparr>))
      (thenk (release PtableLock) (ret n))) (\<lambda>_. good s) (procs_ok {me s}) u"
    if "good s u" "state (ptable u p) = ZOMBIE" for u n
    unfolding wlp_set_then
    by (rule good_end) (use that procs_ok_bury [of u p] in \<open>auto simp: good_def intro: inv_intros\<close>)
  note dead = stage_then [OF _ _ lasting_simps(2)]
  show ?thesis
    unfolding reap_def wlp_bindk [of "getk _"] wlp_getk
    by (rule dead [OF assms], rule inv_intros, rule dead, assumption, assumption, rule inv_intros,
        rule dead, assumption, assumption, rule inv_intros, rule fin)
qed

lemma safely_wait [inv_intros]: "safely wait"
proof (rule safelyI)
  fix s :: "'z kmem_scheme" assume s: "procs_ok {} s"
  have none: "calmly (bindk (getk (\<lambda>s. find_slot (\<lambda>p. parent (ptable s p) = Some cur) 0 NPROC)) (\<lambda>kid.
       bindk (getk (\<lambda>s. killed (ptable s cur))) (\<lambda>k.
       if kid = None \<or> k then thenk (release PtableLock) (ret (- 1 :: int))
       else thenk (sleep (ChanProc cur) PtableLock) block)))" for cur
    by (intro inv_intros)
  have z: "state (ptable t p) = ZOMBIE"
    if "find_slot (\<lambda>p. parent (ptable t p) = Some cur \<and> state (ptable t p) = ZOMBIE) 0 NPROC = Some p" for t cur p
    using find_slot_Some [OF that] by simp
  show "wlp wait (\<lambda>_. good s) (procs_ok {me s}) s"
    unfolding wait_def
    by (rule good_bind [OF good_refl [OF s]], rule inv_intros, rule good_then, assumption, rule inv_intros)
       (auto simp: wlp_bindk [of "getk (\<lambda>s. find_slot (\<lambda>p. parent (ptable s p) = Some _ \<and> _ s p) 0 NPROC)"] wlp_getk
         split: option.split intro: good_end none wlp_reap z)
qed

lemma good_curproc:
  assumes "good s t" "\<And>p u. good s u \<Longrightarrow> current s = Some p \<Longrightarrow> wlp (f p) Q (procs_ok {me s}) u"
  shows "wlp (bindk curproc f) Q (procs_ok {me s}) t"
  unfolding wlp_bindk
proof (rule wlp_mono [OF wlp_curproc])
  show "wlp (f p) Q (procs_ok {me s}) u" if "calm t u \<and> current t = Some p" for p u
    by (rule assms(2)) (use that assms(1) good_calm in \<open>auto simp: good_def\<close>)
qed (use assms(1) good_rest in blast)

lemma wlp_sched_ok:
  assumes "procs_ok X t"
  shows "wlp sched (\<lambda>_ u. procs_ok X u \<and> me u = me t) (procs_ok X) t"
  by (rule wlp_mono [OF wlp_sched]) (use assms procs_ok_calm calm_me in blast)+

lemma safely_block:
  assumes "\<And>s. procs_ok {} s \<Longrightarrow> wlp m (\<lambda>_ t. procs_ok {me s} t \<and> me t = me s) (procs_ok {me s}) s"
  shows "safely (thenk m block)"
  by (rule safelyI) (auto simp: wlp_thenk wlp_block intro: wlp_mono [OF assms])

lemma wlp_yield_enter:
  assumes "procs_ok {} s"
  shows "wlp yield_enter (\<lambda>_ t. procs_ok {me s} t \<and> me t = me s) (procs_ok {me s}) s"
proof -
  have sw: "wlp (thenk (set_proc p (\<lambda>q. q\<lparr>state := RUNNABLE\<rparr>)) sched)
      (\<lambda>_ t. procs_ok {me s} t \<and> me t = me s) (procs_ok {me s}) u"
    if "good s u" "current s = Some p" for p u
    unfolding wlp_set_then
    by (rule wlp_mono [OF wlp_sched_ok]) (use that procs_ok_switch [of u p] in \<open>simp_all add: good_def\<close>)
  show ?thesis
    unfolding yield_enter_def
    by (rule good_then [OF good_refl [OF assms]], rule inv_intros, rule good_curproc, assumption, rule sw)
qed

lemma safely_yield [inv_intros]: "safely yield"
  unfolding yield_def by (rule safely_block) (rule wlp_yield_enter)

lemma procs_ok_moved:
  assumes "procs_ok X s"
  shows "procs_ok X (s\<lparr>ptable := moved (initproc s) cur NPROC (ptable s)\<rparr>)" (is "procs_ok X ?t")
proof -
  have p: "state (ptable ?t p) = state (ptable s p)" "pid (ptable ?t p) = pid (ptable s p)" for p
    by (simp_all add: moved_def)
  then have l: "live ?t p = live s p" "grown ?t p = grown s p" for p by (simp_all only: live_def grown_def)
  have "parent (ptable ?t p) = Some q \<Longrightarrow> p < NPROC \<Longrightarrow> grown s q" for p q
    using assms by (auto simp: moved_def procs_ok_def parents_ok_def split: if_splits)
  moreover have "state (ptable s p) = UNUSED \<Longrightarrow> p < NPROC \<Longrightarrow> parent (ptable ?t p) = None" for p
    using assms by (auto simp: moved_def procs_ok_def parents_ok_def)
  ultimately show ?thesis
    using assms unfolding procs_ok_def pids_ok_def on_cpus_ok_def parents_ok_def l p by auto
qed

lemma calm_adopted: "calm (s\<lparr>ptable := moved ini cur k (ptable s)\<rparr>) (s\<lparr>ptable := adopted ini cur k (ptable s)\<rparr>)"
  by (auto simp: adopted_def calm_def same_procs_def calm_state_def wake_all_def wake_def split: option.split)

lemma adopted_orphans:
  assumes "ini \<noteq> Some cur" "q < NPROC"
  shows "parent (adopted ini cur NPROC pt q) \<noteq> Some cur"
  using assms by (auto simp: adopted_def moved_def split: option.split)

lemma procs_ok_zombie:
  assumes "procs_ok {} s" "current s = Some p" "initproc s \<noteq> Some p" "\<And>q. q < NPROC \<Longrightarrow> parent (ptable s q) \<noteq> Some p"
  shows "procs_ok {me s} (s\<lparr>ptable := (ptable s)(p := (ptable s p)\<lparr>state := ZOMBIE\<rparr>)\<rparr>)" (is "procs_ok _ ?t")
proof (rule procs_ok_slot [OF assms(1), where p = p])
  have p: "p < NPROC" "state (ptable s p) = RUNNING" using procs_ok_current [OF assms(1,2)] by (simp_all add: live_def)
  show "cpu_proc (cpus s c) = Some p \<Longrightarrow> live ?t p \<and> (c \<notin> {me s} \<longrightarrow> state (ptable ?t p) = RUNNING)" for c
    using assms(1,2) p by (auto simp: live_def procs_ok_def on_cpus_ok_def current_def)
  show "parent (ptable ?t p) = Some q \<Longrightarrow> grown ?t q" for q
    using procs_okD(2) [OF assms(1), of q p] assms(4) [of p] p by (auto simp: grown_def)
  show "live ?t p \<Longrightarrow> live s p \<and> pid (ptable ?t p) = pid (ptable s p) \<or> nextpid s \<le> pid (ptable ?t p) \<and> pid (ptable ?t p) < nextpid ?t"
    "live ?t p \<or> parent (ptable ?t p) = None" using p by (simp_all add: live_def)
qed (use assms in simp_all)

lemma wlp_reparent: "wlp (reparent cur) Q B s = Q () (s\<lparr>ptable := adopted (initproc s) cur NPROC (ptable s)\<rparr>)"
  by (simp add: wlp_def reparent_run)

text \<open>The part of \<open>exit\<close> under the lock of the table, up to the switch.\<close>

lemma wlp_exit_switch:
  assumes "good s t" "current s = Some cur" "initproc t \<noteq> Some cur"
  shows "wlp (thenk (reparent cur) (thenk (set_proc cur (\<lambda>q. q\<lparr>state := ZOMBIE\<rparr>)) sched))
    (\<lambda>_ t. procs_ok {me s} t \<and> me t = me s) (procs_ok {me s}) t"
proof -
  let ?u = "t\<lparr>ptable := adopted (initproc t) cur NPROC (ptable t)\<rparr>"
  have t: "procs_ok {} t" "me t = me s" "current t = Some cur" using assms by (simp_all add: good_def)
  have "procs_ok {} ?u" by (rule procs_ok_calm [OF procs_ok_moved [OF t(1)] calm_adopted])
  then have "procs_ok {me ?u} (?u\<lparr>ptable := (ptable ?u)(cur := (ptable ?u cur)\<lparr>state := ZOMBIE\<rparr>)\<rparr>)"
    by (rule procs_ok_zombie) (use t assms(3) adopted_orphans in simp_all)
  then show ?thesis
    unfolding wlp_thenk [of "reparent _"] wlp_reparent wlp_set_then using t(2) by (intro wlp_mono [OF wlp_sched_ok]) simp_all
qed

lemma wlp_exit_enter:
  fixes s :: "'z procs_scheme"
  assumes "procs_ok {} s"
  shows "wlp exit_enter (\<lambda>_ t. procs_ok {me s} t \<and> me t = me s) (procs_ok {me s}) s"
proof -
  note step = stage_then [OF _ _ lasting_simps(3)] and read = stage_bind [OF _ _ lasting_simps(3)]
  have go: "wlp (thenk (close_files cur) (
       thenk begin_op (
       bindk (getk (\<lambda>s. cwd (ptable s cur))) (\<lambda>c.
       thenk (case c of None \<Rightarrow> panic ''null dereference: cwd'' | Some i \<Rightarrow> iput i) (
       thenk end_op (
       thenk (set_proc cur (\<lambda>q. q\<lparr>cwd := None\<rparr>)) (
       thenk (acquire PtableLock) (
       bindk (getk (\<lambda>s. parent (ptable s cur))) (\<lambda>par.
       thenk (wakeup_proc par) (
       thenk (reparent cur) (
       thenk (set_proc cur (\<lambda>q. q\<lparr>state := ZOMBIE\<rparr>)) sched)))))))))))
      (\<lambda>_ t. procs_ok {me s} t \<and> me t = me s) (procs_ok {me s}) t"
    if "good s t" "initproc t \<noteq> Some cur" "current s = Some cur" for t cur
    by (rule step [OF that(1,2)], rule inv_intros, rule step, assumption, assumption, rule inv_intros,
        rule read, assumption, assumption, rule inv_intros,
        rule step, assumption, assumption, intro inv_intros, rule step, assumption, assumption, rule inv_intros,
        rule step, assumption, assumption, rule inv_intros, rule step, assumption, assumption, rule inv_intros,
        rule read, assumption, assumption, rule inv_intros,
        rule step, assumption, assumption, rule inv_intros, rule wlp_exit_switch [OF _ that(3)])
  show ?thesis
    unfolding exit_enter_def
    by (rule good_curproc [OF good_refl [OF assms]])
       (auto simp: wlp_bindk [of "getk initproc"] wlp_getk wlp_panic intro!: go)
qed

lemma safely_exit [inv_intros]: "safely exit"
  unfolding exit_def by (rule safely_block) (rule wlp_exit_enter)

subsection \<open>System calls and traps\<close>

lemma safely_call:
  assumes "syscalls n = Some call"
  shows "safely call"
proof -
  have "safely sys_fork" "safely sys_wait" "safely sys_exit"
    unfolding sys_fork_def sys_wait_def sys_exit_def by (intro inv_intros)+
  then show ?thesis
    using map_of_SomeD [OF assms [unfolded syscalls_def]] by (auto intro: calmly_safely inv_intros)
qed

lemma safely_dispatch:
  assumes "\<And>call. r = Some call \<Longrightarrow> safely call" "calmly m"
  shows "safely (case r of Some call \<Rightarrow> bindk call (set_eax p) | None \<Rightarrow> m)"
  using assms by (cases r) (auto intro: safely.steps_bindk calmly_safely calmly_trap_device)

lemma safely_syscall [inv_intros]: "safely syscall"
  unfolding syscall_def
  by (intro safely.steps_bindk calmly_safely [OF calmly_myproc(2)] safely.steps_getk safely_dispatch)
     (erule safely_call, intro inv_intros)

lemma safely_trap [inv_intros]: "safely (trap f)"
proof -
  have calm: "safely (trap_device f)" "safely is_killed" "safely curproc" "safely myproc"
    "safely (set_proc p (\<lambda>q. q\<lparr>tf := f\<rparr>))" for p
    by (rule calmly_safely, rule inv_intros)+
  show ?thesis
    unfolding trap_def trap_syscall_def exit_if_killed_def by (intro inv_intros calm)
qed

subsection \<open>The scheduler\<close>

lemma cpus_upd [simp]: "live (s\<lparr>cpus := C\<rparr>) p = live s p" "grown (s\<lparr>cpus := C\<rparr>) p = grown s p"
  "pids_ok (s\<lparr>cpus := C\<rparr>) = pids_ok s" "parents_ok (s\<lparr>cpus := C\<rparr>) = parents_ok s"
  by (simp_all add: live_def grown_def pids_ok_def parents_ok_def)

lemma procs_ok_load:
  assumes "procs_ok {} s" "p < NPROC" "state (ptable s p) = RUNNABLE"
  shows "procs_ok {c} (s\<lparr>cpus := (cpus s)(c := (cpus s c)\<lparr>cpu_proc := Some p\<rparr>)\<rparr>)"
proof -
  have "cpu_proc (cpus s d) \<noteq> Some p" for d using assms procs_okD(4) [OF assms(1), of d p] by simp
  moreover have "live s p" using assms by (simp add: live_def)
  ultimately show ?thesis
    using assms(1) unfolding procs_ok_def by (simp add: on_cpus_ok_def) blast
qed

lemma procs_ok_start:
  assumes "procs_ok {c} s" "cpu_proc (cpus s c) = Some p" "state (ptable s p) = RUNNABLE"
  shows "procs_ok {} (s\<lparr>ptable := (ptable s)(p := (ptable s p)\<lparr>state := RUNNING\<rparr>)\<rparr>)" (is "procs_ok {} ?t")
proof (rule procs_ok_same [OF assms(1)])
  show "live ?t q = live s q" "grown ?t q = grown s q" for q using assms(3) by (simp_all add: live_def grown_def)
  show "state (ptable ?t q) = RUNNING" if "d \<notin> {}" "cpu_proc (cpus s d) = Some q" for d q
  proof (cases "d = c")
    case False
    then have "state (ptable s q) = RUNNING" using that(2) assms(1) by (simp add: procs_ok_def on_cpus_ok_def)
    then show ?thesis by simp
  qed (use that(2) assms(2) in simp)
qed (simp add: same_procs_def)

lemma procs_ok_unload:
  assumes "procs_ok {c} s"
  shows "procs_ok {} (s\<lparr>cpus := (cpus s)(c := (cpus s c)\<lparr>cpu_proc := None\<rparr>)\<rparr>)"
  using assms unfolding procs_ok_def by (simp add: on_cpus_ok_def)

lemma calm_runnable: "calm s t \<Longrightarrow> state (ptable s p) = RUNNABLE \<Longrightarrow> state (ptable t p) = RUNNABLE"
  by (auto simp: calm_def calm_state_def dest: spec [of _ p])

lemma awake_switch: "steps (\<lambda>_ _. True) (\<lambda>_ _. False) (switchuvm po)" "steps (\<lambda>_ _. True) (\<lambda>_ _. False) switchkvm"
  unfolding switchuvm_def switchkvm_def set_gdt_def set_ts_def lcr3_def pushcli_def popcli_def mycpu_def set_cpu_def cli_def sti_def
  by (intro inv_intros)+

lemma wlp_awake: "calmly m \<Longrightarrow> steps (\<lambda>_ _. True) (\<lambda>_ _. False) m \<Longrightarrow> (\<And>x t. calm s t \<Longrightarrow> Q x t) \<Longrightarrow> wlp m Q B s"
  using stepsD [of calm rest m s] stepsD [of "\<lambda>_ _. True" "\<lambda>_ _. False" m s] by (auto simp: wlp_def split: outcome.splits)

text \<open>What the scheduler of processor \<open>c\<close> relies on: a process that it switches to gives the processor back with
  only its own slot in transition, which is how \<open>exit\<close>, \<open>yield\<close> and \<open>sleep\<close> enter \<open>sched\<close>.\<close>

definition gives_back :: "nat \<Rightarrow> (nat \<Rightarrow> ('z vm_scheme, unit) kop) \<Rightarrow> bool" where
  "gives_back c run \<longleftrightarrow> (\<forall>p s. procs_ok {} s \<longrightarrow> me s = c \<longrightarrow> current s = Some p \<longrightarrow>
     wlp (run p) (\<lambda>_ t. procs_ok {c} t \<and> me t = c) (procs_ok {c}) s)"

lemma wlp_set_current: "wlp (thenk (set_current c po) n) Q B s = wlp n Q B (s\<lparr>cpus := (cpus s)(c := (cpus s c)\<lparr>cpu_proc := po\<rparr>)\<rparr>)"
  by (simp add: wp_simps set_current_def set_cpu_def)

lemma wlp_schedule_slot:
  assumes "gives_back c run" "procs_ok {} s" "me s = c" "p < NPROC"
  shows "wlp (schedule_slot run c p) (\<lambda>_ t. procs_ok {} t \<and> me t = c) (procs_ok {c}) s"
proof (cases "state (ptable s p) = RUNNABLE")
  case False
  then show ?thesis using assms by (simp add: schedule_slot_def wp_simps)
next
  case True
  let ?load = "s\<lparr>cpus := (cpus s)(c := (cpus s c)\<lparr>cpu_proc := Some p\<rparr>)\<rparr>"
  let ?Q = "\<lambda>_ t. procs_ok {} t \<and> me t = c"
  have load: "procs_ok {c} ?load" "me ?load = c" "current ?load = Some p" "state (ptable ?load p) = RUNNABLE"
    using procs_ok_load [OF assms(2,4) True, of c] assms(3) True by (simp_all add: me_def current_def)
  have unload: "wlp (thenk switchkvm (set_current c None)) ?Q (procs_ok {c}) t" if "procs_ok {c} t" "me t = c" for t
    unfolding wlp_thenk set_current_def set_cpu_def wlp_modk
    by (rule wlp_awake [OF calmly_setupkvm(2) awake_switch(2)])
       (use that procs_ok_calm procs_ok_unload calm_me in \<open>fastforce simp: me_def\<close>)
  have start: "wlp (thenk (set_proc p (\<lambda>q. q\<lparr>state := RUNNING\<rparr>)) (thenk (run p) (thenk switchkvm (set_current c None))))
      ?Q (procs_ok {c}) t" if t: "calm ?load t" for t
  proof -
    let ?u = "t\<lparr>ptable := (ptable t)(p := (ptable t p)\<lparr>state := RUNNING\<rparr>)\<rparr>"
    have m: "me ?u = c" "current ?u = Some p" "current t = Some p" "me t = c"
      using load calm_me [OF t] calm_current [OF t] by simp_all
    have "procs_ok {} ?u"
      by (rule procs_ok_start [OF procs_ok_calm [OF load(1) t]]) (use m calm_runnable [OF t load(4)] in \<open>simp_all add: current_def\<close>)
    then have "wlp (run p) (\<lambda>_ t. procs_ok {c} t \<and> me t = c) (procs_ok {c}) ?u"
      using assms(1) m by (simp add: gives_back_def)
    then show ?thesis unfolding wlp_set_then wlp_thenk [of "run p"] by (rule wlp_mono) (simp_all add: unload)
  qed
  have "wlp (thenk (switchuvm (Some p)) (thenk (set_proc p (\<lambda>q. q\<lparr>state := RUNNING\<rparr>)) (
      thenk (run p) (thenk switchkvm (set_current c None))))) ?Q (procs_ok {c}) ?load"
    unfolding wlp_thenk [of "switchuvm _"] by (rule wlp_awake [OF calmly_switchuvm awake_switch(1)]) (rule start)
  then show ?thesis
    using True
    by (simp add: schedule_slot_def wlp_bindk [of "getk _"] wlp_getk wlp_whenk wlp_set_current)
qed

lemma wlp_for_each:
  assumes "I s" "\<And>x s. x \<in> set xs \<Longrightarrow> I s \<Longrightarrow> wlp (f x) (\<lambda>_. I) B s"
  shows "wlp (for_each xs f) (\<lambda>_. I) B s"
  using assms
proof (induction xs arbitrary: s)
  case (Cons x xs)
  have "wlp (f x) (\<lambda>_. I) B s" using Cons.prems by simp
  then show ?case
    unfolding for_each.simps wlp_thenk by (rule wlp_mono) (use Cons in auto)
qed (simp add: wlp_ret)

lemma wlp_schedule_pass:
  assumes "gives_back c run" "procs_ok {} s" "me s = c"
  shows "wlp (schedule_pass run c) (\<lambda>_ t. procs_ok {} t \<and> me t = c) (procs_ok {c}) s"
proof -
  let ?I = "\<lambda>t. procs_ok {} t \<and> me t = c"
  have calm: "wlp m (\<lambda>_. ?I) (procs_ok {c}) t" if "calmly m" "?I t" for m :: "('z vm_scheme, unit) kop" and t
    by (rule steps_wlp [OF that(1)]) (use that(2) procs_ok_calm [of "{}" t] calm_me [of t] procs_ok_rest [of t] in auto)
  have loop: "wlp (for_each [0..<NPROC] (schedule_slot run c)) (\<lambda>_. ?I) (procs_ok {c}) t" if "?I t" for t
    using that wlp_schedule_slot [OF assms(1)] by (intro wlp_for_each) auto
  show ?thesis
    unfolding schedule_pass_def wlp_thenk
    by (rule wlp_mono [OF calm [OF calmly_interrupts(2)]], simp add: assms,
        rule wlp_mono [OF calm [OF calmly_acquire]], simp, rule wlp_mono [OF loop], simp, rule calm [OF calmly_release], simp_all)
qed

lemma gives_back_kernel:
  "gives_back c (\<lambda>_. exit_enter)" "gives_back c (\<lambda>_. yield_enter)" "gives_back c (\<lambda>_. sleep_enter ch lk)"
proof -
  show "gives_back c (\<lambda>_. exit_enter)" "gives_back c (\<lambda>_. yield_enter)"
    unfolding gives_back_def using wlp_exit_enter wlp_yield_enter by blast+
  have "wlp (sleep_enter ch lk) (\<lambda>_ t. procs_ok {me s} t \<and> me t = me s) (procs_ok {me s}) s" if "procs_ok {} s"
    for s :: "'z vm_scheme"
    by (rule wlp_mono [OF wlp_sleep_enter]) (use that procs_ok_rest in \<open>auto simp: rest_def same_procs_def me_def\<close>)
  then show "gives_back c (\<lambda>_. sleep_enter ch lk)" unfolding gives_back_def by blast
qed

subsection \<open>A concrete state\<close>

definition demo_traps :: "'z \<Rightarrow> 'z traps_scheme" where
  "demo_traps z = demo_kbds [] [] \<lparr>cr2 = 0, eois = 0, \<dots> = z\<rparr>"

lemmas demo_traps_defs = demo_traps_def demo_kbds_def demo_procs_defs

lemma demo_traps_idle: "idle (demo_traps z) 0"
  unfolding demo_traps_def by (rule demo_kbds(1))

lemma demo_traps_ok: "procs_ok {} (demo_traps z)" "me (demo_traps z) = 0" "current (demo_traps z) = Some 0"
proof -
  have t: "ptable (demo_traps z) = demo_proc" "nextpid (demo_traps z) = 2" "initproc (demo_traps z) = Some 0"
    "cpu_proc (cpus (demo_traps z) c) = (if c = 0 then Some 0 else None)" "lapicid (demo_traps z) = 0"
    "apicid (demo_traps z) = (\<lambda>i. i)" "ncpu (demo_traps z) = 1" for c
    by (simp_all add: demo_traps_defs)
  show "procs_ok {} (demo_traps z)"
    by (auto simp: procs_ok_def pids_ok_def on_cpus_ok_def parents_ok_def live_def grown_def t demo_proc_def)
  show "me (demo_traps z) = 0" by (simp add: me_def t find_slot.simps)
  then show "current (demo_traps z) = Some 0" by (simp add: current_def t)
qed

subsection \<open>Properties\<close>





end
