(* ===== verification/Ulib.thy ===== *)
theory Ulib
  imports Console KString
begin

text \<open>
  The user library (\<open>ulib.c\<close>, \<open>printf.c\<close>). Routines that only read their strings are functions of
  lists of characters; a zero character ends the string, as it does in memory, and so
  does the end of the list. Routines that write are functions of byte-addressed memory, as in \<open>KString\<close>.
  A routine that reads the standard input takes the characters that are still to come, and \<open>printf\<close>
  returns the characters that it writes, \<open>None\<close> if the arguments do not fit the format, which is undefined in C.

  Shown: \<open>strcmp\<close> decides equality, \<open>atoi\<close> inverts the decimal output of \<open>printf\<close>, \<open>strcpy\<close> returns and copies a
  string that lies apart from its destination, and \<open>memmove\<close> agrees with the kernel's routine of the same name
  unless the destination starts inside the source.
\<close>

subsection \<open>Strings\<close>

abbreviation (input) NUL :: char where "NUL \<equiv> CHR 0x00"
abbreviation (input) NL :: char where "NL \<equiv> CHR 0x0A"
abbreviation (input) CR :: char where "CR \<equiv> CHR 0x0D"

text \<open>The character that a pointer to a string points to.\<close>

definition ch0 :: "string \<Rightarrow> char" where
  "ch0 s = (case s of [] \<Rightarrow> NUL | c # _ \<Rightarrow> c)"

lemma ch0_simps [simp]: "ch0 [] = NUL" "ch0 (c # s) = c"
  by (simp_all add: ch0_def)

function strcmp :: "string \<Rightarrow> string \<Rightarrow> int" where
  "strcmp p q =
     (if ch0 p \<noteq> NUL \<and> ch0 p = ch0 q then strcmp (tl p) (tl q)
      else of_char (ch0 p) - of_char (ch0 q))"
  by pat_completeness auto
termination
  by (relation "measure (\<lambda>(p, q). length p)") (auto simp: ch0_def split: list.splits)

declare strcmp.simps [simp del]

fun ustrlen :: "string \<Rightarrow> nat" where
  "ustrlen [] = 0"
| "ustrlen (c # s) = (if c = NUL then 0 else Suc (ustrlen s))"

text \<open>The result of \<open>strchr\<close> is the rest of the string from the character on.\<close>

fun strchr :: "string \<Rightarrow> char \<Rightarrow> string option" where
  "strchr [] c = None"
| "strchr (x # s) c = (if x = NUL then None else if x = c then Some (x # s) else strchr s c)"

fun atoi_loop :: "uint \<Rightarrow> string \<Rightarrow> uint" where
  "atoi_loop n [] = n"
| "atoi_loop n (c # s) =
     (if 48 \<le> (of_char c :: nat) \<and> of_char c \<le> (57 :: nat) then atoi_loop (n * 10 + of_nat (of_char c) - 48) s else n)"

definition atoi :: "string \<Rightarrow> uint" where
  "atoi s = atoi_loop 0 s"

text \<open>What \<open>gets\<close> stores before the terminating zero, and the input that it leaves.\<close>

fun gets_loop :: "nat \<Rightarrow> string \<Rightarrow> string \<times> string" where
  "gets_loop 0 inp = ([], inp)"
| "gets_loop (Suc n) [] = ([], [])"
| "gets_loop (Suc n) (c # inp) =
     (if c = NL \<or> c = CR then ([c], inp)
      else let (buf, inp') = gets_loop n inp in (c # buf, inp'))"

definition gets :: "int \<Rightarrow> string \<Rightarrow> string \<times> string" where
  "gets mx inp = gets_loop (nat (mx - 1)) inp"

subsection \<open>Memory\<close>

definition umemset :: "uint \<Rightarrow> uint \<Rightarrow> nat \<Rightarrow> mem \<Rightarrow> mem" where
  "umemset dst c n m = stosb dst (ucast c) n m"

definition umemmove :: "uint \<Rightarrow> uint \<Rightarrow> int \<Rightarrow> mem \<Rightarrow> mem" where
  "umemmove vdst vsrc n m = copy_up vdst vsrc (nat n) m"

partial_function (option) strcpy_loop :: "uint \<Rightarrow> uint \<Rightarrow> mem \<Rightarrow> mem option" where
  "strcpy_loop s t m =
     (let m' = m(s := m t) in if m' s \<noteq> 0 then strcpy_loop (s + 1) (t + 1) m' else Some m')"

definition strcpy :: "uint \<Rightarrow> uint \<Rightarrow> mem \<Rightarrow> (uint \<times> mem) option" where
  "strcpy s t m = map_option (Pair s) (strcpy_loop s t m)"

subsection \<open>Formatted output\<close>

definition uprintint :: "uint \<Rightarrow> nat \<Rightarrow> bool \<Rightarrow> string" where
  "uprintint xx base sg = rev (int_chars ''0123456789ABCDEF'' xx base sg)"

definition printf_conv :: "char \<Rightarrow> carg list \<Rightarrow> (string \<times> carg list) option" where
  "printf_conv c ap =
     (if c = CHR ''d'' then (case ap of Num x # ap' \<Rightarrow> Some (uprintint x 10 True, ap') | _ \<Rightarrow> None)
      else if c = CHR ''x'' \<or> c = CHR ''p'' then (case ap of Num x # ap' \<Rightarrow> Some (uprintint x 16 False, ap') | _ \<Rightarrow> None)
      else if c = CHR ''s'' then
        (case ap of Str None # ap' \<Rightarrow> Some (''(null)'', ap') | Str (Some s) # ap' \<Rightarrow> Some (s, ap') | _ \<Rightarrow> None)
      else if c = CHR ''c'' then (case ap of Num x # ap' \<Rightarrow> Some ([char_of (unat x)], ap') | _ \<Rightarrow> None)
      else if c = CHR ''%'' then Some ([c], ap)
      else Some ([CHR ''%'', c], ap))"

text \<open>The loop over the format; \<open>st\<close> tells that the last character was a percent sign.\<close>

fun printf_loop :: "bool \<Rightarrow> string \<Rightarrow> carg list \<Rightarrow> string option" where
  "printf_loop st [] ap = Some []"
| "printf_loop st (c # fmt) ap =
     (if \<not> st then
        (if c = CHR ''%'' then printf_loop True fmt ap else map_option (Cons c) (printf_loop False fmt ap))
      else (case printf_conv c ap of None \<Rightarrow> None
        | Some (out, ap') \<Rightarrow> map_option (append out) (printf_loop False fmt ap')))"

definition printf :: "string \<Rightarrow> carg list \<Rightarrow> string option" where
  "printf fmt ap = printf_loop False fmt ap"

subsection \<open>Reading strings\<close>

lemma strchr_Some:
  "strchr s c = Some q \<longleftrightarrow> c \<noteq> NUL \<and> (\<exists>p. s = p @ q \<and> (\<exists>r. q = c # r) \<and> c \<notin> set p \<and> NUL \<notin> set p)"
proof (induction s)
  case (Cons x s)
  show ?case
  proof (cases "x = NUL \<or> x = c")
    case True
    then show ?thesis by (auto simp: Cons_eq_append_conv)
  next
    case False
    then have "(\<exists>p. x # s = p @ q \<and> (\<exists>r. q = c # r) \<and> c \<notin> set p \<and> NUL \<notin> set p) \<longleftrightarrow>
        (\<exists>p. s = p @ q \<and> (\<exists>r. q = c # r) \<and> c \<notin> set p \<and> NUL \<notin> set p)"
      by (auto simp: Cons_eq_append_conv)
    with False Cons show ?thesis by simp
  qed
qed simp

lemma strchr_None: "strchr s c = None \<longleftrightarrow> c = NUL \<or> c \<notin> set (takeWhile (\<lambda>x. x \<noteq> NUL) s)"
  by (induction s) auto

lemma ustrlen_takeWhile: "ustrlen s = length (takeWhile (\<lambda>x. x \<noteq> NUL) s)"
  by (induction s) auto

lemma of_char_zero: "(of_char c :: int) = 0 \<longleftrightarrow> c = NUL"
  using of_char_eq_iff [of c NUL, where 'a = int] by simp

lemma strcmp_eq: "strcmp p q = 0 \<longleftrightarrow> takeWhile (\<lambda>x. x \<noteq> NUL) p = takeWhile (\<lambda>x. x \<noteq> NUL) q"
proof (induction p q rule: strcmp.induct)
  case (1 p q)
  then show ?case
    unfolding strcmp.simps [of p q] by (cases p; cases q) (auto simp: of_char_zero)
qed

lemma takeWhile_NUL: "NUL \<notin> set r \<Longrightarrow> takeWhile (\<lambda>x. x \<noteq> NUL) r = r"
  by (induction r) auto

lemma strcmp_string:
  assumes "NUL \<notin> set p" "NUL \<notin> set q"
  shows "strcmp p q = 0 \<longleftrightarrow> p = q"
  unfolding strcmp_eq takeWhile_NUL [OF assms(1)] takeWhile_NUL [OF assms(2)] ..

lemma gets_loop_split:
  "gets_loop n inp = (buf, rest) \<Longrightarrow> inp = buf @ rest \<and> length buf \<le> n"
  by (induction n inp arbitrary: buf rule: gets_loop.induct) (auto split: if_splits prod.splits)

subsection \<open>Numbers\<close>

definition is_digit :: "char \<Rightarrow> bool" where
  "is_digit c \<longleftrightarrow> 48 \<le> (of_char c :: nat) \<and> of_char c \<le> (57 :: nat)"

lemma atoi_loop_append:
  "\<forall>c \<in> set s. is_digit c \<Longrightarrow> atoi_loop n (s @ t) = atoi_loop (atoi_loop n s) t"
  by (induction s arbitrary: n) (auto simp: is_digit_def)

lemma decimal_digit:
  assumes "d < 10"
  shows "(of_char (''0123456789ABCDEF'' ! d) :: nat) = 48 + d"
proof -
  have "\<forall>d \<in> {..<10}. (of_char (''0123456789ABCDEF'' ! d) :: nat) = 48 + d" by code_simp
  with assms show ?thesis by blast
qed

lemma of_char_digit:
  assumes "(of_char c :: nat) = 48 + d" "d < 10"
  shows "is_digit c" "atoi_loop n [c] = n * 10 + of_nat d"
  using assms by (simp_all add: is_digit_def)

lemma atoi_digits:
  "(\<forall>c \<in> set (digit_loop ''0123456789ABCDEF'' 10 x). is_digit c) \<and>
   atoi (rev (digit_loop ''0123456789ABCDEF'' 10 x)) = of_nat x"
proof (induction x rule: less_induct)
  case (less x)
  define d where "d = ''0123456789ABCDEF'' ! (x mod 10)"
  have d: "is_digit d" "atoi_loop n [d] = n * 10 + of_nat (x mod 10)" for n
    using decimal_digit [of "x mod 10"] of_char_digit [of d "x mod 10"] by (simp_all add: d_def)
  show ?case
  proof (cases "x div 10 = 0")
    case True
    then have "digit_loop ''0123456789ABCDEF'' 10 x = [d]" by (subst digit_loop.simps) (simp add: d_def)
    with True show ?thesis using d(1) d(2) [of 0] by (simp add: atoi_def del: atoi_loop.simps)
  next
    case False
    then have "x div 10 < x" by simp
    note IH = less [OF this]
    have "(of_nat (x div 10) :: uint) * 10 + of_nat (x mod 10) = of_nat (x div 10 * 10 + x mod 10)"
      by (simp only: of_nat_add of_nat_mult of_nat_numeral)
    also have "\<dots> = of_nat x" by (simp only: div_mult_mod_eq)
    finally have x: "(of_nat (x div 10) :: uint) * 10 + of_nat (x mod 10) = of_nat x" .
    let ?r = "digit_loop ''0123456789ABCDEF'' 10 (x div 10)"
    have "digit_loop ''0123456789ABCDEF'' 10 x = d # ?r"
      using False by (subst digit_loop.simps) (simp add: d_def)
    moreover have "atoi_loop 0 (rev ?r @ [d]) = of_nat x"
      using IH x d(2) [of "of_nat (x div 10)"] atoi_loop_append [of "rev ?r" 0 "[d]"]
      by (simp add: atoi_def del: atoi_loop.simps of_nat_mult)
    ultimately show ?thesis using IH d(1) by (simp add: atoi_def del: atoi_loop.simps)
  qed
qed

lemma atoi_stop: "atoi_loop n (c # s) = n" if "\<not> is_digit c"
  using that unfolding is_digit_def atoi_loop.simps by (rule if_not_P)

lemma printf_decimal: "printf ''%d'' [Num x] = Some (uprintint x 10 True)"
  by (simp add: printf_def printf_conv_def)

subsection \<open>Copying\<close>

lemma strcpy_loop_at:
  assumes "string_at m t xs" "apart s (Suc (length xs)) t xs" "Suc (length xs) < 4294967296"
  shows "\<exists>m'. strcpy_loop s t m = Some m' \<and> string_at m' s xs \<and> (\<forall>a. Suc (length xs) \<le> unat (a - s) \<longrightarrow> m' a = m a)"
  using assms
proof (induction xs arbitrary: s t m)
  case Nil
  then show ?case
    by (auto simp: strcpy_loop.simps [of s t m] Let_def) 
next
  case (Cons x xs)
  define m1 where "m1 = m(s := x)"
  have "apart s (Suc (Suc (length xs))) t (x # xs)" using Cons.prems(2) by simp
  note ap = apart_Suc [OF this]
  have "string_at m1 (t + 1) xs"
    using Cons.prems ap string_at_upd [of xs s "t + 1" m x] by (simp add: m1_def)
  then obtain m2 where m2: "strcpy_loop (s + 1) (t + 1) m1 = Some m2" "string_at m2 (s + 1) xs"
      "\<And>a. Suc (length xs) \<le> unat (a - (s + 1)) \<Longrightarrow> m2 a = m1 a"
    using Cons.IH [of m1 "t + 1" "s + 1"] ap Cons.prems by auto
  have "strcpy_loop s t m = Some m2"
    using m2(1) Cons.prems(1) by (simp add: strcpy_loop.simps [of s t m] m1_def Let_def)
  moreover have "m2 s = x" using m2(3) [of s] Cons.prems(3) range_before [of s] by (simp add: m1_def)
  moreover have "m2 a = m a" if "Suc (Suc (length xs)) \<le> unat (a - s)" for a
    using that m2(3) [of a] range_pred [of a s] by (cases "a = s") (auto simp: m1_def)
  ultimately show ?case using m2(2) Cons.prems(1) by auto
qed

lemma copy_up_memmove:
  assumes "unat src + n < 4294967296" "unat dst + n < 4294967296" "\<not> (src < dst \<and> unat dst < unat src + n)"
  shows "copy_up dst src n m = memmove dst src n m"
proof -
  have "unat (src + of_nat n) = unat src + n" using assms(1) by (simp add: add_of_nat)
  then show ?thesis using assms(3) by (auto simp: memmove_def word_less_nat_alt)
qed

subsection \<open>Properties\<close>

text \<open>The number that \<open>atoi\<close> reads from the text that \<open>printf\<close> writes for a non-negative integer is that integer, whatever
  follows the digits.\<close>

lemma atoi_printf:
  assumes "0 \<le> sint x" "t = [] \<or> \<not> is_digit (hd t)"
  shows "\<exists>s. printf ''%d'' [Num x] = Some s \<and> atoi (s @ t) = x"
proof -
  let ?s = "rev (digit_loop ''0123456789ABCDEF'' 10 (unat x))"
  have "uprintint x 10 True = ?s" using assms(1) by (simp add: uprintint_def int_chars_def Let_def)
  moreover have "atoi_loop n t = n" for n
    using assms(2) by (cases t) (auto simp: atoi_stop simp del: atoi_loop.simps(2))
  then have "atoi (?s @ t) = x"
    using atoi_digits [of "unat x"] atoi_loop_append [of ?s 0 t] by (simp add: atoi_def)
  ultimately show ?thesis using printf_decimal by simp
qed

text \<open>The user library's \<open>memmove\<close>, which copies upwards only, is the kernel's \<open>memmove\<close> as long as the destination does
  not start inside the source.\<close>

lemma umemmove_memmove:
  assumes "unat src + n < 4294967296" "unat dst + n < 4294967296" "unat dst \<le> unat src \<or> unat src + n \<le> unat dst"
  shows "umemmove dst src (int n) m = memmove dst src n m"
  unfolding umemmove_def nat_int
  by (rule copy_up_memmove [OF assms(1,2)]) (use assms(3) in \<open>auto simp: word_less_nat_alt\<close>)

end
