(* ===== verification/Grep.thy ===== *)
theory Grep
  imports Ulib
begin

text \<open>
  The pattern search \<open>grep.c\<close>. A pattern and a line are strings without their terminating zero.
  The input its the list of the pieces that successive calls of \<open>read\<close> return; the output its what
  its written to the standard output.

  Shown: the backtracking matcher its equivalent to the language of the pattern, whatever the
  pattern; \<open>grep\<close> prints exactly the matching lines if every read brings the end of a line; and a line
  that arrives in two pieces its lost.
\<close>

subsection \<open>The matcher\<close>

function (sequential) matchhere :: "string \<Rightarrow> string \<Rightarrow> bool"
  and matchstar :: "char \<Rightarrow> string \<Rightarrow> string \<Rightarrow> bool" where
  "matchhere re s =
     (case re of [] \<Rightarrow> True
      | c # re' \<Rightarrow>
        if ch0 re' = CHR ''*'' then matchstar c (tl re') s
        else if c = CHR ''$'' \<and> re' = [] then s = []
        else (case s of [] \<Rightarrow> False
          | x # s' \<Rightarrow> if c = CHR ''.'' \<or> c = x then matchhere re' s' else False))"
| "matchstar c re s =
     (if matchhere re s then True
      else (case s of [] \<Rightarrow> False
        | x # s' \<Rightarrow> if x = c \<or> c = CHR ''.'' then matchstar c re s' else False))"
  by pat_completeness auto
termination
  by (relation "measure (\<lambda>x. case x of Inl (re, s) \<Rightarrow> 2 * (length re + length s)
        | Inr (c, re, s) \<Rightarrow> 2 * (length re + length s) + 1)")
     (auto simp: ch0_def split: list.splits)

fun match_from :: "string \<Rightarrow> string \<Rightarrow> bool" where
  "match_from re s =
     (if matchhere re s then True else (case s of [] \<Rightarrow> False | x # s' \<Rightarrow> match_from re s'))"

definition match :: "string \<Rightarrow> string \<Rightarrow> bool" where
  "match re s = (if ch0 re = CHR ''^'' then matchhere (tl re) s else match_from re s)"

declare matchhere.simps [simp del] matchstar.simps [simp del] match_from.simps [simp del]

subsection \<open>The program\<close>

function grep_lines :: "string \<Rightarrow> string \<Rightarrow> string \<times> string" where
  "grep_lines pattern p =
     (case strchr p NL of None \<Rightarrow> ([], p)
      | Some q \<Rightarrow>
        let line = take (length p - length q) p;
            (out, rest) = grep_lines pattern (tl q)
        in ((if match pattern line then line @ [NL] else []) @ out, rest))"
  by pat_completeness auto
termination
  by (relation "measure (\<lambda>(pattern, p). length p)") (auto simp: strchr_Some)

declare grep_lines.simps [simp del]

text \<open>The loop around \<open>read\<close>: \<open>held\<close> are the first \<open>m\<close> bytes of the buffer.\<close>

fun grep_loop :: "string \<Rightarrow> string \<Rightarrow> string list \<Rightarrow> string" where
  "grep_loop pattern held [] = []"
| "grep_loop pattern held (piece # pieces) =
     (if piece = [] then []
      else let buf = held @ piece;
               (out, p) = grep_lines pattern buf
        in out @ grep_loop pattern (if length p = length buf then [] else p) pieces)"

definition grep :: "string \<Rightarrow> string list \<Rightarrow> string" where
  "grep pattern pieces = grep_loop pattern [] pieces"

subsection \<open>The language of a pattern\<close>

datatype item = One char | Many char

text \<open>The items of a pattern, and whether it ends in an anchor.\<close>

fun items :: "string \<Rightarrow> item list \<times> bool" where
  "items [] = ([], False)"
| "items [c] = (if c = CHR ''$'' then ([], True) else ([One c], False))"
| "items (c # d # re) =
     (if d = CHR ''*'' then (let (its, a) = items re in (Many c # its, a))
      else (let (its, a) = items (d # re) in (One c # its, a)))"

definition fits :: "char \<Rightarrow> char \<Rightarrow> bool" where
  "fits c x \<longleftrightarrow> c = CHR ''.'' \<or> c = x"

fun lang :: "item list \<Rightarrow> string set" where
  "lang [] = {[]}"
| "lang (One c # its) = {x # u |x u. fits c x \<and> u \<in> lang its}"
| "lang (Many c # its) = {v @ u |v u. (\<forall>x \<in> set v. fits c x) \<and> u \<in> lang its}"

definition prefix_in :: "item list \<times> bool \<Rightarrow> string \<Rightarrow> bool" where
  "prefix_in r s \<longleftrightarrow> (\<exists>u v. s = u @ v \<and> u \<in> lang (fst r) \<and> (snd r \<longrightarrow> v = []))"

lemma prefix_Nil: "prefix_in ([], a) s \<longleftrightarrow> (a \<longrightarrow> s = [])"
  by (auto simp: prefix_in_def)

lemma prefix_One:
  "prefix_in (One c # its, a) s \<longleftrightarrow> (\<exists>x s'. s = x # s' \<and> fits c x \<and> prefix_in (its, a) s')"
  unfolding prefix_in_def lang.simps fst_conv snd_conv by (auto simp: ex_simps [symmetric] simp del: ex_simps)

lemma prefix_Many_split:
  "prefix_in (Many c # its, a) s \<longleftrightarrow> (\<exists>v r. s = v @ r \<and> (\<forall>x \<in> set v. fits c x) \<and> prefix_in (its, a) r)"
proof
  assume "prefix_in (Many c # its, a) s"
  then obtain u w where s: "s = u @ w" "u \<in> lang (Many c # its)" "a \<longrightarrow> w = []" unfolding prefix_in_def by auto
  then obtain v u' where "u = v @ u'" "\<forall>x \<in> set v. fits c x" "u' \<in> lang its" by auto
  with s show "\<exists>v r. s = v @ r \<and> (\<forall>x \<in> set v. fits c x) \<and> prefix_in (its, a) r"
    unfolding prefix_in_def by (intro exI [of _ v] exI [of _ "u' @ w"]) auto
next
  assume "\<exists>v r. s = v @ r \<and> (\<forall>x \<in> set v. fits c x) \<and> prefix_in (its, a) r"
  then obtain v u w where s: "s = (v @ u) @ w" "\<forall>x \<in> set v. fits c x" "u \<in> lang its" "a \<longrightarrow> w = []"
    unfolding prefix_in_def by auto
  then have "v @ u \<in> lang (Many c # its)" by auto
  with s show "prefix_in (Many c # its, a) s" unfolding prefix_in_def by (intro exI [of _ "v @ u"] exI [of _ w]) simp
qed

lemma prefix_Many:
  "prefix_in (Many c # its, a) s \<longleftrightarrow>
     prefix_in (its, a) s \<or> (\<exists>x s'. s = x # s' \<and> fits c x \<and> prefix_in (Many c # its, a) s')"
  (is "?L \<longleftrightarrow> ?R")
proof
  assume ?L
  then obtain v r where s: "s = v @ r" "\<forall>x \<in> set v. fits c x" "prefix_in (its, a) r"
    unfolding prefix_Many_split by blast
  then show ?R by (cases v) (auto simp: prefix_Many_split)
next
  assume ?R
  then show ?L
  proof (elim disjE exE conjE)
    assume "prefix_in (its, a) s"
    then show ?L unfolding prefix_Many_split by (intro exI [of _ "[]"] exI [of _ s]) simp
  next
    fix x s' assume s: "s = x # s'" "fits c x" "prefix_in (Many c # its, a) s'"
    then obtain v r where "s' = v @ r" "\<forall>x \<in> set v. fits c x" "prefix_in (its, a) r"
      unfolding prefix_Many_split by blast
    with s show ?L unfolding prefix_Many_split by (intro exI [of _ "x # v"] exI [of _ r]) simp
  qed
qed

lemma matchhere_items:
  "matchhere re s \<longleftrightarrow> prefix_in (items re) s"
  "matchstar c re s \<longleftrightarrow> prefix_in (Many c # fst (items re), snd (items re)) s"
proof (induction re s and c re s rule: matchhere_matchstar.induct)
  case (1 re s)
  show ?case
  proof (cases re rule: items.cases)
    case 1
    then show ?thesis unfolding matchhere.simps [of re s] by (simp add: prefix_Nil)
  next
    case (2 c)
    then show ?thesis using "1.IH" unfolding matchhere.simps [of re s]
      by (auto simp: prefix_Nil prefix_One fits_def split: list.split)
  next
    case (3 c d re')
    then show ?thesis using "1.IH" unfolding matchhere.simps [of re s]
      by (auto simp: prefix_One fits_def case_prod_beta split: list.split)
  qed
next
  case (2 c re s)
  show ?case
    unfolding matchstar.simps [of c re s] prefix_Many [of c _ _ s]
    using 2 by (auto simp: fits_def split: list.split)
qed

lemma match_from_suffix: "match_from re s \<longleftrightarrow> (\<exists>u v. s = u @ v \<and> matchhere re v)"
proof (induction s)
  case Nil
  then show ?case by (simp add: match_from.simps)
next
  case (Cons x s)
  have "(\<exists>u v. x # s = u @ v \<and> matchhere re v) \<longleftrightarrow> matchhere re (x # s) \<or> (\<exists>u v. s = u @ v \<and> matchhere re v)"
    by (metis append_Cons append_Nil neq_Nil_conv list.inject)
  then show ?case using Cons by (simp add: match_from.simps [of re "x # s"])
qed

subsection \<open>The lines of a buffer\<close>

abbreviation (input) clean :: "string \<Rightarrow> bool" where
  "clean l \<equiv> NL \<notin> set l \<and> NUL \<notin> set l"

definition unlines :: "string list \<Rightarrow> string" where
  "unlines ls = concat (map (\<lambda>l. l @ [NL]) ls)"

lemma unlines_simps [simp]:
  "unlines [] = []" "unlines (l # ls) = l @ NL # unlines ls" "unlines (ks @ ls) = unlines ks @ unlines ls"
  by (simp_all add: unlines_def)

lemma strchr_line: "clean l \<Longrightarrow> strchr (l @ NL # r) NL = Some (NL # r)"
  by (induction l) auto

lemma strchr_rest: "NL \<notin> set r \<Longrightarrow> strchr r NL = None"
  by (induction r) auto

lemma grep_lines_unlines:
  assumes "\<forall>l \<in> set ls. clean l" "NL \<notin> set r"
  shows "grep_lines re (unlines ls @ r) = (unlines (filter (match re) ls), r)"
  using assms
proof (induction ls)
  case Nil
  then show ?case by (simp add: grep_lines.simps [of re r] strchr_rest)
next
  case (Cons l ls)
  then show ?case
    by (simp add: grep_lines.simps [of re "l @ NL # unlines ls @ r"] strchr_line)
qed

text \<open>A text of complete lines, cut at a place after a line end.\<close>

lemma unlines_cut:
  assumes "x @ rest = unlines ls" "\<forall>l \<in> set ls. clean l"
  shows "\<exists>ks r ls'. x = unlines ks @ r \<and> NL \<notin> set r \<and> ls = ks @ ls' \<and> r @ rest = unlines ls'"
  using assms
proof (induction ls arbitrary: x)
  case Nil
  then show ?case by (intro exI [of _ "[]"]) simp
next
  case (Cons l ls)
  show ?case
  proof (cases "length x \<le> length l")
    case True
    then have "x = take (length x) l" using Cons.prems(1) by (metis append_eq_conv_conj take_all_iff take_append append_Nil2 diff_is_0_eq take0 unlines_simps(2))
    then have "NL \<notin> set x" using Cons.prems(2) by (metis in_set_takeD list.set_intros(1))
    with Cons.prems(1) show ?thesis by (intro exI [of _ "[]"] exI [of _ x] exI [of _ "l # ls"]) simp
  next
    case False
    then obtain y where y: "x = l @ NL # y" "y @ rest = unlines ls"
      using Cons.prems(1) by (auto simp: append_eq_append_conv2 Cons_eq_append_conv append_eq_Cons_conv)
    then obtain ks r ls' where "y = unlines ks @ r" "NL \<notin> set r" "ls = ks @ ls'" "r @ rest = unlines ls'"
      using Cons.IH [of y] Cons.prems(2) by auto
    with y show ?thesis by (intro exI [of _ "l # ks"] exI [of _ r] exI [of _ ls']) simp
  qed
qed

lemma grep_loop_unlines:
  assumes "held @ concat pieces = unlines ls" "NL \<notin> set held"
    and "\<forall>piece \<in> set pieces. NL \<in> set piece" "\<forall>l \<in> set ls. clean l"
  shows "grep_loop re held pieces = unlines (filter (match re) ls)"
  using assms
proof (induction pieces arbitrary: held ls)
  case Nil
  then have "ls = []" by (cases ls) auto
  then show ?case by simp
next
  case (Cons piece pieces)
  obtain ks r ls' where c: "held @ piece = unlines ks @ r" "NL \<notin> set r" "ls = ks @ ls'"
      "r @ concat pieces = unlines ls'"
    using unlines_cut [of "held @ piece" "concat pieces" ls] Cons.prems by auto
  have "NL \<in> set (held @ piece)" using Cons.prems(3) by simp
  then have "ks \<noteq> []" unfolding c(1) using c(2) by auto
  then have "unlines ks \<noteq> []" by (cases ks) auto
  moreover have "grep_lines re (held @ piece) = (unlines (filter (match re) ks), r)"
    unfolding c(1) using c Cons.prems by (intro grep_lines_unlines) auto
  moreover have "grep_loop re r pieces = unlines (filter (match re) ls')"
    using c Cons.prems by (intro Cons.IH) auto
  moreover have "piece \<noteq> []" using Cons.prems by auto
  ultimately show ?case using c by (simp add: Let_def)
qed

subsection \<open>Properties\<close>

text \<open>C33. The matcher accepts a line exactly if the line has a part in the language of the pattern, which starts the line if
  the pattern starts with \<open>^\<close> and ends it if the pattern ends with \<open>$\<close>.\<close>

theorem match_language:
  "match re s \<longleftrightarrow>
    (let anchored = ch0 re = CHR ''^''; (its, ended) = items (if anchored then tl re else re) in
     \<exists>u v w. s = u @ v @ w \<and> v \<in> lang its \<and> (anchored \<longrightarrow> u = []) \<and> (ended \<longrightarrow> w = []))"
  by (cases "ch0 re = CHR ''^''")
     (auto simp: match_def match_from_suffix matchhere_items prefix_in_def Let_def case_prod_beta)

theorem match_language_witness:
  "match ''^ab*c$'' ''abbbc'' \<longleftrightarrow>
    (let anchored = ch0 ''^ab*c$'' = CHR ''^''; (its, ended) = items (if anchored then tl ''^ab*c$'' else ''^ab*c$'') in
     \<exists>u v w. ''abbbc'' = u @ v @ w \<and> v \<in> lang its \<and> (anchored \<longrightarrow> u = []) \<and> (ended \<longrightarrow> w = []))"
  by (rule match_language)

text \<open>C39. If the input consists of complete lines without zero bytes and every \<open>read\<close> returns a piece in which a line ends, \<open>grep\<close>
  writes the lines that match, in their order, and nothing else.\<close>

theorem grep_lines_match:
  assumes "concat pieces = unlines ls" "\<forall>piece \<in> set pieces. NL \<in> set piece" "\<forall>l \<in> set ls. NL \<notin> set l \<and> NUL \<notin> set l"
  shows "grep re pieces = unlines (filter (match re) ls)"
  unfolding grep_def using assms by (intro grep_loop_unlines) auto

theorem grep_lines_match_witness:
  "grep ''l*o'' [''hell'' @ [NL] @ ''lo'', ''w'' @ [NL]] = unlines (filter (match ''l*o'') [''hell'', ''low''])"
  by (rule grep_lines_match) (simp_all add: unlines_def)

text \<open>A line that reaches \<open>grep\<close> in two pieces is lost if its first piece holds no line end and is the whole buffer: its
  first piece is dropped and only the rest is matched.\<close>

lemma grep_drops_piece:
  assumes "a \<noteq> []" "b \<noteq> []" "NL \<notin> set a" "NL \<notin> set b" "NUL \<notin> set b"
  shows "grep re [a, b @ [NL]] = (if match re b then b @ [NL] else [])"
proof -
  have "grep_lines re a = ([], a)" using assms by (simp add: grep_lines.simps strchr_rest)
  moreover have "grep_lines re (b @ [NL]) = (if match re b then b @ [NL] else [], [])"
    using grep_lines_unlines [of "[b]" "[]" re] assms by auto
  ultimately show ?thesis using assms by (simp add: grep_def Let_def)
qed

end
