(* ===== verification/Utils.thy ===== *)
theory Utils
  imports Ulib "HOL-Library.Signed_Division"
begin

text \<open>
  Small user programs: \<open>wc.c\<close>, \<open>cal.c\<close>, \<open>calc.c\<close>, \<open>guess.c\<close>, \<open>echo.c\<close>. A file is the list of the pieces
  that successive calls of \<open>read\<close> return and a flag that tells whether the last call failed. C's \<open>int\<close> is an
  integer that wraps at 32 bits, with division that truncates towards zero. What a program writes is its result.

  Shown: \<open>wc\<close> counts the lines, words and characters of the file however it is cut into pieces; \<open>cal\<close> puts
  every day in the column of its day of the week, which is the one that counting the days of the calendar
  gives; \<open>calc\<close> evaluates from the left to the right.
\<close>

definition wrap32 :: "int \<Rightarrow> int" where
  "wrap32 x = sint (of_int x :: uint)"

lemma wrap32_id: "- 2147483648 \<le> x \<Longrightarrow> x < 2147483648 \<Longrightarrow> wrap32 x = x"
  unfolding wrap32_def sint_sbintrunc' by (rule signed_take_bit_int_eq_self) simp_all

subsection \<open>The word count\<close>

record wcount =
  wc_l :: uint
  wc_w :: uint
  wc_c :: uint
  inword :: bool

definition wc_char :: "char \<Rightarrow> wcount \<Rightarrow> wcount" where
  "wc_char x s =
     (let s = s\<lparr>wc_c := wc_c s + 1\<rparr>;
          s = (if x = NL then s\<lparr>wc_l := wc_l s + 1\<rparr> else s)
      in if strchr [CHR '' '', CR, CHR 0x09, NL, CHR 0x0B] x \<noteq> None then s\<lparr>inword := False\<rparr>
         else if \<not> inword s then s\<lparr>wc_w := wc_w s + 1, inword := True\<rparr>
         else s)"

fun wc_read :: "string list \<Rightarrow> wcount \<Rightarrow> wcount" where
  "wc_read [] s = s"
| "wc_read (buf # pieces) s = (if buf = [] then s else wc_read pieces (fold wc_char buf s))"

definition wc :: "string list \<Rightarrow> bool \<Rightarrow> string \<Rightarrow> string option" where
  "wc pieces failed name =
     (let s = wc_read pieces \<lparr>wc_l = 0, wc_w = 0, wc_c = 0, inword = False\<rparr> in
      if failed then printf (''wc: read error'' @ [NL]) []
      else printf (''%d %d %d %s'' @ [NL]) [Num (wc_l s), Num (wc_w s), Num (wc_c s), Str (Some name)])"

subsection \<open>The calendar\<close>

definition month_shift :: "int list" where
  "month_shift = [0, 3, 2, 5, 0, 3, 5, 1, 4, 6, 2, 4]"

definition dayofweek :: "int \<Rightarrow> int \<Rightarrow> int \<Rightarrow> int" where
  "dayofweek d m y =
     (let y = (if m < 3 then wrap32 (y - 1) else y) in
      wrap32 (y + y sdiv 4 - y sdiv 100 + y sdiv 400 + month_shift ! nat (m - 1) + d) smod 7)"

definition is_leap_year :: "int \<Rightarrow> bool" where
  "is_leap_year year =
     (if year smod 400 = 0 then True else if year smod 100 = 0 then False else if year smod 4 = 0 then True else False)"

definition days_in_month :: "int \<Rightarrow> int \<Rightarrow> int" where
  "days_in_month month year =
     (let days = [31, 28, 31, 30, 31, 30, 31, 31, 30, 31, 30, 31];
          days = (if month = 2 \<and> is_leap_year year then days[1 := 29] else days)
      in days ! nat (month - 1))"

definition cal_months :: "string list" where
  "cal_months = [''January'', ''February'', ''March'', ''April'', ''May'', ''June'',
     ''July'', ''August'', ''September'', ''October'', ''November'', ''December'']"

text \<open>The text of a call whose arguments fit the format.\<close>

definition out :: "string \<Rightarrow> carg list \<Rightarrow> string" where
  "out fmt ap = (case printf fmt ap of None \<Rightarrow> [] | Some t \<Rightarrow> t)"

definition cal_day :: "int \<Rightarrow> int \<Rightarrow> string" where
  "cal_day start_day day =
     (if day < 10 then out ''  %d'' [Num (of_int day)] else out '' %d'' [Num (of_int day)]) @
     (if (day + start_day) smod 7 = 0 then [NL] else [])"

definition cal :: "string list \<Rightarrow> string" where
  "cal argv =
     (if length argv < 3 then out (''Usage: cal <month 1-12> <year e.g. 2026>'' @ [NL]) []
      else let month = sint (atoi (argv ! 1)); year = sint (atoi (argv ! 2)) in
      if month < 1 \<or> 12 < month \<or> year < 1 then out (''Invalid month or year!'' @ [NL]) []
      else let start_day = dayofweek 1 month year in
        out (''    %s %d'' @ [NL]) [Str (Some (cal_months ! nat (month - 1))), Num (of_int year)] @
        out ('' Su Mo Tu We Th Fr Sa'' @ [NL]) [] @
        concat (replicate (nat start_day) (out ''   '' [])) @
        concat (map (cal_day start_day) [1 .. days_in_month month year]) @
        out [NL, NL] [])"

subsection \<open>The calculator\<close>

text \<open>\<open>calculate\<close> returns a value, or prints a message and returns 0; a division that overflows traps.\<close>

datatype calc_result = Value uint | Complaint string | Trap

fun calc_number :: "uint \<Rightarrow> string \<Rightarrow> uint \<times> string" where
  "calc_number num [] = (num, [])"
| "calc_number num (c # str) =
     (if is_digit c then calc_number (num * 10 + (of_nat (of_char c) - 48)) str
      else (num, c # str))"

definition calc_apply :: "char \<Rightarrow> uint \<Rightarrow> uint \<Rightarrow> calc_result" where
  "calc_apply op result num =
     (if op = CHR ''+'' then Value (result + num)
      else if op = CHR ''-'' then Value (result - num)
      else if op = CHR ''*'' then Value (result * num)
      else if op = CHR ''/'' then
        (if num = 0 then Complaint (''Error: Division by zero!'' @ [NL])
         else if sint result = - 2147483648 \<and> sint num = - 1 then Trap
         else Value (of_int (sint result sdiv sint num)))
      else Value result)"

lemma calc_number_length: "length (snd (calc_number num str)) \<le> length str"
  by (induction num str rule: calc_number.induct) auto

lemma calc_number_less: "(n, rest) = calc_number num str \<Longrightarrow> length rest < Suc (length str)"
  using calc_number_length [of num str] by (cases "calc_number num str") simp

function calc_loop :: "uint \<Rightarrow> char \<Rightarrow> string \<Rightarrow> calc_result" where
  "calc_loop result op [] = Value result"
| "calc_loop result op (c # str) =
     (if c = CHR '' '' \<or> c = CHR 0x09 then calc_loop result op str
      else if is_digit c then
        (case calc_number 0 (c # str) of (num, rest) \<Rightarrow>
          (case calc_apply op result num of Value r \<Rightarrow> calc_loop r op rest | bad \<Rightarrow> bad))
      else if c = CHR ''+'' \<or> c = CHR ''-'' \<or> c = CHR ''*'' \<or> c = CHR ''/'' then calc_loop result c str
      else Complaint (out (''calc: Unknown symbol '' @ [CHR 0x27] @ ''%c'' @ [CHR 0x27, NL]) [Num (of_nat (of_char c))]))"
  by pat_completeness auto
termination
  by (relation "measure (\<lambda>(r, op, str). length str)") (auto dest!: calc_number_less)

declare calc_loop.simps [simp del]

definition calculate :: "string \<Rightarrow> calc_result" where
  "calculate str = calc_loop 0 (CHR ''+'') str"

definition calc :: "string list \<Rightarrow> calc_result" where
  "calc argv =
     (if length argv < 2 then
        Complaint (''Usage: calc '' @ [CHR 0x22] @ ''[expression]'' @ [CHR 0x22] @ '' (e.g., calc '' @ [CHR 0x22] @
          ''10*5+2'' @ [CHR 0x22] @ ''(There cant be any spaces!!!))'' @ [NL])
      else calculate (argv ! 1))"

subsection \<open>The guessing game and \<open>echo\<close>\<close>

definition random_target :: "uint \<Rightarrow> uint" where
  "random_target seed = (let seed = (seed * 1103515245 + 12345) div 65536 mod 32768 in seed mod 100 + 1)"

text \<open>One round per line read; the game ends with the right guess or the end of the input.\<close>

fun guess_loop :: "int \<Rightarrow> uint \<Rightarrow> string list \<Rightarrow> string" where
  "guess_loop target attempts [] = out ''Enter your guess: '' []"
| "guess_loop target attempts (buf # inp) =
     out ''Enter your guess: '' [] @
     (if buf = [] then []
      else let guess = sint (atoi buf); attempts = attempts + 1 in
        if guess < 1 \<or> 100 < guess then
          out (''Please guess a number BETWEEN 1 and 100!'' @ [NL]) [] @ guess_loop target attempts inp
        else if guess = target then
          out ([NL] @ '' BOOM! You got it! The number was %d.'' @ [NL]) [Num (of_int target)] @
          out (''It took you %d attempts.'' @ [NL, NL]) [Num attempts]
        else if guess < target then out (''Too LOW! Try again.'' @ [NL]) [] @ guess_loop target attempts inp
        else out (''Too HIGH! Try again.'' @ [NL]) [] @ guess_loop target attempts inp)"

definition guess :: "uint \<Rightarrow> string list \<Rightarrow> string" where
  "guess uptime inp =
     out (''==== DUCKO.UNIX NUMBER GUESSING GAME ===='' @ [NL]) [] @
     out (''I'' @ [CHR 0x27] @ ''m thinking of a number between 1 and 100.'' @ [NL]) [] @
     out (''Can you guess it?'' @ [NL, NL]) [] @
     guess_loop (sint (random_target uptime)) 0 inp"

definition echo :: "string list \<Rightarrow> string" where
  "echo argv = concat (map (\<lambda>i. out ''%s%s'' [Str (Some (argv ! i)), Str (Some (if i + 1 < length argv then '' '' else [NL]))])
     [1..<length argv])"

subsection \<open>What \<open>wc\<close> counts\<close>

definition space :: "char \<Rightarrow> bool" where
  "space x \<longleftrightarrow> x \<in> {CHR '' '', CR, CHR 0x09, NL, CHR 0x0B}"

lemma strchr_space: "strchr [CHR '' '', CR, CHR 0x09, NL, CHR 0x0B] x \<noteq> None \<longleftrightarrow> space x"
  by (auto simp: space_def)

function wc_words :: "string \<Rightarrow> string list" where
  "wc_words s = (case dropWhile space s of [] \<Rightarrow> []
     | c # r \<Rightarrow> (c # takeWhile (\<lambda>x. \<not> space x) r) # wc_words (dropWhile (\<lambda>x. \<not> space x) r))"
  by pat_completeness auto
termination
proof (relation "measure length")
  fix s c r assume "dropWhile space s = c # r"
  then have "length (c # r) \<le> length s" by (metis length_dropWhile_le)
  then show "(dropWhile (\<lambda>x. \<not> space x) r, s) \<in> measure length"
    using length_dropWhile_le [of "\<lambda>x. \<not> space x" r] by simp
qed simp

declare wc_words.simps [simp del]

lemma wc_words_Nil [simp]: "wc_words [] = []"
  by (simp add: wc_words.simps)

lemma wc_words_space [simp]: "space c \<Longrightarrow> wc_words (c # s) = wc_words s"
  by (simp add: wc_words.simps [of "c # s"] wc_words.simps [of s])

lemma wc_words_char [simp]:
  "\<not> space c \<Longrightarrow> wc_words (c # s) = (c # takeWhile (\<lambda>x. \<not> space x) s) # wc_words (dropWhile (\<lambda>x. \<not> space x) s)"
  by (simp add: wc_words.simps [of "c # s"])

lemma wc_fold:
  "\<exists>b. fold wc_char s t = \<lparr>wc_l = wc_l t + of_nat (count_list s NL),
     wc_w = wc_w t + of_nat (length (wc_words (if inword t then dropWhile (\<lambda>x. \<not> space x) s else s))),
     wc_c = wc_c t + of_nat (length s), inword = b\<rparr>"
proof (induction s arbitrary: t)
  case Nil
  then show ?case by (cases t) auto
next
  case (Cons x s)
  from Cons.IH [of "wc_char x t"] obtain b where b: "fold wc_char s (wc_char x t) =
      \<lparr>wc_l = wc_l (wc_char x t) + of_nat (count_list s NL),
       wc_w = wc_w (wc_char x t) + of_nat (length (wc_words (if inword (wc_char x t) then dropWhile (\<lambda>x. \<not> space x) s else s))),
       wc_c = wc_c (wc_char x t) + of_nat (length s), inword = b\<rparr>" by blast
  have n: "space NL" by (simp add: space_def)
  show ?case unfolding fold_simps b
    unfolding wc_char_def strchr_space
    by (rule exI [of _ b], cases "space x"; cases "x = NL") (use n in \<open>auto simp: Let_def\<close>)
qed

lemma wc_read_concat: "[] \<notin> set pieces \<Longrightarrow> wc_read pieces t = fold wc_char (concat pieces) t"
  by (induction pieces arbitrary: t) auto

subsection \<open>The days of the calendar\<close>

definition leap :: "int \<Rightarrow> bool" where
  "leap y \<longleftrightarrow> 4 dvd y \<and> \<not> 100 dvd y \<or> 400 dvd y"

definition month_length :: "int \<Rightarrow> int \<Rightarrow> int" where
  "month_length m y = (if m = 2 then if leap y then 29 else 28 else if m \<in> {4, 6, 9, 11} then 30 else 31)"

text \<open>The days between the first day of year 1 and the first day of year \<open>k + 1\<close>.\<close>

fun year_start :: "nat \<Rightarrow> int" where
  "year_start 0 = 0"
| "year_start (Suc k) = year_start k + (if leap (int (Suc k)) then 366 else 365)"

text \<open>Day 1 of month 1 of year 1 is a Monday.\<close>

definition weekday :: "int \<Rightarrow> int \<Rightarrow> int \<Rightarrow> int" where
  "weekday d m y = (year_start (nat (y - 1)) + (\<Sum>k \<leftarrow> [1..m - 1]. month_length k y) + d) mod 7"

lemma year_start_closed:
  "year_start k = 365 * int k + int (k div 4) - int (k div 100) + int (k div 400)"
proof (induction k)
  case (Suc k)
  let ?d = "\<lambda>n. n dvd Suc k"
  have l: "leap (int (Suc k)) \<longleftrightarrow> ?d 4 \<and> \<not> ?d 100 \<or> ?d 400"
    using int_dvd_int_iff [of 4 "Suc k"] int_dvd_int_iff [of 100 "Suc k"] int_dvd_int_iff [of 400 "Suc k"]
    by (simp only: leap_def of_nat_numeral)
  have s: "int (Suc k div n) = int (k div n) + (if ?d n then 1 else 0)" for n
    by (simp add: div_Suc dvd_eq_mod_eq_0)
  have d: "?d 400 \<Longrightarrow> ?d 100" "?d 100 \<Longrightarrow> ?d 4"
    using dvd_trans [of 100 400 "Suc k"] dvd_trans [of 4 100 "Suc k"] by simp_all
  show ?case unfolding year_start.simps Suc l s using d by (auto simp del: dvd_imp_mod_0)
qed simp

lemma is_leap_year_leap:
  assumes "0 \<le> y"
  shows "is_leap_year y \<longleftrightarrow> leap y"
proof -
  have d: "400 dvd y \<Longrightarrow> 100 dvd y" "100 dvd y \<Longrightarrow> 4 dvd y"
    using dvd_trans [of 100 400 y] dvd_trans [of 4 100 y] by simp_all
  have "y smod n = 0 \<longleftrightarrow> n dvd y" if "0 < n" for n
    using assms that by (simp add: smod_mod_positive dvd_eq_mod_eq_0)
  then show ?thesis unfolding is_leap_year_def leap_def using d by auto
qed

lemma sdiv_nat: "int n sdiv int k = int (n div k)"
  by (cases "n = 0"; cases "k = 0") (simp_all add: signed_divide_int_def zdiv_int)

text \<open>The sum that \<open>dayofweek\<close> takes over the years.\<close>

lemma year_sum:
  "int n + int n sdiv 4 - int n sdiv 100 + int n sdiv 400 = year_start n - 364 * int n"
  using sdiv_nat [of n 4] sdiv_nat [of n 100] sdiv_nat [of n 400] by (simp add: year_start_closed)

lemma year_start_bound: "0 \<le> year_start n" "year_start n \<le> 366 * int n"
  by (induction n) simp_all

lemma month_cases:
  "1 \<le> m \<Longrightarrow> m \<le> 12 \<Longrightarrow> m \<in> {1, 2, 3, 4, 5, 6, 7, 8, 9, 10, 11, 12}" for m :: int
  unfolding insert_iff empty_iff by presburger

text \<open>The table of \<open>dayofweek\<close> holds the days of the months before, up to whole weeks; from March on the leap day is in the
  sum over the years.\<close>

lemma month_shift_sum:
  assumes "1 \<le> m" "m \<le> 12"
  shows "\<exists>w. (\<Sum>k \<leftarrow> [1..m - 1]. month_length k y) =
    month_shift ! nat (m - 1) + (if m < 3 then 0 else if leap y then 2 else 1) + 7 * w"
  using month_cases [OF assms]
  by (elim insertE emptyE; cases "leap y"; simp add: month_length_def month_shift_def upto_rec1; presburger?)

lemma month_shift_bound: "1 \<le> m \<Longrightarrow> m \<le> 12 \<Longrightarrow> 0 \<le> month_shift ! nat (m - 1) \<and> month_shift ! nat (m - 1) \<le> 6"
  by (drule (1) month_cases) (auto simp: month_shift_def)

lemma dayofweek_weekday:
  assumes "1 \<le> m" "m \<le> 12" "1 \<le> y" "y \<le> 1000000000" "0 \<le> d" "d \<le> 31"
  shows "dayofweek d m y = weekday d m y"
proof -
  define n where "n = (if m < 3 then nat (y - 1) else nat y)"
  define x where "x = year_start n - 364 * int n + month_shift ! nat (m - 1) + d"
  have n: "(if m < 3 then wrap32 (y - 1) else y) = int n" "int n \<le> 1000000000"
    using assms by (auto simp: n_def wrap32_id)
  have x: "0 \<le> x" "x < 2147483648"
    using year_start_closed [of n] year_start_bound [of n] month_shift_bound [OF assms(1,2)] n(2) assms unfolding x_def by linarith+
  have "dayofweek d m y = x mod 7"
    unfolding dayofweek_def Let_def n(1) year_sum using x by (simp add: x_def [symmetric] wrap32_id smod_mod_positive)
  moreover obtain w where w: "(\<Sum>k \<leftarrow> [1..m - 1]. month_length k y) =
      month_shift ! nat (m - 1) + (if m < 3 then 0 else if leap y then 2 else 1) + 7 * w"
    using month_shift_sum [OF assms(1,2)] by blast
  moreover have "year_start n = year_start (nat (y - 1)) + (if m < 3 then 0 else if leap y then 366 else 365)"
  proof (cases "m < 3")
    case False
    have "nat y = Suc (nat (y - 1))" "int (Suc (nat (y - 1))) = y" using assms(3) by auto
    then show ?thesis using False by (simp add: n_def del: of_nat_Suc)
  qed (simp add: n_def)
  ultimately show ?thesis
    unfolding weekday_def w x_def by (auto simp: mod_eq_dvd_iff)
qed

lemma days_in_month_length: "1 \<le> m \<Longrightarrow> m \<le> 12 \<Longrightarrow> 1 \<le> y \<Longrightarrow> days_in_month m y = month_length m y"
  by (drule (1) month_cases)
     (elim insertE emptyE; simp add: days_in_month_def month_length_def Let_def is_leap_year_leap)

lemma month_length_bound: "28 \<le> month_length m y" "month_length m y \<le> 31"
  by (simp_all add: month_length_def)

text \<open>The line ends after the days that are Saturdays.\<close>

lemma line_end:
  assumes "1 \<le> m" "m \<le> 12" "1 \<le> y" "y \<le> 1000000000" "1 \<le> day"
  shows "(day + dayofweek 1 m y) smod 7 = 0 \<longleftrightarrow> weekday day m y = 6"
proof -
  have "0 \<le> weekday 1 m y" by (simp add: weekday_def)
  then have "(day + dayofweek 1 m y) smod 7 = (day + weekday 1 m y) mod 7"
    using assms by (simp add: dayofweek_weekday smod_mod_positive)
  also have "\<dots> = (year_start (nat (y - 1)) + (\<Sum>k \<leftarrow> [1..m - 1]. month_length k y) + day + 1) mod 7"
    unfolding weekday_def mod_add_right_eq by (simp only: ac_simps)
  moreover have "(z + 1) mod 7 = 0 \<longleftrightarrow> z mod 7 = 6" for z :: int by presburger
  ultimately show ?thesis unfolding weekday_def by simp
qed

subsection \<open>Left to right\<close>

fun calc_eval :: "uint \<Rightarrow> (char \<times> nat) list \<Rightarrow> calc_result" where
  "calc_eval r [] = Value r"
| "calc_eval r ((op, n) # ops) = (case calc_apply op r (of_nat n) of Value r' \<Rightarrow> calc_eval r' ops | bad \<Rightarrow> bad)"

abbreviation digits :: "nat \<Rightarrow> string" where
  "digits n \<equiv> rev (digit_loop ''0123456789ABCDEF'' 10 n)"

definition calc_text :: "(char \<times> nat) list \<Rightarrow> string" where
  "calc_text ops = concat (map (\<lambda>(op, n). op # digits n) ops)"

abbreviation (input) ops_ok :: "(char \<times> nat) list \<Rightarrow> bool" where
  "ops_ok ops \<equiv> fst ` set ops \<subseteq> {CHR ''+'', CHR ''-'', CHR ''*'', CHR ''/''}"

lemma symbol_digit [simp]:
  "\<not> is_digit (CHR ''+'')" "\<not> is_digit (CHR ''-'')" "\<not> is_digit (CHR ''*'')" "\<not> is_digit (CHR ''/'')"
  "\<not> is_digit (CHR '' '')" "\<not> is_digit (CHR 0x09)"
  by code_simp+

lemma calc_number_digits:
  assumes "\<forall>c \<in> set s. is_digit c" "rest = [] \<or> \<not> is_digit (hd rest)"
  shows "calc_number n (s @ rest) = (atoi_loop n s, rest)"
  using assms(1)
proof (induction s arbitrary: n)
  case Nil
  then show ?case using assms(2) by (cases rest) auto
next
  case (Cons c s)
  then show ?case by (simp add: is_digit_def diff_add_eq add_diff_eq)
qed

lemma calc_loop_number:
  assumes "rest = [] \<or> \<not> is_digit (hd rest)"
  shows "calc_loop r op (digits n @ rest) =
    (case calc_apply op r (of_nat n) of Value r' \<Rightarrow> calc_loop r' op rest | bad \<Rightarrow> bad)"
proof -
  have d: "\<forall>c \<in> set (digits n). is_digit c" "atoi_loop 0 (digits n) = of_nat n"
    using atoi_digits [of n] by (simp_all add: atoi_def)
  moreover obtain c s where c: "digits n = c # s"
    by (cases "digits n") (auto simp: digit_loop.simps [of _ _ n])
  ultimately have "is_digit c" by auto
  then have "c \<noteq> CHR '' ''" "c \<noteq> CHR 0x09" by auto
  moreover have "calc_number 0 (c # s @ rest) = (of_nat n, rest)"
    using calc_number_digits [OF d(1) assms, of 0] d(2) c by simp
  ultimately show ?thesis using \<open>is_digit c\<close> unfolding c append_Cons calc_loop.simps(2) by simp
qed

lemma calc_text_head: "ops_ok ops \<Longrightarrow> calc_text ops = [] \<or> \<not> is_digit (hd (calc_text ops))"
  by (cases ops) (auto simp: calc_text_def)

lemma calc_loop_ops:
  "ops_ok ops \<Longrightarrow> calc_loop r op (calc_text ops) = calc_eval r ops"
proof (induction ops arbitrary: r op)
  case Nil
  then show ?case by (simp add: calc_text_def calc_loop.simps)
next
  case (Cons x ops)
  obtain o' n where x: "x = (o', n)" by fastforce
  have o: "o' = CHR ''+'' \<or> o' = CHR ''-'' \<or> o' = CHR ''*'' \<or> o' = CHR ''/''" "ops_ok ops" using Cons.prems x by auto
  have "calc_loop r op (calc_text (x # ops)) = calc_loop r op (o' # digits n @ calc_text ops)"
    by (simp add: x calc_text_def)
  also have "\<dots> = calc_loop r o' (digits n @ calc_text ops)"
    using o(1) by (auto simp: calc_loop.simps(2))
  finally show ?case
    using calc_loop_number [OF calc_text_head [OF o(2)], of r o' n] Cons.IH [OF o(2)]
    by (simp add: x split: calc_result.split)
qed

subsection \<open>Properties\<close>

text \<open>C40. \<open>wc\<close> prints the number of line ends, of words (the longest runs without white space) and of characters of the whole
  input, at 32 bits, however \<open>read\<close> cuts the input into pieces.\<close>

theorem wc_counts:
  assumes "[] \<notin> set pieces"
  shows "wc pieces False name = printf (''%d %d %d %s'' @ [NL])
    [Num (of_nat (count_list (concat pieces) NL)), Num (of_nat (length (wc_words (concat pieces)))),
     Num (of_nat (length (concat pieces))), Str (Some name)]"
  using wc_fold [of "concat pieces" "\<lparr>wc_l = 0, wc_w = 0, wc_c = 0, inword = False\<rparr>"]
  by (auto simp: wc_def Let_def wc_read_concat [OF assms])

theorem wc_counts_witness:
  "wc [''one tw'', ''o'' @ [NL]] False ''f'' = printf (''%d %d %d %s'' @ [NL])
    [Num (of_nat (count_list (concat [''one tw'', ''o'' @ [NL]]) NL)),
     Num (of_nat (length (wc_words (concat [''one tw'', ''o'' @ [NL]])))),
     Num (of_nat (length (concat [''one tw'', ''o'' @ [NL]]))), Str (Some ''f'')]"
  by (rule wc_counts) simp

text \<open>C36. For a month from 1 to 12 and a year up to a thousand million, \<open>cal\<close> prints the days that the month has in the Gregorian
  calendar, indented by the day of the week of the first, with a line end after every Saturday, where days of the week
  are those that counting all days since the first day of year 1 gives.\<close>

theorem cal_month:
  assumes "length argv = 3" "sint (atoi (argv ! 1)) = m" "sint (atoi (argv ! 2)) = y"
    and "1 \<le> m" "m \<le> 12" "1 \<le> y" "y \<le> 1000000000"
  shows "cal argv =
    out (''    %s %d'' @ [NL]) [Str (Some (cal_months ! nat (m - 1))), Num (of_int y)] @
    out ('' Su Mo Tu We Th Fr Sa'' @ [NL]) [] @
    concat (replicate (nat (weekday 1 m y)) ''   '') @
    concat (map (\<lambda>day. (if day < 10 then out ''  %d'' [Num (of_int day)] else out '' %d'' [Num (of_int day)]) @
        (if weekday day m y = 6 then [NL] else [])) [1..month_length m y]) @
    [NL, NL]"
proof -
  have d: "cal_day (dayofweek 1 m y) day =
      (if day < 10 then out ''  %d'' [Num (of_int day)] else out '' %d'' [Num (of_int day)]) @
      (if weekday day m y = 6 then [NL] else [])" if "1 \<le> day" for day
    unfolding cal_day_def line_end [OF assms(4-7) that] ..
  have o: "out ''   '' [] = ''   ''" "out [NL, NL] [] = [NL, NL]" by (simp_all add: out_def printf_def)
  have "map (cal_day (dayofweek 1 m y)) [1..month_length m y] =
      map (\<lambda>day. (if day < 10 then out ''  %d'' [Num (of_int day)] else out '' %d'' [Num (of_int day)]) @
        (if weekday day m y = 6 then [NL] else [])) [1..month_length m y]"
    by (rule map_cong) (simp_all add: d)
  moreover have "\<not> length argv < 3" "\<not> (m < 1 \<or> 12 < m \<or> y < 1)" using assms by simp_all
  moreover have "weekday 1 m y = dayofweek 1 m y" using assms by (simp add: dayofweek_weekday)
  ultimately show ?thesis
    unfolding cal_def Let_def assms(2,3) days_in_month_length [OF assms(4-6)] by (simp only: if_False o)
qed

theorem cal_month_witness:
  "cal [''cal'', ''2'', ''2024''] =
    out (''    %s %d'' @ [NL]) [Str (Some (cal_months ! nat (2 - 1))), Num (of_int 2024)] @
    out ('' Su Mo Tu We Th Fr Sa'' @ [NL]) [] @
    concat (replicate (nat (weekday 1 2 2024)) ''   '') @
    concat (map (\<lambda>day. (if day < 10 then out ''  %d'' [Num (of_int day)] else out '' %d'' [Num (of_int day)]) @
        (if weekday day 2 2024 = 6 then [NL] else [])) [1..month_length 2 2024]) @
    [NL, NL]"
proof (rule cal_month)
  show "sint (atoi ([''cal'', ''2'', ''2024''] ! 1)) = 2" "sint (atoi ([''cal'', ''2'', ''2024''] ! 2)) = 2024"
    by code_simp+
qed simp_all

text \<open>\<open>calc\<close> applies the operators of an expression strictly from the left to the right, whatever their usual precedence, and
  stops at a division by zero.\<close>

lemma calc_left_to_right:
  assumes "fst ` set ops \<subseteq> {CHR ''+'', CHR ''-'', CHR ''*'', CHR ''/''}"
  shows "calc [name, digits n @ calc_text ops] = calc_eval (of_nat n) ops"
proof -
  show ?thesis
    using calc_loop_number [OF calc_text_head [OF assms], of 0 "CHR ''+''" n] calc_loop_ops [OF assms]
    by (simp add: calc_def calculate_def calc_apply_def)
qed

end
