(* ===== verification/Dcc.thy ===== *)
theory Dcc
  imports Ulib Exec
begin

text \<open>
  The compiler \<open>dcc.c\<close>. Its global variables are the fields of \<open>dcc\<close>; \<open>src_ptr\<close> is the part of the source that is
  still to be read and \<open>code_buf\<close> the bytes emitted so far. The exits with a message are errors; a write past the
  end of one of the fixed buffers, which is undefined in C, is the error \<open>Overrun\<close>. The main loop need not end, so
  it is a partial function.

  Shown: a program of calls is compiled to the machine code of its calls in their order, whatever the calls; the
  kernel's loader accepts the header of every executable and its only segment is the whole file; a statement that
  does not start with a name makes the compiler run forever.
\<close>

datatype token = TOKEN_EOF | TOKEN_INT | TOKEN_NAME | TOKEN_NUM | TOKEN_STRING | TOKEN_LBRACE | TOKEN_RBRACE
  | TOKEN_LPAREN | TOKEN_RPAREN | TOKEN_SEMICOLON | TOKEN_COMMA

datatype dcc_error = LexerError | SyntaxError | MainMissing | Overrun

record dcc =
  src_ptr :: string
  current_token :: token
  token_string :: string
  token_value :: uint
  code_buf :: "byte list"

type_synonym dcc_step = "dcc \<Rightarrow> dcc_error + dcc"

definition andthen :: "dcc_step \<Rightarrow> dcc_step \<Rightarrow> dcc_step" where
  "andthen f g s = (case f s of Inl e \<Rightarrow> Inl e | Inr t \<Rightarrow> g t)"

subsection \<open>Emitting code\<close>

definition emit :: "byte \<Rightarrow> dcc_step" where
  "emit b s = (if 512 \<le> length (code_buf s) then Inl Overrun else Inr (s\<lparr>code_buf := code_buf s @ [b]\<rparr>))"

definition emit_int :: "uint \<Rightarrow> dcc_step" where
  "emit_int i =
     andthen (emit (ucast (i AND 0xFF))) (
     andthen (emit (ucast (drop_bit 8 i AND 0xFF))) (
     andthen (emit (ucast (drop_bit 16 i AND 0xFF)))
       (emit (ucast (drop_bit 24 i AND 0xFF)))))"

subsection \<open>The lexer\<close>

definition is_alpha :: "char \<Rightarrow> bool" where
  "is_alpha c \<longleftrightarrow> 97 \<le> (of_char c :: nat) \<and> of_char c \<le> (122 :: nat) \<or> 65 \<le> (of_char c :: nat) \<and> of_char c \<le> (90 :: nat)"

definition is_blank :: "char \<Rightarrow> bool" where
  "is_blank c \<longleftrightarrow> c = CHR '' '' \<or> c = CHR 0x09 \<or> c = NL \<or> c = CR"

text \<open>The characters of a string literal and the source from its closing quote on.\<close>

fun lex_string :: "string \<Rightarrow> string \<times> string" where
  "lex_string [] = ([], [])"
| "lex_string (c # s) =
     (if c = CHR 0x22 \<or> c = NUL then ([], c # s)
      else if c = CHR 0x5C \<and> ch0 s = CHR ''n'' then (let (t, r) = lex_string (tl s) in (NL # t, r))
      else (let (t, r) = lex_string s in (c # t, r)))"

fun lex_number :: "uint \<Rightarrow> string \<Rightarrow> uint \<times> string" where
  "lex_number v [] = (v, [])"
| "lex_number v (c # s) = (if is_digit c then lex_number (v * 10 + (of_nat (of_char c) - 48)) s else (v, c # s))"

definition set_string :: "string \<Rightarrow> dcc_step" where
  "set_string t s = (if 128 \<le> length t then Inl Overrun else Inr (s\<lparr>token_string := t\<rparr>))"

definition punctuation :: "char \<Rightarrow> token option" where
  "punctuation c =
     (if c = CHR ''{'' then Some TOKEN_LBRACE else if c = CHR ''}'' then Some TOKEN_RBRACE
      else if c = CHR ''('' then Some TOKEN_LPAREN else if c = CHR '')'' then Some TOKEN_RPAREN
      else if c = CHR '';'' then Some TOKEN_SEMICOLON else if c = CHR '','' then Some TOKEN_COMMA else None)"

definition next_token :: "dcc_step" where
  "next_token s =
     (let src = dropWhile is_blank (src_ptr s); s = s\<lparr>src_ptr := src\<rparr>; c = ch0 src in
      if c = NUL then Inr (s\<lparr>current_token := TOKEN_EOF\<rparr>)
      else (case punctuation c of Some tok \<Rightarrow> Inr (s\<lparr>current_token := tok, src_ptr := tl src\<rparr>)
      | None \<Rightarrow>
        if c = CHR 0x22 then
          let (t, r) = lex_string (tl src); r = (if ch0 r = CHR 0x22 then tl r else r) in
          map_sum id (\<lambda>s. s\<lparr>current_token := TOKEN_STRING\<rparr>) (set_string t (s\<lparr>src_ptr := r\<rparr>))
        else if is_alpha c then
          let t = takeWhile (\<lambda>c. is_alpha c \<or> is_digit c) src in
          map_sum id (\<lambda>s. s\<lparr>current_token := (if strcmp t ''int'' = 0 then TOKEN_INT else TOKEN_NAME)\<rparr>)
            (set_string t (s\<lparr>src_ptr := dropWhile (\<lambda>c. is_alpha c \<or> is_digit c) src\<rparr>))
        else if is_digit c then
          let (v, r) = lex_number 0 src in Inr (s\<lparr>src_ptr := r, token_value := v, current_token := TOKEN_NUM\<rparr>)
        else Inl LexerError))"

definition match_token :: "token \<Rightarrow> dcc_step" where
  "match_token expected s = (if current_token s = expected then next_token s else Inl SyntaxError)"

subsection \<open>The compiler\<close>

definition compile_reboot :: "dcc_step" where
  "compile_reboot s =
     (let arg = token_value s in
      andthen next_token (
      andthen (emit 0x6A) (
      andthen (emit (ucast arg)) (
      andthen (emit 0xB8) (
      andthen (emit_int 23) (
      andthen (emit 0xCD)
        (emit 0x40)))))) s)"

definition compile_exit :: "dcc_step" where
  "compile_exit = andthen (emit 0xB8) (andthen (emit_int 2) (andthen (emit 0xCD) (emit 0x40)))"

definition compile_call :: "string \<Rightarrow> dcc_step" where
  "compile_call name =
     (if strcmp name ''reboot'' = 0 then compile_reboot
      else if strcmp name ''exit'' = 0 then compile_exit
      else Inr)"

definition compile_statement :: "dcc_step" where
  "compile_statement s =
     (if current_token s = TOKEN_NAME then
        let name = token_string s in
        if 64 \<le> length name then Inl Overrun
        else andthen next_token (
          andthen (match_token TOKEN_LPAREN) (
          andthen (compile_call name) (
          andthen (match_token TOKEN_RPAREN)
            (match_token TOKEN_SEMICOLON)))) s
      else Inr s)"

partial_function (option) compile_body :: "dcc \<Rightarrow> (dcc_error + dcc) option" where
  "compile_body s =
     (if current_token s \<noteq> TOKEN_RBRACE \<and> current_token s \<noteq> TOKEN_EOF then
        (case compile_statement s of Inl e \<Rightarrow> Some (Inl e) | Inr t \<Rightarrow> compile_body t)
      else Some (Inr s))"

declare compile_body.simps [code]

definition elf_template :: "byte list" where
  "elf_template =
     [0x7F, 0x45, 0x4C, 0x46, 1, 1, 1, 0, 0, 0, 0, 0, 0, 0, 0, 0, 2, 0, 3, 0, 1, 0, 0, 0,
      0x54, 0, 0, 0, 52, 0, 0, 0, 0, 0, 0, 0, 0, 0, 0, 0, 52, 0, 32, 0, 1, 0, 0, 0, 0, 0, 0, 0,
      1, 0, 0, 0, 0, 0, 0, 0, 0, 0, 0, 0, 0, 0, 0, 0, 84, 0, 0, 0, 84, 0, 0, 0, 7, 0, 0, 0, 0, 0, 0, 0]"

definition write_elf_header :: "nat \<Rightarrow> byte list" where
  "write_elf_header code_size =
     (let total_size = 84 + of_nat code_size :: uint; lo = ucast (total_size AND 0xFF); hi = ucast (drop_bit 8 total_size AND 0xFF)
      in elf_template[68 := lo, 69 := hi, 72 := lo, 73 := hi])"

definition check_main :: "dcc_step" where
  "check_main s = (if strcmp (token_string s) ''main'' \<noteq> 0 then Inl MainMissing else Inr s)"

definition dcc_start :: "string \<Rightarrow> dcc_error + dcc" where
  "dcc_start text =
     andthen next_token (
     andthen (match_token TOKEN_INT) (
     andthen check_main (
     andthen next_token (
     andthen (match_token TOKEN_LPAREN) (
     andthen (match_token TOKEN_RPAREN)
       (match_token TOKEN_LBRACE))))))
     \<lparr>src_ptr = take 2047 text, current_token = TOKEN_EOF, token_string = [], token_value = 0, code_buf = []\<rparr>"

definition dcc_finish :: "dcc \<Rightarrow> dcc_error + byte list" where
  "dcc_finish s =
     (case andthen (match_token TOKEN_RBRACE) compile_exit s of Inl e \<Rightarrow> Inl e
      | Inr t \<Rightarrow> Inr (write_elf_header (length (code_buf t)) @ code_buf t))"

text \<open>The bytes of the executable that the source compiles to.\<close>

definition dcc :: "string \<Rightarrow> (dcc_error + byte list) option" where
  "dcc text =
     (case dcc_start text of Inl e \<Rightarrow> Some (Inl e)
      | Inr s \<Rightarrow> map_option (\<lambda>r. case r of Inl e \<Rightarrow> Inl e | Inr t \<Rightarrow> dcc_finish t) (compile_body s))"

subsection \<open>Programs of calls\<close>

datatype stmt = Reboot nat | Exit | Other string

fun stmt_text :: "stmt \<Rightarrow> string" where
  "stmt_text (Reboot n) = ''reboot('' @ rev (digit_loop ''0123456789ABCDEF'' 10 n) @ '');''"
| "stmt_text Exit = ''exit();''"
| "stmt_text (Other f) = f @ ''();''"

definition exit_code :: "byte list" where
  "exit_code = [0xB8, 2, 0, 0, 0, 0xCD, 0x40]"

fun stmt_code :: "stmt \<Rightarrow> byte list" where
  "stmt_code (Reboot n) = [0x6A, of_nat n, 0xB8, 23, 0, 0, 0, 0xCD, 0x40]"
| "stmt_code Exit = exit_code"
| "stmt_code (Other f) = []"

definition is_name :: "string \<Rightarrow> bool" where
  "is_name f \<longleftrightarrow> f \<noteq> [] \<and> is_alpha (hd f) \<and> (\<forall>c \<in> set f. is_alpha c \<or> is_digit c) \<and> length f < 64 \<and> f \<noteq> ''int''"

fun stmt_ok :: "stmt \<Rightarrow> bool" where
  "stmt_ok (Other f) \<longleftrightarrow> is_name f \<and> f \<noteq> ''reboot'' \<and> f \<noteq> ''exit''"
| "stmt_ok _ \<longleftrightarrow> True"

definition prog_text :: "stmt list \<Rightarrow> string" where
  "prog_text p = ''int main(){'' @ concat (map stmt_text p) @ ''}''"

definition prog_code :: "stmt list \<Rightarrow> byte list" where
  "prog_code p = concat (map stmt_code p) @ exit_code"

subsection \<open>The lexer on texts of programs\<close>

abbreviation (input) st :: "string \<Rightarrow> token \<Rightarrow> string \<Rightarrow> uint \<Rightarrow> byte list \<Rightarrow> dcc" where
  "st r k t v b \<equiv> \<lparr>src_ptr = r, current_token = k, token_string = t, token_value = v, code_buf = b\<rparr>"

lemma andthen_Inr [simp]: "f s = Inr u \<Longrightarrow> andthen f g s = g u"
  by (simp add: andthen_def)

lemma punctuation_chars [simp]:
  "punctuation (CHR ''{'') = Some TOKEN_LBRACE" "punctuation (CHR ''}'') = Some TOKEN_RBRACE"
  "punctuation (CHR ''('') = Some TOKEN_LPAREN" "punctuation (CHR '')'') = Some TOKEN_RPAREN"
  "punctuation (CHR '';'') = Some TOKEN_SEMICOLON"
  by (simp_all add: punctuation_def)

lemma punctuation_Some:
  "punctuation c = Some tok \<Longrightarrow> c \<in> {CHR ''{'', CHR ''}'', CHR ''('', CHR '')'', CHR '';'', CHR '',''}"
  by (auto simp: punctuation_def split: if_splits)

lemma symbol_class [simp]:
  "\<not> is_alpha (CHR ''('')" "\<not> is_digit (CHR ''('')" "\<not> is_alpha (CHR '' '')" "\<not> is_digit (CHR '' '')"
  "\<not> is_digit (CHR '')'')"
  by code_simp+

lemma next_punctuation:
  assumes "punctuation c = Some tok"
  shows "next_token (st (c # r) k t v b) = Inr (st r tok t v b)"
  using assms punctuation_Some [OF assms] by (auto simp: next_token_def is_blank_def Let_def)

lemma alpha_other:
  assumes "is_alpha c"
  shows "\<not> is_blank c" "c \<noteq> NUL" "punctuation c = None" "c \<noteq> CHR 0x22"
proof -
  have n: "\<not> is_alpha x" if "x \<in> {CHR '' '', CHR 0x09, NL, CR, NUL, CHR 0x22, CHR ''{'', CHR ''}'', CHR ''('', CHR '')'', CHR '';'', CHR '',''}" for x
    using that by (elim insertE emptyE; simp only:; code_simp)
  show "\<not> is_blank c" "c \<noteq> NUL" "c \<noteq> CHR 0x22" using assms n [of c] by (auto simp: is_blank_def)
  show "punctuation c = None" using assms n [of c] punctuation_Some [of c] by (cases "punctuation c") auto
qed

lemma NUL_class: "\<not> is_alpha NUL" "\<not> is_digit NUL"
  by code_simp+

lemma name_split:
  assumes "\<forall>c \<in> set f. is_alpha c \<or> is_digit c" "\<not> is_alpha (ch0 r)" "\<not> is_digit (ch0 r)"
  shows "takeWhile (\<lambda>c. is_alpha c \<or> is_digit c) (f @ r) = f" "dropWhile (\<lambda>c. is_alpha c \<or> is_digit c) (f @ r) = r"
  using assms by (cases r; simp add: takeWhile_append2 dropWhile_append2)+

lemma next_name:
  assumes "f \<noteq> []" "is_alpha (hd f)" "\<forall>c \<in> set f. is_alpha c \<or> is_digit c" "length f < 128"
    and "\<not> is_alpha (ch0 r)" "\<not> is_digit (ch0 r)"
  shows "next_token (st (f @ r) k t v b) = Inr (st r (if f = ''int'' then TOKEN_INT else TOKEN_NAME) f v b)"
proof -
  obtain c g where f: "f = c # g" using assms(1) by (cases f) auto
  note c = alpha_other [of c]
  have "NUL \<notin> set f" using assms(3) NUL_class by auto
  then have "strcmp f ''int'' = 0 \<longleftrightarrow> f = ''int''" by (simp add: strcmp_string)
  moreover have "dropWhile is_blank (f @ r) = f @ r" "ch0 (f @ r) = c" using assms(2) c f by simp_all
  ultimately show ?thesis
    using assms(2,4) c f name_split [OF assms(3,5,6)]
    by (simp add: next_token_def Let_def set_string_def del: append_Cons)
qed

lemma digit_other:
  assumes "is_digit c"
  shows "\<not> is_blank c" "c \<noteq> NUL" "punctuation c = None" "c \<noteq> CHR 0x22" "\<not> is_alpha c"
proof -
  have n: "\<not> is_digit x" if "x \<in> {CHR '' '', CHR 0x09, NL, CR, NUL, CHR 0x22, CHR ''{'', CHR ''}'', CHR ''('', CHR '')'', CHR '';'', CHR '',''}" for x
    using that by (elim insertE emptyE; simp only:; code_simp)
  show "\<not> is_blank c" "c \<noteq> NUL" "c \<noteq> CHR 0x22" using assms n [of c] by (auto simp: is_blank_def)
  show "punctuation c = None" using assms n [of c] punctuation_Some [of c] by (cases "punctuation c") auto
  show "\<not> is_alpha c" using assms by (simp add: is_alpha_def is_digit_def)
qed

lemma lex_number_digits:
  assumes "\<forall>c \<in> set s. is_digit c" "r = [] \<or> \<not> is_digit (hd r)"
  shows "lex_number v (s @ r) = (atoi_loop v s, r)"
  using assms(1)
proof (induction s arbitrary: v)
  case Nil
  then show ?case using assms(2) by (cases r) auto
next
  case (Cons c s)
  then show ?case by (simp add: is_digit_def diff_add_eq add_diff_eq)
qed

lemma next_number:
  assumes "r = [] \<or> \<not> is_digit (hd r)"
  shows "next_token (st (rev (digit_loop ''0123456789ABCDEF'' 10 n) @ r) k t v b) = Inr (st r TOKEN_NUM t (of_nat n) b)"
proof -
  define s where "s = rev (digit_loop ''0123456789ABCDEF'' 10 n)"
  have d: "\<forall>c \<in> set s. is_digit c" "atoi_loop 0 s = of_nat n"
    using atoi_digits [of n] by (simp_all add: atoi_def s_def)
  obtain c g where s: "s = c # g"
    by (cases s) (auto simp: digit_loop.simps [of _ _ n] s_def)
  then have "is_digit c" using d by simp
  note c = this digit_other [OF this]
  have "dropWhile is_blank (s @ r) = s @ r" "ch0 (s @ r) = c" using c s by simp_all
  then show ?thesis
    unfolding s_def [symmetric] using c lex_number_digits [OF d(1) assms, of 0] d(2)
    by (simp add: next_token_def Let_def)
qed

lemma next_blank: "is_blank c \<Longrightarrow> next_token (st (c # r) k t v b) = next_token (st r k t v b)"
  by (simp add: next_token_def Let_def)

subsection \<open>The code of a call\<close>

lemma emit_st: "length b < 512 \<Longrightarrow> emit x (st r k t v b) = Inr (st r k t v (b @ [x]))"
  by (simp add: emit_def)

lemma emit_int_st:
  assumes "length b + 4 \<le> 512"
  shows "emit_int i (st r k t v b) = Inr (st r k t v (b @ [ucast (i AND 0xFF), ucast (drop_bit 8 i AND 0xFF),
    ucast (drop_bit 16 i AND 0xFF), ucast (drop_bit 24 i AND 0xFF)]))"
  using assms by (simp add: emit_int_def emit_st)

lemma compile_exit_st:
  assumes "length b + 7 \<le> 512"
  shows "compile_exit (st r k t v b) = Inr (st r k t v (b @ exit_code))"
  using assms by (simp add: compile_exit_def emit_st emit_int_st exit_code_def)

lemma compile_reboot_st:
  assumes "length b + 9 \<le> 512" "next_token (st r k t v b) = Inr (st r' k' t' v' b)"
  shows "compile_reboot (st r k t v b) = Inr (st r' k' t' v' (b @ [0x6A, ucast v, 0xB8, 23, 0, 0, 0, 0xCD, 0x40]))"
  using assms by (simp add: compile_reboot_def Let_def emit_st emit_int_st)

abbreviation (input) digits :: "nat \<Rightarrow> string" where
  "digits n \<equiv> rev (digit_loop ''0123456789ABCDEF'' 10 n)"

lemma ucast_byte: "(ucast (of_nat n :: uint) :: byte) = of_nat n"
  by transfer (simp add: take_bit_of_nat)

lemma match_token_st [simp]: "match_token k (st r k t v b) = next_token (st r k t v b)"
  by (simp add: match_token_def)

text \<open>A statement, from the state in which its name is the current token: what is left is to read the token behind it.\<close>

lemma compile_reboot_stmt:
  assumes "length b + 9 \<le> 512"
  shows "compile_statement (st (''('' @ digits n @ '');'' @ rest) TOKEN_NAME ''reboot'' v b) =
    next_token (st rest TOKEN_SEMICOLON ''reboot'' (of_nat n) (b @ stmt_code (Reboot n)))"
proof -
  have "next_token (st ('');'' @ rest) TOKEN_NUM ''reboot'' (of_nat n) b) = Inr (st ('';'' @ rest) TOKEN_RPAREN ''reboot'' (of_nat n) b)"
    by (simp add: next_punctuation)
  note r = compile_reboot_st [OF assms this]
  show ?thesis
    using r by (simp add: compile_statement_def Let_def next_punctuation next_number compile_call_def strcmp.simps ucast_byte)
qed

lemma compile_exit_stmt:
  assumes "length b + 7 \<le> 512"
  shows "compile_statement (st (''();'' @ rest) TOKEN_NAME ''exit'' v b) =
    next_token (st rest TOKEN_SEMICOLON ''exit'' v (b @ stmt_code Exit))"
  using assms
  by (simp add: compile_statement_def Let_def next_punctuation compile_call_def strcmp.simps compile_exit_st)

lemma compile_other_stmt:
  assumes "is_name f" "f \<noteq> ''reboot''" "f \<noteq> ''exit''"
  shows "compile_statement (st (''();'' @ rest) TOKEN_NAME f v b) = next_token (st rest TOKEN_SEMICOLON f v b)"
proof -
  have "NUL \<notin> set f" using assms(1) NUL_class by (auto simp: is_name_def)
  then have "strcmp f ''reboot'' \<noteq> 0" "strcmp f ''exit'' \<noteq> 0" using assms by (simp_all add: strcmp_string)
  then show ?thesis using assms(1)
    by (simp add: compile_statement_def Let_def next_punctuation compile_call_def is_name_def)
qed

lemma next_stmt_name:
  assumes "is_name f"
  shows "next_token (st (f @ CHR ''('' # r) k t v b) = Inr (st (CHR ''('' # r) TOKEN_NAME f v b)"
  using assms next_name [of f "CHR ''('' # r" k t v b] by (simp add: is_name_def)

lemma is_name_known: "is_name ''reboot''" "is_name ''exit''"
  by code_simp+

lemma stmt_st:
  assumes "stmt_ok x" "length b + length (stmt_code x) \<le> 512"
  shows "\<exists>s f v'. next_token (st (stmt_text x @ rest) k t v b) = Inr s \<and> current_token s = TOKEN_NAME \<and>
    compile_statement s = next_token (st rest TOKEN_SEMICOLON f v' (b @ stmt_code x))"
proof (cases x)
  case (Reboot n)
  then show ?thesis
    using assms next_stmt_name [OF is_name_known(1), of "digits n @ '');'' @ rest" k t v b] compile_reboot_stmt [of b n rest v] by auto
next
  case Exit
  then show ?thesis
    using assms next_stmt_name [OF is_name_known(2), of "'');'' @ rest" k t v b] compile_exit_stmt [of b rest v]
    by (auto simp: exit_code_def)
next
  case (Other f)
  then show ?thesis
    using assms next_stmt_name [of f "'');'' @ rest" k t v b] compile_other_stmt [of f rest v b] by auto
qed

lemma body_st:
  assumes "\<forall>x \<in> set p. stmt_ok x" "length b + length (concat (map stmt_code p)) \<le> 512"
  shows "\<exists>s t' v'. next_token (st (concat (map stmt_text p) @ ''}'') k t v b) = Inr s \<and>
    compile_body s = Some (Inr (st [] TOKEN_RBRACE t' v' (b @ concat (map stmt_code p))))"
  using assms
proof (induction p arbitrary: k t v b)
  case Nil
  then show ?case by (simp add: next_punctuation compile_body.simps)
next
  case (Cons x p)
  let ?rest = "concat (map stmt_text p) @ ''}''"
  obtain s f w where s: "next_token (st (stmt_text x @ ?rest) k t v b) = Inr s" "current_token s = TOKEN_NAME"
      "compile_statement s = next_token (st ?rest TOKEN_SEMICOLON f w (b @ stmt_code x))"
    using stmt_st [of x b ?rest k t v] Cons.prems by auto
  obtain u t' v' where "next_token (st ?rest TOKEN_SEMICOLON f w (b @ stmt_code x)) = Inr u"
      "compile_body u = Some (Inr (st [] TOKEN_RBRACE t' v' ((b @ stmt_code x) @ concat (map stmt_code p))))"
    using Cons.IH [of "b @ stmt_code x" TOKEN_SEMICOLON f w] Cons.prems by auto
  then have "compile_body s = Some (Inr (st [] TOKEN_RBRACE t' v' (b @ concat (map stmt_code (x # p)))))"
    using s by (simp add: compile_body.simps [of s])
  then show ?case using s(1) by auto
qed

lemma start_st:
  assumes "length (prog_text p) \<le> 2047"
  shows "dcc_start (prog_text p) = next_token (st (concat (map stmt_text p) @ ''}'') TOKEN_LBRACE ''main'' 0 [])"
proof -
  let ?r = "concat (map stmt_text p) @ ''}''"
  have i: "next_token (st (''int'' @ '' main(){'' @ ?r) k t v b) = Inr (st ('' main(){'' @ ?r) TOKEN_INT ''int'' v b)" for k t v b
    using next_name [of "''int''" "'' main(){'' @ ?r" k t v b] by code_simp
  have m: "next_token (st (''main'' @ ''(){'' @ ?r) k t v b) = Inr (st (''(){'' @ ?r) TOKEN_NAME ''main'' v b)" for k t v b
    using next_name [of "''main''" "''(){'' @ ?r" k t v b] by code_simp
  have "take 2047 (prog_text p) = ''int'' @ '' main(){'' @ ?r" using assms by (simp add: prog_text_def)
  moreover have "next_token (st ('' main(){'' @ ?r) k t v b) = next_token (st (''main'' @ ''(){'' @ ?r) k t v b)" for k t v b
    by (simp add: next_blank is_blank_def)
  moreover have "check_main (st r k ''main'' v b) = Inr (st r k ''main'' v b)" for r k v b
    by (simp add: check_main_def strcmp.simps)
  ultimately show ?thesis
    unfolding dcc_start_def by (simp add: i m next_punctuation del: append_Cons) (simp add: next_punctuation)
qed

lemma exit_code_length [simp]: "length exit_code = 7"
  by (simp add: exit_code_def)

subsection \<open>The executable\<close>

lemma emit_Inr: "emit x s = Inr u \<Longrightarrow> length (code_buf u) \<le> 512"
  by (auto simp: emit_def split: if_splits)

lemma andthen_eq: "andthen f g s = Inr u \<longleftrightarrow> (\<exists>r. f s = Inr r \<and> g r = Inr u)"
  by (auto simp: andthen_def split: sum.splits)

lemma dcc_executable:
  assumes "dcc text = Some (Inr bs)"
  obtains code where "bs = write_elf_header (length code) @ code" "length code \<le> 512"
proof -
  obtain s0 where s0: "dcc_start text = Inr s0" using assms by (cases "dcc_start text") (auto simp: dcc_def)
  then obtain r where "(case r of Inl e \<Rightarrow> Inl e | Inr t \<Rightarrow> dcc_finish t) = Inr bs"
    using assms by (auto simp: dcc_def)
  then obtain s where "dcc_finish s = Inr bs" by (cases r) auto
  then obtain u where u: "andthen (match_token TOKEN_RBRACE) compile_exit s = Inr u"
      "bs = write_elf_header (length (code_buf u)) @ code_buf u"
    by (auto simp: dcc_finish_def split: sum.splits)
  moreover from u(1) have "length (code_buf u) \<le> 512"
    by (auto simp: compile_exit_def andthen_eq dest: emit_Inr)
  ultimately show ?thesis using that by blast
qed

lemma elf_header_length: "length (write_elf_header n) = 84"
  by (simp add: write_elf_header_def Let_def elf_template_def)

lemma size_bytes:
  assumes "n \<le> 512"
  shows "unat (ucast ((84 + of_nat n :: uint) AND 0xFF) :: byte) + 256 * unat (ucast (drop_bit 8 (84 + of_nat n :: uint) AND 0xFF) :: byte) = 84 + n"
proof -
  define w :: uint where "w = 84 + of_nat n"
  have w: "unat w = 84 + n" using assms unat_of_nat32 [of "84 + n"] by (simp add: w_def)
  have m: "x AND 0xFF = take_bit 8 x" for x :: uint by (simp add: take_bit_eq_mask mask_eq_exp_minus_1)
  have "unat (ucast (take_bit 8 x) :: byte) = unat x mod 256" for x :: uint
    by (simp add: unsigned_ucast_eq unsigned_take_bit_eq take_bit_eq_mod unat_mod)
  moreover have "unat (drop_bit 8 w) mod 256 = unat w div 256"
    using w assms by (simp add: drop_bit_eq_div unat_div)
  ultimately have "unat (ucast (w AND 0xFF) :: byte) + 256 * unat (ucast (drop_bit 8 w AND 0xFF) :: byte) = unat w"
    unfolding m by simp
  then show ?thesis using w by (simp add: w_def)
qed

lemma elf_header_dec:
  assumes "n \<le> 512"
  shows "dec_elfhdr (write_elf_header n) = \<lparr>e_magic = ELF_MAGIC, e_entry = 84, e_phoff = 52, e_phnum = 1\<rparr>"
    and "dec_proghdr (slice (write_elf_header n) 52 32) = \<lparr>ph_type = 1, ph_off = 0, ph_vaddr = 0, ph_filesz = 84 + n, ph_memsz = 84 + n\<rparr>"
  using size_bytes [OF assms]
  by (simp_all add: dec_elfhdr_def dec_proghdr_def write_elf_header_def elf_template_def Let_def dec32_def dec16_def slice_def)

lemma dec_elfhdr_take: "dec_elfhdr (take 52 bs) = dec_elfhdr bs"
  by (simp add: dec_elfhdr_def dec32_def dec16_def)

subsection \<open>A loop without end\<close>

lemma compile_body_stuck:
  assumes "compile_body s = Some r" "current_token s \<notin> {TOKEN_NAME, TOKEN_RBRACE, TOKEN_EOF}"
  shows False
proof -
  have "current_token s \<in> {TOKEN_NAME, TOKEN_RBRACE, TOKEN_EOF}"
    by (rule compile_body.raw_induct [OF _ assms(1), where P = "\<lambda>s _. current_token s \<in> {TOKEN_NAME, TOKEN_RBRACE, TOKEN_EOF}"])
       (auto simp: compile_statement_def split: if_splits)
  with assms(2) show ?thesis by simp
qed

subsection \<open>Properties\<close>

text \<open>C34. The compiler returns for every program of calls that fits its buffers, and the executable is the header followed by
  the machine code of the calls in their order and of a final exit.\<close>

theorem dcc_compiles:
  assumes "\<forall>x \<in> set p. stmt_ok x" "length (prog_text p) \<le> 2047" "length (prog_code p) \<le> 512"
  shows "dcc (prog_text p) = Some (Inr (write_elf_header (length (prog_code p)) @ prog_code p))"
proof -
  obtain s t v where s: "dcc_start (prog_text p) = Inr s"
      "compile_body s = Some (Inr (st [] TOKEN_RBRACE t v (concat (map stmt_code p))))"
    using body_st [of p "[]" TOKEN_LBRACE "''main''" 0] assms by (auto simp: start_st prog_code_def)
  moreover have "next_token (st [] TOKEN_RBRACE t v b) = Inr (st [] TOKEN_EOF t v b)" for b
    by (simp add: next_token_def Let_def)
  ultimately show ?thesis
    using assms(3) by (simp add: dcc_def dcc_finish_def compile_exit_st prog_code_def)
qed

theorem dcc_compiles_witness:
  "dcc (prog_text [Other ''f'', Reboot 2, Exit]) =
    Some (Inr (write_elf_header (length (prog_code [Other ''f'', Reboot 2, Exit])) @ prog_code [Other ''f'', Reboot 2, Exit]))"
proof (rule dcc_compiles)
  show "\<forall>x \<in> set [Other ''f'', Reboot 2, Exit]. stmt_ok x" by code_simp
  show "length (prog_text [Other ''f'', Reboot 2, Exit]) \<le> 2047"
    by (simp add: prog_text_def digit_loop.simps)
  show "length (prog_code [Other ''f'', Reboot 2, Exit]) \<le> 512"
    by (simp add: prog_code_def)
qed

text \<open>C35. The kernel's program loader accepts the headers of every executable that the compiler writes: the magic number is right,
  the only program header is a segment to load at address 0 that is the whole file, and the entry point is the first byte
  behind the headers and inside the segment.\<close>

theorem dcc_loadable:
  assumes "dcc text = Some (Inr bs)"
  shows "dec_elfhdr (take 52 bs) = \<lparr>e_magic = ELF_MAGIC, e_entry = 84, e_phoff = 52, e_phnum = 1\<rparr> \<and>
    dec_proghdr (slice bs 52 32) = \<lparr>ph_type = 1, ph_off = 0, ph_vaddr = 0, ph_filesz = length bs, ph_memsz = length bs\<rparr> \<and>
    84 \<le> length bs"
proof -
  obtain code where c: "bs = write_elf_header (length code) @ code" "length code \<le> 512"
    by (rule dcc_executable [OF assms])
  have "slice bs 52 32 = slice (write_elf_header (length code)) 52 32"
    using c(1) elf_header_length [of "length code"] by (simp add: slice_def)
  then show ?thesis
    using c elf_header_dec [OF c(2)] elf_header_length [of "length code"] by (simp add: dec_elfhdr_take)
qed

theorem dcc_loadable_witness:
  "let bs = write_elf_header 7 @ exit_code in
    dec_elfhdr (take 52 bs) = \<lparr>e_magic = ELF_MAGIC, e_entry = 84, e_phoff = 52, e_phnum = 1\<rparr> \<and>
    dec_proghdr (slice bs 52 32) = \<lparr>ph_type = 1, ph_off = 0, ph_vaddr = 0, ph_filesz = length bs, ph_memsz = length bs\<rparr> \<and>
    84 \<le> length bs"
proof -
  have "dcc ''int main(){}'' = Some (Inr (write_elf_header 7 @ exit_code))" by code_simp
  then show ?thesis unfolding Let_def by (rule dcc_loadable)
qed

text \<open>The compiler never returns on a body whose first token is not a name, such as a declaration: the statement is neither
  skipped nor reported.\<close>

lemma dcc_forever:
  assumes "dcc_start text = Inr s" "current_token s \<notin> {TOKEN_NAME, TOKEN_RBRACE, TOKEN_EOF}"
  shows "dcc text = None"
  using assms compile_body_stuck [of s] by (cases "compile_body s") (auto simp: dcc_def)

end
