(* ===== verification/Parse.thy ===== *)
theory Parse
  imports Ulib "HOL-Library.Sublist"
begin

text \<open>
  The command parser of the shell (\<open>sh.c\<close>, from \<open>gettoken\<close> to \<open>nulterminate\<close>). A pointer into the command line is the
  part of the line from there to the terminating zero, so that \<open>es\<close> is the empty list and a pointer difference is a
  difference of lengths. A command that was parsed holds the pointers to the start and the end of its strings, as the
  structures of the source do, until \<open>nulterminate\<close> writes a zero at every end; a call of \<open>panic\<close> is a value of its own.
  The mutually recursive functions take fuel; \<open>parsecmd\<close> gives them four units for every character and four more, which is
  always enough.

  Shown: the parser returns for every line; every string of the command that it returns is a token of the line, untouched
  by the zeros written for the others; printing a command and parsing the text gives the command back.
\<close>

subsection \<open>Commands\<close>

type_synonym span = "string \<times> string"

datatype 's cmd =
    EXEC "'s list"
  | REDIR "'s cmd" 's nat nat
  | PIPE "'s cmd" "'s cmd"
  | LIST "'s cmd" "'s cmd"
  | BACK "'s cmd"

datatype 'a parsed = Parsed 'a string | Bad string | Spent

definition bindp :: "'a parsed \<Rightarrow> ('a \<Rightarrow> string \<Rightarrow> 'b parsed) \<Rightarrow> 'b parsed" where
  "bindp m f = (case m of Parsed x r \<Rightarrow> f x r | Bad e \<Rightarrow> Bad e | Spent \<Rightarrow> Spent)"

text \<open>Filling the next slot of \<open>argv\<close> in the structure that \<open>cmd\<close> points to, which the redirections wrap.\<close>

fun add_arg :: "'s \<Rightarrow> 's cmd \<Rightarrow> 's cmd" where
  "add_arg a (EXEC as) = EXEC (as @ [a])"
| "add_arg a (REDIR c f m d) = REDIR (add_arg a c) f m d"
| "add_arg a c = c"

subsection \<open>Tokens\<close>

definition whitespace :: string where "whitespace = [CHR '' '', CHR 0x09, CR, NL, CHR 0x0B]"
definition symbols :: string where "symbols = ''<|>&;()''"

definition skip :: "string \<Rightarrow> string" where
  "skip s = dropWhile (\<lambda>c. strchr whitespace c \<noteq> None) s"

definition gettoken :: "string \<Rightarrow> char \<times> span \<times> string" where
  "gettoken ps =
     (let q = skip ps; c = ch0 q;
          (tok, eq) =
            (if c = NUL then (c, q)
             else if c \<in> {CHR ''|'', CHR ''('', CHR '')'', CHR '';'', CHR ''&'', CHR ''<''} then (c, tl q)
             else if c = CHR ''>'' then
               (if ch0 (tl q) = CHR ''>'' then (CHR ''+'', tl (tl q)) else (c, tl q))
             else (CHR ''a'', dropWhile (\<lambda>c. strchr whitespace c = None \<and> strchr symbols c = None) q))
      in (tok, (q, eq), skip eq))"

definition peek :: "string \<Rightarrow> string \<Rightarrow> bool \<times> string" where
  "peek ps toks = (let s = skip ps in (ch0 s \<noteq> NUL \<and> strchr toks (ch0 s) \<noteq> None, s))"

abbreviation (input) rest_token :: "string \<Rightarrow> string" where
  "rest_token ps \<equiv> snd (snd (gettoken ps))"

lemma skip_length [simp]: "length (skip s) \<le> length s"
  by (simp add: skip_def length_dropWhile_le)

lemma skip_skip [simp]: "skip (skip s) = skip s"
  by (simp add: skip_def dropWhile_idem)

lemma skip_Nil [simp]: "skip [] = []"
  by (simp add: skip_def)

lemma blank_iff: "strchr whitespace c \<noteq> None \<longleftrightarrow> c \<in> set whitespace"
  by (auto simp: whitespace_def)

lemma symbol_iff: "strchr symbols c \<noteq> None \<longleftrightarrow> c \<in> set symbols"
  by (auto simp: symbols_def)

text \<open>The characters that make up words.\<close>

definition wordc :: "char \<Rightarrow> bool" where
  "wordc c \<longleftrightarrow> c \<notin> set whitespace \<and> c \<notin> set symbols"

lemma skip_set: "skip s = dropWhile (\<lambda>c. c \<in> set whitespace) s"
  by (simp only: skip_def blank_iff)

lemma gettoken_alt:
  "gettoken ps =
     (let q = skip ps; c = ch0 q;
          (tok, eq) =
            (if c = NUL then (c, q)
             else if wordc c then (CHR ''a'', dropWhile wordc q)
             else if c = CHR ''>'' then
               (if ch0 (tl q) = CHR ''>'' then (CHR ''+'', tl (tl q)) else (c, tl q))
             else (c, tl q))
      in (tok, (q, eq), skip eq))"
proof -
  have "hd q \<notin> set whitespace" if "q = skip ps" "q \<noteq> []" for q
    using that hd_dropWhile [of "\<lambda>c. c \<in> set whitespace" ps] by (simp add: skip_set)
  then have w: "ch0 (skip ps) \<notin> set whitespace" if "ch0 (skip ps) \<noteq> NUL"
    using that by (cases "skip ps") auto
  have "strchr whitespace c = None \<and> strchr symbols c = None \<longleftrightarrow> wordc c" for c
    using blank_iff [of c] symbol_iff [of c] by (auto simp: wordc_def)
  then have d: "(\<lambda>c. strchr whitespace c = None \<and> strchr symbols c = None) = wordc" by (rule ext)
  have s: "c \<in> set symbols \<longleftrightarrow> c \<in> {CHR ''|'', CHR ''('', CHR '')'', CHR '';'', CHR ''&'', CHR ''<''} \<or> c = CHR ''>''" for c
    by (auto simp: symbols_def)
  show ?thesis
    unfolding gettoken_def d Let_def using w s [of "ch0 (skip ps)"] by (auto simp: wordc_def)
qed

lemma ch0_NUL: "ch0 s \<noteq> NUL \<Longrightarrow> \<exists>r. s = ch0 s # r"
  by (cases s) auto

lemma gettoken_less:
  assumes "ch0 (skip ps) \<noteq> NUL"
  shows "length (rest_token ps) < length ps"
proof -
  obtain c r where q: "skip ps = c # r" "c \<noteq> NUL" using assms by (cases "skip ps") auto
  have "length (dropWhile wordc r) \<le> length r" by (rule length_dropWhile_le)
  with q have "\<exists>e. rest_token ps = skip e \<and> length e \<le> length r"
    by (cases "wordc c") (auto simp: gettoken_alt Let_def intro: exI [of _ r] exI [of _ "tl r"])
  moreover have "length r < length ps" using skip_length [of ps] q by simp
  ultimately show ?thesis using skip_length by (metis order_le_less_trans)
qed

lemma gettoken_length: "length (rest_token ps) \<le> length ps"
proof (cases "ch0 (skip ps) = NUL")
  case True
  then show ?thesis by (simp add: gettoken_alt Let_def)
qed (use gettoken_less in \<open>simp add: less_imp_le\<close>)

lemma peek_once: "(True, ps') = peek ps toks \<Longrightarrow> length (rest_token ps') < length ps"
  using gettoken_less [of ps'] skip_length [of ps] by (auto simp: peek_def Let_def intro: order_less_le_trans)

lemma peek_twice:
  "(True, ps') = peek ps toks \<Longrightarrow> (tok, f, r) = gettoken ps' \<Longrightarrow> (tok', f', r') = gettoken r \<Longrightarrow> length r' < length ps"
  using peek_once [of ps' ps toks] gettoken_length [of r] by (metis order_le_less_trans snd_conv)

subsection \<open>The parser\<close>

function parseredirs :: "span cmd \<Rightarrow> string \<Rightarrow> span cmd parsed" where
  "parseredirs cmd ps =
     (case peek ps ''<>'' of (yes, ps) \<Rightarrow>
      if yes then
        (case gettoken ps of (tok, _, ps') \<Rightarrow>
         (case gettoken ps' of (t, file, ps'') \<Rightarrow>
          if t \<noteq> CHR ''a'' then Bad ''missing file for redirection''
          else if tok = CHR ''<'' then parseredirs (REDIR cmd file 0 0) ps''
          else if tok = CHR ''>'' then parseredirs (REDIR cmd file (or 1 0x200) 1) ps''
          else if tok = CHR ''+'' then parseredirs (REDIR cmd file (or 1 0x200) 1) ps''
          else parseredirs cmd ps''))
      else Parsed cmd ps)"
  by pat_completeness auto
termination
  by (relation "measure (\<lambda>(cmd, ps). length ps)") (auto dest: peek_twice)

declare parseredirs.simps [simp del]

function parseargs :: "nat \<Rightarrow> span cmd \<Rightarrow> string \<Rightarrow> span cmd parsed" where
  "parseargs argc cmd ps =
     (case peek ps ''|)&;'' of (yes, ps) \<Rightarrow>
      if yes then Parsed cmd ps
      else (case gettoken ps of (tok, a, ps') \<Rightarrow>
        if tok = NUL then Parsed cmd ps'
        else if tok \<noteq> CHR ''a'' then Bad ''syntax''
        else if 10 \<le> argc + 1 then Bad ''too many args''
        else bindp (parseredirs (add_arg a cmd) ps') (\<lambda>cmd ps''. parseargs (argc + 1) cmd ps'')))"
  by pat_completeness auto
termination
  by (relation "measure (\<lambda>(argc, cmd, ps). 10 - argc)") auto

declare parseargs.simps [simp del]

text \<open>The loop of \<open>parseline\<close> over ampersands.\<close>

function parsebacks :: "span cmd \<Rightarrow> string \<Rightarrow> span cmd \<times> string" where
  "parsebacks cmd ps =
     (case peek ps ''&'' of (yes, ps) \<Rightarrow>
      if yes then parsebacks (BACK cmd) (rest_token ps) else (cmd, ps))"
  by pat_completeness auto
termination
  by (relation "measure (\<lambda>(cmd, ps). length ps)") (auto dest: peek_once)

declare parsebacks.simps [simp del]

fun parseline :: "nat \<Rightarrow> string \<Rightarrow> span cmd parsed"
  and parsepipe :: "nat \<Rightarrow> string \<Rightarrow> span cmd parsed"
  and parseexec :: "nat \<Rightarrow> string \<Rightarrow> span cmd parsed"
  and parseblock :: "nat \<Rightarrow> string \<Rightarrow> span cmd parsed" where
  "parseline 0 ps = Spent"
| "parseline (Suc k) ps =
     bindp (parsepipe k ps) (\<lambda>cmd ps.
     case parsebacks cmd ps of (cmd, ps) \<Rightarrow>
     case peek ps '';'' of (yes, ps) \<Rightarrow>
     if yes then bindp (parseline k (rest_token ps)) (\<lambda>right ps. Parsed (LIST cmd right) ps)
     else Parsed cmd ps)"
| "parsepipe 0 ps = Spent"
| "parsepipe (Suc k) ps =
     bindp (parseexec k ps) (\<lambda>cmd ps.
     case peek ps ''|'' of (yes, ps) \<Rightarrow>
     if yes then bindp (parsepipe k (rest_token ps)) (\<lambda>right ps. Parsed (PIPE cmd right) ps)
     else Parsed cmd ps)"
| "parseexec 0 ps = Spent"
| "parseexec (Suc k) ps =
     (case peek ps ''('' of (yes, ps) \<Rightarrow>
      if yes then parseblock k ps
      else bindp (parseredirs (EXEC []) ps) (\<lambda>cmd ps. parseargs 0 cmd ps))"
| "parseblock 0 ps = Spent"
| "parseblock (Suc k) ps =
     (case peek ps ''('' of (yes, ps) \<Rightarrow>
      if \<not> yes then Bad ''parseblock''
      else bindp (parseline k (rest_token ps)) (\<lambda>cmd ps.
        case peek ps '')'' of (yes, ps) \<Rightarrow>
        if \<not> yes then Bad ''syntax - missing )''
        else parseredirs cmd (rest_token ps)))"

subsection \<open>Terminating the strings\<close>

definition put_nul :: "string \<Rightarrow> string \<Rightarrow> string" where
  "put_nul p buf = buf[length buf - length p := NUL]"

fun nulterminate :: "span cmd \<Rightarrow> string \<Rightarrow> string" where
  "nulterminate (EXEC as) buf = fold (\<lambda>(q, eq). put_nul eq) as buf"
| "nulterminate (REDIR c (q, eq) m d) buf = put_nul eq (nulterminate c buf)"
| "nulterminate (PIPE l r) buf = nulterminate r (nulterminate l buf)"
| "nulterminate (LIST l r) buf = nulterminate r (nulterminate l buf)"
| "nulterminate (BACK c) buf = nulterminate c buf"

text \<open>The command and the line with the zeros in it, or the text of the panic.\<close>

definition parsecmd :: "string \<Rightarrow> (string + span cmd \<times> string) option" where
  "parsecmd s =
     (case parseline (4 * length s + 4) s of
        Spent \<Rightarrow> None
      | Bad e \<Rightarrow> Some (Inl e)
      | Parsed cmd r \<Rightarrow>
        (case peek r [] of (_, r) \<Rightarrow>
         if r \<noteq> [] then Some (Inl ''syntax'') else Some (Inr (cmd, nulterminate cmd s))))"

subsection \<open>The strings of a command\<close>

fun spans :: "span cmd \<Rightarrow> span set" where
  "spans (EXEC as) = set as"
| "spans (REDIR c f m d) = insert f (spans c)"
| "spans (PIPE l r) = spans l \<union> spans r"
| "spans (LIST l r) = spans l \<union> spans r"
| "spans (BACK c) = spans c"

definition span_text :: "span \<Rightarrow> string" where
  "span_text = (\<lambda>(q, e). take (length q - length e) q)"

definition word_span :: "span \<Rightarrow> bool" where
  "word_span = (\<lambda>(q, e). suffix e q \<and> length e < length q \<and> wordc (ch0 q) \<and> \<not> (e \<noteq> [] \<and> wordc (ch0 e)))"

definition apart_spans :: "span \<Rightarrow> span \<Rightarrow> bool" where
  "apart_spans = (\<lambda>(q, e) (q', e'). length q' \<le> length e \<or> length q \<le> length e')"

text \<open>The words that lie between two pointers, none over another.\<close>

definition spans_in :: "span set \<Rightarrow> string \<Rightarrow> string \<Rightarrow> bool" where
  "spans_in N ps r \<longleftrightarrow> suffix r ps \<and>
     (\<forall>x \<in> N. word_span x \<and> suffix (fst x) ps \<and> length r \<le> length (snd x)) \<and>
     (\<forall>x \<in> N. \<forall>y \<in> N. x = y \<or> apart_spans x y)"

lemma spans_in_empty [simp]: "spans_in {} ps r \<longleftrightarrow> suffix r ps"
  by (simp add: spans_in_def)

lemma spans_in_union:
  assumes "spans_in A ps m" "spans_in B m r"
  shows "spans_in (A \<union> B) ps r"
proof -
  have s: "suffix r ps" "suffix m ps" "length r \<le> length m"
    using assms by (auto simp: spans_in_def intro: suffix_order.order_trans suffix_length_le)
  have x: "apart_spans x y" if "x \<in> A" "y \<in> B" for x y
    using assms that suffix_length_le [of "fst y" m]
    by (fastforce simp: spans_in_def apart_spans_def split: prod.splits)
  then have "apart_spans y x" if "x \<in> A" "y \<in> B" for x y
    using that by (force simp: apart_spans_def split: prod.splits)
  with x s assms show ?thesis
    unfolding spans_in_def by (metis Un_iff order_trans suffix_order.order_trans)
qed

lemma spans_in_skip: "spans_in N ps r \<Longrightarrow> suffix r' r \<Longrightarrow> spans_in N ps r'"
  using spans_in_union [of N ps r "{}" r'] by simp

lemma spans_in_from: "spans_in N ps r \<Longrightarrow> suffix ps ps' \<Longrightarrow> spans_in N ps' r"
  using spans_in_union [of "{}" ps' ps N r] by simp

lemma suffix_skip [simp]: "suffix (skip s) s"
  by (simp add: skip_def suffix_dropWhile)

lemma suffix_dropWhile': "suffix (dropWhile P q) q"
  by (simp add: suffix_dropWhile)

lemma gettoken_suffix: "suffix (rest_token ps) ps"
proof -
  define e where "e = snd (fst (snd (gettoken ps)))"
  have r: "rest_token ps = skip e" by (simp add: e_def gettoken_alt Let_def split_beta)
  have "e \<in> {skip ps, dropWhile wordc (skip ps), tl (skip ps), tl (tl (skip ps))}"
    by (simp add: e_def gettoken_alt Let_def)
  moreover have "suffix (tl (tl q)) q" for q :: string using suffix_tl suffix_order.order_trans by blast
  ultimately have "suffix e (skip ps)" by (auto simp: suffix_tl suffix_dropWhile)
  then show ?thesis unfolding r using suffix_skip suffix_order.order_trans by blast
qed

lemma gettoken_word:
  assumes "gettoken ps = (CHR ''a'', (q, e), r)"
  shows "q = skip ps \<and> ch0 q \<noteq> NUL \<and> wordc (ch0 q) \<and> e = dropWhile wordc q \<and> r = skip e"
proof -
  have a: "wordc (CHR ''a'')" by code_simp
  show ?thesis
  proof (cases "ch0 (skip ps) \<noteq> NUL \<and> wordc (ch0 (skip ps))")
    case True
    then show ?thesis using assms by (auto simp: gettoken_alt Let_def)
  next
    case False
    have "fst (gettoken ps) \<noteq> CHR ''a''"
      using False a by (cases "ch0 (skip ps) = CHR ''>''") (auto simp: gettoken_alt Let_def)
    with assms show ?thesis by simp
  qed
qed

lemma gettoken_span:
  assumes "gettoken ps = (CHR ''a'', x, r)"
  shows "spans_in {x} ps r"
proof -
  obtain q e where x: "x = (q, e)" by fastforce
  note w = gettoken_word [OF assms [unfolded x]]
  have "ch0 q \<noteq> NUL" "wordc (ch0 q)" using w by blast+
  then obtain c l where q: "q = c # l" "wordc c" by (cases q) auto
  then have "length e < length q" using w length_dropWhile_le [of wordc l] by simp
  moreover have "suffix e q" "suffix q ps" "suffix r e" using w by (simp_all add: suffix_dropWhile)
  moreover from this have "suffix r ps" using suffix_order.order_trans by blast
  moreover have "e \<noteq> [] \<Longrightarrow> \<not> wordc (hd e)" using w hd_dropWhile [of wordc q] by blast
  then have "\<not> (e \<noteq> [] \<and> wordc (ch0 e))" by (cases e) auto
  ultimately show ?thesis
    using \<open>wordc (ch0 q)\<close> by (simp add: x spans_in_def word_span_def suffix_length_le)
qed

lemma peek_suffix: "peek ps toks = (b, r) \<Longrightarrow> suffix r ps"
  by (auto simp: peek_def Let_def)

fun simple :: "'s cmd \<Rightarrow> bool" where
  "simple (EXEC as) \<longleftrightarrow> True"
| "simple (REDIR c f m d) \<longleftrightarrow> simple c"
| "simple _ \<longleftrightarrow> False"

lemma add_arg_simple: "simple c \<Longrightarrow> simple (add_arg a c) \<and> spans (add_arg a c) = insert a (spans c)"
  by (induction c) auto

text \<open>What a parsing function adds to a command.\<close>

definition adds :: "span set \<Rightarrow> bool \<Rightarrow> string \<Rightarrow> span cmd parsed \<Rightarrow> bool" where
  "adds T b ps m \<longleftrightarrow> (case m of Parsed c r \<Rightarrow> (\<exists>N. spans c = T \<union> N \<and> spans_in N ps r) \<and> (b \<longrightarrow> simple c) | _ \<Rightarrow> True)"

lemma adds_simps [simp]:
  "adds T b ps (Bad e)" "adds T b ps Spent"
  "adds T b ps (Parsed c r) \<longleftrightarrow> (\<exists>N. spans c = T \<union> N \<and> spans_in N ps r) \<and> (b \<longrightarrow> simple c)"
  by (simp_all add: adds_def)

lemma adds_more:
  assumes "adds (T \<union> N) b r m" "spans_in N ps r"
  shows "adds T b ps m"
  using assms by (cases m) (auto simp: Un_assoc intro: spans_in_union)

lemma adds_bind:
  assumes "adds T b ps m" "\<And>c r N. m = Parsed c r \<Longrightarrow> spans c = T \<union> N \<Longrightarrow> spans_in N ps r \<Longrightarrow> (b \<Longrightarrow> simple c) \<Longrightarrow> adds T b' ps (f c r)"
  shows "adds T b' ps (bindp m f)"
  using assms by (cases m) (auto simp: bindp_def)

lemma parseredirs_adds: "adds (spans c) (simple c) ps (parseredirs c ps)"
proof (induction c ps rule: parseredirs.induct)
  case (1 c ps)
  obtain b r where p: "peek ps ''<>'' = (b, r)" by fastforce
  obtain tok x r1 where g1: "gettoken r = (tok, x, r1)" by (cases "gettoken r") auto
  obtain t f r2 where g2: "gettoken r1 = (t, f, r2)" by (cases "gettoken r1") auto
  have s: "suffix r ps" "suffix r1 r" using peek_suffix [OF p] gettoken_suffix [of r] g1 by auto
  show ?case
  proof (cases "b \<and> t = CHR ''a''")
    case True
    have f: "spans_in {f} ps r2"
      using gettoken_span [of r1 f r2] g2 True s spans_in_from suffix_order.order_trans by blast
    have e: "spans_in {} ps r2" using f by (simp add: spans_in_def)
    have "adds (spans c) (simple c) ps (parseredirs (REDIR c f m d) r2)"
      if "adds (spans (REDIR c f m d)) (simple (REDIR c f m d)) r2 (parseredirs (REDIR c f m d) r2)" for m d
      using adds_more [of "spans c" "{f}" "simple c" r2 _ ps] that f by simp
    moreover have "adds (spans c) (simple c) ps (parseredirs c r2)"
      if "adds (spans c) (simple c) r2 (parseredirs c r2)"
      using adds_more [of "spans c" "{}" "simple c" r2 _ ps] that e by simp
    ultimately show ?thesis
      unfolding parseredirs.simps [of c ps] using 1 True p g1 g2 by auto
  next
    case False
    then show ?thesis
      unfolding parseredirs.simps [of c ps] using p g1 g2 s(1) by (auto intro!: exI [of _ "{}"])
  qed
qed

lemma parseargs_adds: "simple c \<Longrightarrow> adds (spans c) True ps (parseargs n c ps)"
proof (induction "10 - n" arbitrary: n c ps rule: less_induct)
  case 1: less
  obtain b r where p: "peek ps ''|)&;'' = (b, r)" by fastforce
  obtain tok a r1 where g: "gettoken r = (tok, a, r1)" by (cases "gettoken r") auto
  have s: "suffix r ps" "suffix r1 r" using peek_suffix [OF p] gettoken_suffix [of r] g by auto
  then have e: "spans_in {} ps r" "spans_in {} ps r1" by (auto intro: suffix_order.order_trans)
  show ?case
  proof (cases "\<not> b \<and> tok = CHR ''a'' \<and> \<not> 10 \<le> n + 1")
    case True
    then have n: "10 - (n + 1) < 10 - n" by linarith
    have a: "spans_in {a} ps r1" using gettoken_span [of r a r1] g True s spans_in_from by blast
    have c: "simple (add_arg a c)" "spans (add_arg a c) = spans c \<union> {a}" using add_arg_simple [OF 1(2), of a] by auto
    have "adds (spans c \<union> {a}) True r1 (bindp (parseredirs (add_arg a c) r1) (parseargs (n + 1)))"
    proof (rule adds_bind [OF parseredirs_adds [of "add_arg a c" r1, unfolded c(2)]])
      fix d r2 N
      assume d: "spans d = spans c \<union> {a} \<union> N" "spans_in N r1 r2" "simple (add_arg a c) \<Longrightarrow> simple d"
      then have "adds (spans d) True r2 (parseargs (n + 1) d r2)" using 1(1) [OF n, of d r2] c by simp
      with d show "adds (spans c \<union> {a}) True r1 (parseargs (n + 1) d r2)" using adds_more by metis
    qed
    then have "adds (spans c) True ps (bindp (parseredirs (add_arg a c) r1) (parseargs (n + 1)))"
      using a by (rule adds_more)
    then show ?thesis unfolding parseargs.simps [of n c ps] using True p g by simp
  next
    case False
    then show ?thesis
      unfolding parseargs.simps [of n c ps] using p g e 1(2) by (auto intro!: exI [of _ "{}"])
  qed
qed

lemma parsebacks_adds: "parsebacks c ps = (d, r) \<Longrightarrow> spans d = spans c \<and> suffix r ps"
proof (induction c ps rule: parsebacks.induct)
  case (1 c ps)
  obtain b q where p: "peek ps ''&'' = (b, q)" by fastforce
  show ?case
  proof (cases b)
    case True
    then have "spans d = spans c \<and> suffix r (rest_token q)"
      using 1 p by (auto simp: parsebacks.simps [of c ps])
    then show ?thesis using peek_suffix [OF p] gettoken_suffix [of q] suffix_order.order_trans by blast
  next
    case False
    then show ?thesis using 1(2) p peek_suffix [OF p] by (simp add: parsebacks.simps [of c ps])
  qed
qed

lemma peek_gettoken_suffix: "peek ps toks = (b, q) \<Longrightarrow> suffix (rest_token q) ps"
  using peek_suffix gettoken_suffix suffix_order.order_trans by blast

lemma parseline_adds:
  assumes "\<And>ps. adds {} False ps (parsepipe k ps)" "\<And>ps. adds {} False ps (parseline k ps)"
  shows "adds {} False ps (parseline (Suc k) ps)"
proof -
  show ?thesis unfolding parseline.simps
  proof (rule adds_bind [OF assms(1)])
    fix c r N assume c: "parsepipe k ps = Parsed c r" "spans c = {} \<union> N" "spans_in N ps r"
    obtain d r1 where d: "parsebacks c r = (d, r1)" by fastforce
    obtain y r2 where p: "peek r1 '';'' = (y, r2)" by fastforce
    have s: "spans d = N" "suffix r2 r" "suffix (rest_token r2) r"
      using parsebacks_adds [OF d] peek_suffix [OF p] peek_gettoken_suffix [OF p] c suffix_order.order_trans by auto
    have "adds {} False (rest_token r2) (parseline k (rest_token r2))" by (rule assms(2))
    then have "adds N False (rest_token r2) (bindp (parseline k (rest_token r2)) (\<lambda>right ps. Parsed (LIST d right) ps))"
      using s(1) by (cases "parseline k (rest_token r2)") (auto simp: bindp_def)
    then show "adds {} False ps (case parsebacks c r of (cmd, ps) \<Rightarrow> case peek ps '';'' of (yes, ps) \<Rightarrow>
        if yes then bindp (parseline k (rest_token ps)) (\<lambda>right ps. Parsed (LIST cmd right) ps) else Parsed cmd ps)"
      using d p s c(3) adds_more [of "{}" N False "rest_token r2" _ ps] spans_in_skip [OF c(3)] by auto
  qed
qed

lemma parsepipe_adds:
  assumes "\<And>ps. adds {} False ps (parseexec k ps)" "\<And>ps. adds {} False ps (parsepipe k ps)"
  shows "adds {} False ps (parsepipe (Suc k) ps)"
proof -
  show ?thesis unfolding parsepipe.simps
  proof (rule adds_bind [OF assms(1)])
    fix c r N assume c: "parseexec k ps = Parsed c r" "spans c = {} \<union> N" "spans_in N ps r"
    obtain y r2 where p: "peek r ''|'' = (y, r2)" by fastforce
    have s: "spans c = N" "suffix r2 r" "suffix (rest_token r2) r"
      using peek_suffix [OF p] peek_gettoken_suffix [OF p] c by auto
    have "adds {} False (rest_token r2) (parsepipe k (rest_token r2))" by (rule assms(2))
    then have "adds N False (rest_token r2) (bindp (parsepipe k (rest_token r2)) (\<lambda>right ps. Parsed (PIPE c right) ps))"
      using s(1) by (cases "parsepipe k (rest_token r2)") (auto simp: bindp_def)
    then show "adds {} False ps (case peek r ''|'' of (yes, ps) \<Rightarrow>
        if yes then bindp (parsepipe k (rest_token ps)) (\<lambda>right ps. Parsed (PIPE c right) ps) else Parsed c ps)"
      using p s c(3) adds_more [of "{}" N False "rest_token r2" _ ps] spans_in_skip [OF c(3)] by auto
  qed
qed

lemma parseexec_adds:
  assumes "\<And>ps. adds {} False ps (parseblock k ps)"
  shows "adds {} False ps (parseexec (Suc k) ps)"
proof -
  obtain y r where p: "peek ps ''('' = (y, r)" by fastforce
  have e: "spans_in {} ps r" using peek_suffix [OF p] by simp
  show ?thesis
  proof (cases y)
    case True
    then show ?thesis using p assms [of r] adds_more [of "{}" "{}" False r "parseblock k r" ps] e by simp
  next
    case False
    have "adds {} True r (bindp (parseredirs (EXEC []) r) (parseargs 0))"
    proof (rule adds_bind)
      show "adds {} True r (parseredirs (EXEC []) r)" using parseredirs_adds [of "EXEC []" r] by simp
    next
      fix c r1 N assume c: "spans c = {} \<union> N" "spans_in N r r1" "True \<Longrightarrow> simple c"
      then show "adds {} True r (parseargs 0 c r1)"
        using parseargs_adds [of c r1 0] adds_more [of "{}" N True r1 _ r] by simp
    qed
    then have "adds {} False r (bindp (parseredirs (EXEC []) r) (parseargs 0))"
      by (cases "bindp (parseredirs (EXEC []) r) (parseargs 0)") auto
    then show ?thesis using False p adds_more [of "{}" "{}" False r _ ps] e by simp
  qed
qed

lemma parseblock_adds:
  assumes "\<And>ps. adds {} False ps (parseline k ps)"
  shows "adds {} False ps (parseblock (Suc k) ps)"
proof -
  obtain y r where p: "peek ps ''('' = (y, r)" by fastforce
  let ?r = "rest_token r"
  show ?thesis
  proof (cases y)
    case True
    have "adds {} False ?r (bindp (parseline k ?r) (\<lambda>cmd ps. case peek ps '')'' of (yes, ps) \<Rightarrow>
        if \<not> yes then Bad ''syntax - missing )'' else parseredirs cmd (rest_token ps)))"
    proof (rule adds_bind)
      show "adds {} False ?r (parseline k ?r)" by (rule assms)
    next
      fix c r1 N assume c: "spans c = {} \<union> N" "spans_in N ?r r1"
      obtain z r2 where q: "peek r1 '')'' = (z, r2)" by fastforce
      have n: "spans_in N ?r (rest_token r2)" using c(2) peek_gettoken_suffix [OF q] by (rule spans_in_skip)
      have "adds N False (rest_token r2) (parseredirs c (rest_token r2))"
        using parseredirs_adds [of c "rest_token r2"] c(1) by (cases "parseredirs c (rest_token r2)") auto
      then show "adds {} False ?r (case peek r1 '')'' of (yes, ps) \<Rightarrow>
          if \<not> yes then Bad ''syntax - missing )'' else parseredirs c (rest_token ps))"
        using q adds_more [of "{}" N False "rest_token r2" _ ?r] n by simp
    qed
    moreover have "spans_in {} ps ?r" using peek_gettoken_suffix [OF p] by simp
    ultimately show ?thesis using True p adds_more [of "{}" "{}" False ?r _ ps] by simp
  next
    case False
    then show ?thesis using p by simp
  qed
qed

lemma parse_adds:
  "adds {} False ps (parseline k ps) \<and> adds {} False ps (parsepipe k ps) \<and>
   adds {} False ps (parseexec k ps) \<and> adds {} False ps (parseblock k ps)"
  by (induction k arbitrary: ps) (use parseline_adds parsepipe_adds parseexec_adds parseblock_adds in \<open>simp_all\<close>)

lemma parse_suffix:
  "parseline k ps = Parsed c r \<Longrightarrow> suffix r ps" "parsepipe k ps = Parsed c r \<Longrightarrow> suffix r ps"
  "parseexec k ps = Parsed c r \<Longrightarrow> suffix r ps" "parseblock k ps = Parsed c r \<Longrightarrow> suffix r ps"
  using parse_adds [of ps k] by (auto simp: spans_in_def)

subsection \<open>Enough fuel\<close>

lemma bindp_simps [simp]: "bindp (Parsed c r) f = f c r" "bindp (Bad e) f = Bad e" "bindp Spent f = Spent"
  by (simp_all add: bindp_def)

lemma bindp_Spent: "bindp m f = Spent \<longleftrightarrow> m = Spent \<or> (\<exists>c r. m = Parsed c r \<and> f c r = Spent)"
  by (cases m) (simp_all add: bindp_def)

lemma parseredirs_returns: "parseredirs c ps \<noteq> Spent"
proof (induction c ps rule: parseredirs.induct)
  case (1 c ps)
  show ?case unfolding parseredirs.simps [of c ps]
    using 1 by (auto split: prod.split)
qed

lemma parseargs_returns: "parseargs n c ps \<noteq> Spent"
proof (induction n c ps rule: parseargs.induct)
  case (1 n c ps)
  show ?case unfolding parseargs.simps [of n c ps]
    using 1 parseredirs_returns by (auto simp: bindp_Spent split: prod.split)
qed

lemma peek_less: "peek ps toks = (True, r) \<Longrightarrow> length (rest_token r) < length ps"
  using peek_once [of r ps toks] by simp

lemma parse_returns:
  "(4 * length ps + 4 \<le> k \<longrightarrow> parseline k ps \<noteq> Spent) \<and> (4 * length ps + 3 \<le> k \<longrightarrow> parsepipe k ps \<noteq> Spent) \<and>
   (4 * length ps + 2 \<le> k \<longrightarrow> parseexec k ps \<noteq> Spent) \<and> (4 * length ps + 1 \<le> k \<longrightarrow> parseblock k ps \<noteq> Spent)"
proof (induction k arbitrary: ps)
  case (Suc k)
  have "parseline (Suc k) ps \<noteq> Spent" if k: "4 * length ps + 4 \<le> Suc k"
  proof -
    have "parseline k (rest_token q) \<noteq> Spent"
      if "parsepipe k ps = Parsed c r" "parsebacks c r = (d, r1)" "peek r1 '';'' = (True, q)" for c r d r1 q
      using that k Suc [of "rest_token q"] peek_less [of r1 "'';''" q] suffix_length_le [of r1 r] suffix_length_le [of r ps]
        parse_suffix(2) [of k ps c r] parsebacks_adds [of c r d r1] by auto
    then show ?thesis
      using Suc [of ps] k by (cases "parsepipe k ps") (auto simp: bindp_Spent split: prod.split)
  qed
  moreover have "parsepipe (Suc k) ps \<noteq> Spent" if k: "4 * length ps + 3 \<le> Suc k"
  proof -
    have "parsepipe k (rest_token q) \<noteq> Spent" if "parseexec k ps = Parsed c r" "peek r ''|'' = (True, q)" for c r q
      using that k Suc [of "rest_token q"] peek_less [of r "''|''" q] suffix_length_le [of r ps]
        parse_suffix(3) [of k ps c r] by auto
    then show ?thesis
      using Suc [of ps] k by (cases "parseexec k ps") (auto simp: bindp_Spent split: prod.split)
  qed
  moreover have "parseexec (Suc k) ps \<noteq> Spent" if k: "4 * length ps + 2 \<le> Suc k"
  proof -
    obtain y r where p: "peek ps ''('' = (y, r)" by fastforce
    then have "parseblock k r \<noteq> Spent" using k Suc [of r] suffix_length_le [OF peek_suffix [OF p]] by auto
    then show ?thesis using p parseredirs_returns parseargs_returns by (auto simp: bindp_Spent)
  qed
  moreover have "parseblock (Suc k) ps \<noteq> Spent" if k: "4 * length ps + 1 \<le> Suc k"
  proof -
    obtain y r where p: "peek ps ''('' = (y, r)" by fastforce
    then have "y \<Longrightarrow> parseline k (rest_token r) \<noteq> Spent" using k Suc [of "rest_token r"] peek_less [of ps "''(''" r] by auto
    then show ?thesis using p parseredirs_returns by (auto simp: bindp_Spent split: prod.splits)
  qed
  ultimately show ?case by blast
qed simp

lemma parsecmd_returns: "parsecmd s \<noteq> None"
  using parse_returns [of s "4 * length s + 4"]
  by (auto simp: parsecmd_def split: parsed.splits prod.splits)

subsection \<open>The zeros\<close>

definition ends :: "span cmd \<Rightarrow> nat set" where
  "ends c = (\<lambda>x. length (snd x)) ` spans c"

lemma put_nul_nth: "i < length buf \<Longrightarrow> put_nul p buf ! i = (if i = length buf - length p then NUL else buf ! i)"
  by (auto simp: put_nul_def nth_list_update)

lemma put_nul_length [simp]: "length (put_nul p buf) = length buf"
  by (simp add: put_nul_def)

lemma nulterminate_nth:
  "length (nulterminate c buf) = length buf \<and>
   (\<forall>i < length buf. nulterminate c buf ! i = (if \<exists>n \<in> ends c. i = length buf - n then NUL else buf ! i))"
proof (induction c arbitrary: buf)
  case (EXEC as)
  show ?case
  proof (induction as rule: rev_induct)
    case (snoc a as)
    then show ?case by (cases a) (auto simp: ends_def put_nul_nth)
  qed (simp add: ends_def)
next
  case (REDIR c f m d)
  then show ?case by (cases f) (auto simp: ends_def put_nul_nth)
qed (auto simp: ends_def image_Un)

lemma suffix_same_length: "suffix a s \<Longrightarrow> suffix b s \<Longrightarrow> length a = length b \<Longrightarrow> a = b"
  by (metis suffix_length_suffix suffix_order.antisym order_refl)

text \<open>No string of the command ends inside another one or where another one starts.\<close>

lemma no_end_inside:
  assumes "spans_in N s []" "(q, e) \<in> N" "y \<in> N" "length e < n" "n \<le> length q"
  shows "length (snd y) \<noteq> n"
proof (cases "y = (q, e)")
  case False
  obtain q' e' where y: "y = (q', e')" by fastforce
  have w: "word_span (q, e)" "word_span (q', e')" "suffix q s" "suffix q' s" using assms y by (auto simp: spans_in_def)
  have "suffix e' s" using w by (auto simp: word_span_def intro: suffix_order.order_trans)
  then have "length e' \<noteq> length q" using w suffix_same_length [of q s e'] by (cases q) (auto simp: word_span_def)
  moreover have "length q' \<le> length e \<or> length q \<le> length e'"
    using assms False y by (auto simp: spans_in_def apart_spans_def)
  ultimately show ?thesis using assms(4,5) w(2) by (auto simp: y word_span_def)
qed (use assms(4) in simp)

lemma string_in_line:
  assumes "spans_in (spans c) s []" "x \<in> spans c" "NUL \<notin> set s"
  shows "takeWhile (\<lambda>c. c \<noteq> NUL) (drop (length s - length (fst x)) (nulterminate c s)) = span_text x"
proof -
  obtain q e where x: "x = (q, e)" by fastforce
  have w: "suffix e q" "length e < length q" "suffix q s"
    using assms(1,2) by (auto simp: x spans_in_def word_span_def)
  define k where "k = length s - length q"
  have q: "q = drop k s" "k + length q = length s"
    using w(3) suffix_length_le [OF w(3)] by (auto simp: k_def suffix_def)
  define n where "n = length q - length e"
  let ?b = "drop k (nulterminate c s)"
  note nth = nulterminate_nth [of c s]
  have same: "?b ! i = q ! i \<and> q ! i \<noteq> NUL" if "i < n" for i
  proof -
    have "k + i < length s" using that q n_def by simp
    moreover have "\<not> (\<exists>m \<in> ends c. k + i = length s - m)"
    proof
      assume "\<exists>m \<in> ends c. k + i = length s - m"
      then obtain y where "y \<in> spans c" "k + i = length s - length (snd y)" by (auto simp: ends_def)
      moreover from this have "length (snd y) \<le> length s"
        using assms(1) suffix_length_le [of "fst y" s] by (cases y) (auto simp: spans_in_def word_span_def)
      ultimately have "length (snd y) = length q - i" using q(2) \<open>k + i < length s\<close> by arith
      moreover have "length e < length q - i" using that n_def by linarith
      ultimately show False
        using no_end_inside [OF assms(1), of q e y "length q - i"] assms(2) x \<open>y \<in> spans c\<close> by simp
    qed
    moreover have "s ! (k + i) \<noteq> NUL" using assms(3) \<open>k + i < length s\<close> by (metis nth_mem)
    moreover have "q ! i = s ! (k + i)" using q(1) \<open>k + i < length s\<close> by simp
    ultimately show ?thesis using nth assms(3) by auto
  qed
  have "?b ! n = NUL" if "n < length ?b"
  proof -
    have "length e \<in> ends c" using assms(2) by (force simp: x ends_def)
    moreover have "k + n = length s - length e" using q(2) w(2) n_def by simp
    ultimately show ?thesis using that nth by auto
  qed
  then have "takeWhile (\<lambda>c. c \<noteq> NUL) ?b = take n ?b"
    using same by (intro takeWhile_eq_take_P_nth) auto
  also have "\<dots> = take n q"
    using same nth q by (intro nth_equalityI) (auto simp: n_def)
  finally show ?thesis by (simp add: x span_text_def k_def n_def)
qed

subsection \<open>The text of a command\<close>

datatype redir = In string | Out string | App string

datatype line = Line pline nat | Seq pline nat line
  and pline = Last part | Bar part pline
  and part = Simple "string list" "redir list" | Block line "redir list"

fun redir_text :: "redir \<Rightarrow> string" where
  "redir_text (In f) = '' <'' @ f"
| "redir_text (Out f) = '' >'' @ f"
| "redir_text (App f) = '' >>'' @ f"

abbreviation (input) redirs_text :: "redir list \<Rightarrow> string" where
  "redirs_text rs \<equiv> concat (map redir_text rs)"

abbreviation (input) words_text :: "string list \<Rightarrow> string" where
  "words_text ws \<equiv> concat (map (Cons (CHR '' '')) ws)"

primrec line_text :: "line \<Rightarrow> string" and pline_text :: "pline \<Rightarrow> string" and part_text :: "part \<Rightarrow> string" where
  "line_text (Line p n) = pline_text p @ replicate n (CHR ''&'')"
| "line_text (Seq p n l) = pline_text p @ replicate n (CHR ''&'') @ '';'' @ line_text l"
| "pline_text (Last u) = part_text u"
| "pline_text (Bar u p) = part_text u @ ''|'' @ pline_text p"
| "part_text (Simple ws rs) = words_text ws @ redirs_text rs"
| "part_text (Block l rs) = ''('' @ line_text l @ '')'' @ redirs_text rs"

fun redir_cmd :: "string cmd \<Rightarrow> redir \<Rightarrow> string cmd" where
  "redir_cmd c (In f) = REDIR c f 0 0"
| "redir_cmd c (Out f) = REDIR c f (or 1 0x200) 1"
| "redir_cmd c (App f) = REDIR c f (or 1 0x200) 1"

primrec line_cmd :: "line \<Rightarrow> string cmd" and pline_cmd :: "pline \<Rightarrow> string cmd" and part_cmd :: "part \<Rightarrow> string cmd" where
  "line_cmd (Line p n) = (BACK ^^ n) (pline_cmd p)"
| "line_cmd (Seq p n l) = LIST ((BACK ^^ n) (pline_cmd p)) (line_cmd l)"
| "pline_cmd (Last u) = part_cmd u"
| "pline_cmd (Bar u p) = PIPE (part_cmd u) (pline_cmd p)"
| "part_cmd (Simple ws rs) = foldl redir_cmd (EXEC ws) rs"
| "part_cmd (Block l rs) = foldl redir_cmd (line_cmd l) rs"

definition is_word :: "string \<Rightarrow> bool" where
  "is_word w \<longleftrightarrow> w \<noteq> [] \<and> (\<forall>c \<in> set w. wordc c \<and> c \<noteq> NUL)"

fun redir_file :: "redir \<Rightarrow> string" where
  "redir_file (In f) = f" | "redir_file (Out f) = f" | "redir_file (App f) = f"

primrec line_ok :: "line \<Rightarrow> bool" and pline_ok :: "pline \<Rightarrow> bool" and part_ok :: "part \<Rightarrow> bool" where
  "line_ok (Line p n) \<longleftrightarrow> pline_ok p"
| "line_ok (Seq p n l) \<longleftrightarrow> pline_ok p \<and> line_ok l"
| "pline_ok (Last u) \<longleftrightarrow> part_ok u"
| "pline_ok (Bar u p) \<longleftrightarrow> part_ok u \<and> pline_ok p"
| "part_ok (Simple ws rs) \<longleftrightarrow> length ws < 10 \<and> (\<forall>w \<in> set ws. is_word w) \<and> (\<forall>r \<in> set rs. is_word (redir_file r))"
| "part_ok (Block l rs) \<longleftrightarrow> line_ok l \<and> (\<forall>r \<in> set rs. is_word (redir_file r))"

subsection \<open>Parsing the text\<close>

text \<open>The characters that may follow a part of a line.\<close>

definition stops :: "string \<Rightarrow> string \<Rightarrow> bool" where
  "stops cs r \<longleftrightarrow> r = [] \<or> hd r \<in> set cs"

lemma wordc_simps [simp]:
  "\<not> wordc (CHR '' '')" "\<not> wordc (CHR ''<'')" "\<not> wordc (CHR ''>'')" "\<not> wordc (CHR ''|'')" "\<not> wordc (CHR ''&'')"
  "\<not> wordc (CHR '';'')" "\<not> wordc (CHR ''('')" "\<not> wordc (CHR '')'')"
  by code_simp+

lemma skip_Cons [simp]:
  "skip (CHR '' '' # s) = skip s" "wordc c \<Longrightarrow> skip (c # s) = c # s" "c \<in> set symbols \<Longrightarrow> skip (c # s) = c # s"
  by (auto simp: skip_set wordc_def whitespace_def symbols_def)

lemma skip_stops: "stops cs r \<Longrightarrow> set cs \<subseteq> set symbols \<Longrightarrow> skip r = r"
  by (cases r) (auto simp: stops_def)

lemma gettoken_is_word:
  assumes "is_word w" "r = [] \<or> \<not> wordc (hd r)"
  shows "gettoken (w @ r) = (CHR ''a'', (w @ r, r), skip r)"
proof -
  obtain c v where w: "w = c # v" "wordc c" "c \<noteq> NUL" using assms(1) by (cases w) (auto simp: is_word_def)
  have "dropWhile wordc (w @ r) = r"
    using assms by (cases r) (auto simp: is_word_def dropWhile_append2 simp del: dropWhile_append)
  then show ?thesis using w by (simp add: gettoken_alt Let_def)
qed

lemma span_text_word [simp]: "span_text (w @ r, r) = w"
  by (simp add: span_text_def)

lemma peek_skip [simp]: "peek (skip r) toks = peek r toks"
  by (simp add: peek_def)

lemma peek_Nil [simp]: "peek [] toks = (False, [])"
  by (simp add: peek_def)

lemma peek_blank [simp]: "peek (CHR '' '' # r) toks = peek r toks"
  by (simp add: peek_def)

lemma peek_char: "wordc c \<or> c \<in> set symbols \<Longrightarrow> c \<noteq> NUL \<Longrightarrow> peek (c # r) toks = (strchr toks c \<noteq> None, c # r)"
  by (auto simp: peek_def Let_def)

lemma peek_word:
  assumes "is_word w" "set toks \<subseteq> set symbols"
  shows "peek (w @ r) toks = (False, w @ r)"
proof -
  obtain c v where w: "w = c # v" "wordc c" "c \<noteq> NUL" using assms(1) by (cases w) (auto simp: is_word_def)
  have "c \<notin> set toks" using w assms(2) by (auto simp: wordc_def)
  then have "strchr toks c = None" by (induction toks) auto
  then show ?thesis using w by (simp add: peek_char)
qed

lemma peek_stops:
  assumes "stops cs r" "set cs \<subseteq> set symbols" "set cs \<inter> set toks = {}"
  shows "peek r toks = (False, r)"
proof (cases r)
  case (Cons c v)
  then have c: "c \<in> set cs" using assms(1) by (simp add: stops_def)
  then have "c \<noteq> NUL" using assms(2) by (auto simp: symbols_def)
  moreover have "strchr toks c = None" using c assms(3) by (induction toks) auto
  ultimately show ?thesis using Cons c assms(2) by (auto simp: peek_char)
qed simp

lemma parseredirs_skip [simp]: "parseredirs c (skip r) = parseredirs c r"
  by (subst (1 2) parseredirs.simps) simp

lemma parseredirs_blank [simp]: "parseredirs c (CHR '' '' # r) = parseredirs c r"
  by (subst (1 2) parseredirs.simps) simp

lemma parseargs_skip [simp]: "parseargs n c (skip r) = parseargs n c r"
  by (subst (1 2) parseargs.simps) simp

lemma parseargs_blank [simp]: "parseargs n c (CHR '' '' # r) = parseargs n c r"
  by (subst (1 2) parseargs.simps) simp

lemma parseredirs_none: "peek r ''<>'' = (False, r') \<Longrightarrow> parseredirs c r = Parsed c r'"
  by (subst parseredirs.simps) simp

lemma parseredirs_word: "is_word w \<Longrightarrow> parseredirs c (w @ r) = Parsed c (w @ r)"
  by (rule parseredirs_none) (rule peek_word; simp add: symbols_def)

lemma gettoken_redir:
  assumes "is_word f"
  shows "gettoken (CHR ''<'' # f @ r) = (CHR ''<'', (CHR ''<'' # f @ r, f @ r), f @ r)"
    "gettoken (CHR ''>'' # f @ r) = (CHR ''>'', (CHR ''>'' # f @ r, f @ r), f @ r)"
    "gettoken (CHR ''>'' # CHR ''>'' # f @ r) = (CHR ''+'', (CHR ''>'' # CHR ''>'' # f @ r, f @ r), f @ r)"
proof -
  obtain c v where f: "f = c # v" "wordc c" "c \<noteq> NUL" using assms by (cases f) (auto simp: is_word_def)
  have "c \<noteq> CHR ''>''" using f(2) by auto
  moreover have "CHR ''<'' \<in> set symbols" "CHR ''>'' \<in> set symbols" by (simp_all add: symbols_def)
  ultimately show "gettoken (CHR ''<'' # f @ r) = (CHR ''<'', (CHR ''<'' # f @ r, f @ r), f @ r)"
    "gettoken (CHR ''>'' # f @ r) = (CHR ''>'', (CHR ''>'' # f @ r, f @ r), f @ r)"
    "gettoken (CHR ''>'' # CHR ''>'' # f @ r) = (CHR ''+'', (CHR ''>'' # CHR ''>'' # f @ r, f @ r), f @ r)"
    using f by (simp_all add: gettoken_alt Let_def)
qed

lemma parse_redir:
  assumes "is_word (redir_file x)" "r = [] \<or> \<not> wordc (hd r)"
  shows "\<exists>c'. parseredirs c (redir_text x @ r) = parseredirs c' r \<and> map_cmd span_text c' = redir_cmd (map_cmd span_text c) x"
proof -
  have s: "CHR ''<'' \<in> set symbols" "CHR ''>'' \<in> set symbols" by (simp_all add: symbols_def)
  note g = gettoken_redir gettoken_is_word [OF _ assms(2)]
  show ?thesis
  proof (cases x)
    case (In f)
    then show ?thesis
      using assms g s by (intro exI [of _ "REDIR c (f @ r, r) 0 0"]) (simp add: peek_char parseredirs.simps [of c "CHR ''<'' # f @ r"])
  next
    case (Out f)
    then show ?thesis
      using assms g s by (intro exI [of _ "REDIR c (f @ r, r) (or 1 0x200) 1"]) (simp add: peek_char parseredirs.simps [of c "CHR ''>'' # f @ r"])
  next
    case (App f)
    then show ?thesis
      using assms g s by (intro exI [of _ "REDIR c (f @ r, r) (or 1 0x200) 1"]) (simp add: peek_char parseredirs.simps [of c "CHR ''>'' # CHR ''>'' # f @ r"])
  qed
qed

lemma parse_redirs:
  assumes "\<forall>x \<in> set rs. is_word (redir_file x)" "stops ''|)&;'' r"
  shows "\<exists>c'. parseredirs c (redirs_text rs @ r) = Parsed c' r \<and> map_cmd span_text c' = foldl redir_cmd (map_cmd span_text c) rs"
  using assms(1)
proof (induction rs arbitrary: c)
  case Nil
  have "peek r ''<>'' = (False, r)" by (rule peek_stops [OF assms(2)]) (auto simp: symbols_def)
  then show ?case by (simp add: parseredirs_none)
next
  case (Cons x rs)
  have "redirs_text rs @ r = [] \<or> \<not> wordc (hd (redirs_text rs @ r))"
  proof (cases rs)
    case Nil
    then show ?thesis using assms(2) by (auto simp: stops_def)
  next
    case (Cons y ys)
    then show ?thesis by (cases y) auto
  qed
  then obtain c' where "parseredirs c (redir_text x @ redirs_text rs @ r) = parseredirs c' (redirs_text rs @ r)"
      "map_cmd span_text c' = redir_cmd (map_cmd span_text c) x"
    using parse_redir [of x "redirs_text rs @ r" c] Cons.prems by auto
  then show ?case using Cons.IH [of c'] Cons.prems by simp
qed

lemma parseargs_stops:
  assumes "stops ''|)&;'' r"
  shows "parseargs n c r = Parsed c r"
proof (cases r)
  case Nil
  then show ?thesis by (simp add: parseargs.simps [of n c] gettoken_alt Let_def)
next
  case (Cons x v)
  then have "x \<in> set ''|)&;''" using assms by (simp add: stops_def)
  then show ?thesis
    unfolding Cons by (subst parseargs.simps) (auto simp: peek_char symbols_def)
qed

lemma parse_args:
  assumes "\<forall>w \<in> set (w # ws). is_word w" "\<forall>x \<in> set rs. is_word (redir_file x)" "stops ''|)&;'' r" "n + length (w # ws) < 10"
  shows "\<exists>c'. parseargs n (EXEC as) (words_text (w # ws) @ redirs_text rs @ r) = Parsed c' r \<and>
    map_cmd span_text c' = foldl redir_cmd (EXEC (map span_text as @ w # ws)) rs"
  using assms(1,4)
proof (induction ws arbitrary: w n as)
  case Nil
  let ?r = "redirs_text rs @ r"
  have b: "?r = [] \<or> \<not> wordc (hd ?r)"
    using assms(3) by (cases rs; cases "hd rs") (auto simp: stops_def)
  obtain c' where c: "parseredirs (EXEC (as @ [(w @ ?r, ?r)])) ?r = Parsed c' r"
      "map_cmd span_text c' = foldl redir_cmd (EXEC (map span_text as @ [w])) rs"
    using parse_redirs [OF assms(2,3), of "EXEC (as @ [(w @ ?r, ?r)])"] by auto
  have "parseargs n (EXEC as) (w @ ?r) = parseargs (n + 1) c' r"
    using Nil c(1) peek_word [of w "''|)&;''" ?r] gettoken_is_word [of w ?r, OF _ b]
    by (simp add: parseargs.simps [of n _ "w @ ?r"] symbols_def)
  then show ?case using c(2) parseargs_stops [OF assms(3)] by simp
next
  case (Cons v ws)
  let ?r = "v @ words_text ws @ redirs_text rs @ r"
  let ?a = "(w @ CHR '' '' # ?r, CHR '' '' # ?r)"
  have w: "is_word w" "is_word v" using Cons.prems(1) by simp_all
  have "parseargs n (EXEC as) (w @ CHR '' '' # ?r) = parseargs (n + 1) (EXEC (as @ [?a])) ?r"
    using w Cons.prems(2) peek_word [of w "''|)&;''" "CHR '' '' # ?r"] gettoken_is_word [of w "CHR '' '' # ?r"]
      parseredirs_word [of v "EXEC (as @ [?a])" "words_text ws @ redirs_text rs @ r"]
    by (simp add: parseargs.simps [of n _ "w @ CHR '' '' # ?r"] symbols_def)
  moreover obtain c' where "parseargs (n + 1) (EXEC (as @ [?a])) ?r = Parsed c' r"
      "map_cmd span_text c' = foldl redir_cmd (EXEC (map span_text (as @ [?a]) @ v # ws)) rs"
    using Cons.IH [of v "n + 1" "as @ [?a]"] Cons.prems by auto
  ultimately show ?case by simp
qed

lemma parse_simple:
  assumes "part_ok (Simple ws rs)" "stops ''|)&;'' r" "parseexec k (part_text (Simple ws rs) @ r) \<noteq> Spent"
  shows "\<exists>c. parseexec k (part_text (Simple ws rs) @ r) = Parsed c r \<and> map_cmd span_text c = part_cmd (Simple ws rs)"
proof -
  let ?t = "words_text ws @ redirs_text rs @ r"
  obtain j where k: "k = Suc j" using assms(3) by (cases k) auto
  have o: "set ws \<subseteq> Collect is_word" "\<forall>x \<in> set rs. is_word (redir_file x)" "length ws < 10" using assms(1) by auto
  have "\<exists>q. peek ?t ''('' = (False, q) \<and> (\<forall>c. parseredirs c q = parseredirs c ?t)"
  proof (cases ws)
    case Nil
    show ?thesis
    proof (cases rs)
      case Nil
      have "peek r ''('' = (False, r)" by (rule peek_stops [OF assms(2)]) (auto simp: symbols_def)
      then show ?thesis using Nil \<open>ws = []\<close> by simp
    next
      case (Cons x xs)
      then show ?thesis using \<open>ws = []\<close> by (cases x) (auto simp: peek_char symbols_def)
    qed
  next
    case (Cons w vs)
    then show ?thesis using o(1) peek_word [of w "''(''" "words_text vs @ redirs_text rs @ r"] by (simp add: symbols_def)
  qed
  then have e: "parseexec k ?t = bindp (parseredirs (EXEC []) ?t) (\<lambda>c q. parseargs 0 c q)" using k by auto
  show ?thesis
  proof (cases ws)
    case Nil
    then show ?thesis using e parse_redirs [OF o(2) assms(2), of "EXEC []"] parseargs_stops [OF assms(2)] by auto
  next
    case (Cons w vs)
    have "parseredirs (EXEC []) ?t = Parsed (EXEC []) (w @ words_text vs @ redirs_text rs @ r)"
      using Cons o(1) by (simp add: parseredirs_word)
    then show ?thesis
      using e Cons o parse_args [of w vs rs r 0 "[]"] assms(2) by auto
  qed
qed

lemma parsebacks_text:
  assumes "stops '');'' r"
  shows "parsebacks c (replicate n (CHR ''&'') @ r) = ((BACK ^^ n) c, r)"
proof (induction n arbitrary: c)
  case 0
  have "peek r ''&'' = (False, r)" by (rule peek_stops [OF assms]) (auto simp: symbols_def)
  then show ?case by (simp add: parsebacks.simps)
next
  case (Suc n)
  have "skip (replicate n (CHR ''&'') @ r) = replicate n (CHR ''&'') @ r"
    using skip_stops [of "'');''" r] assms by (cases n) (auto simp: symbols_def)
  then show ?case
    using Suc [of "BACK c"] by (subst parsebacks.simps) (simp add: peek_char symbols_def gettoken_alt Let_def funpow_swap1)
qed

lemma parse_skip [simp]:
  "parseexec k (skip r) = parseexec k r" "parsepipe k (skip r) = parsepipe k r" "parseline k (skip r) = parseline k r"
proof -
  show e: "parseexec k (skip r) = parseexec k r" for k by (cases k) simp_all
  show p: "parsepipe k (skip r) = parsepipe k r" for k by (cases k) (simp_all add: e)
  show "parseline k (skip r) = parseline k r" by (cases k) (simp_all add: p)
qed

lemma symbol_token:
  assumes "c \<in> {CHR ''|'', CHR ''('', CHR '')'', CHR '';'', CHR ''&''}"
  shows "rest_token (c # r) = skip r" "peek (c # r) toks = (strchr toks c \<noteq> None, c # r)"
proof -
  have "c \<in> set symbols" "c \<noteq> NUL" "\<not> wordc c" "c \<noteq> CHR ''>''" using assms by (auto simp: symbols_def)
  then show "rest_token (c # r) = skip r" "peek (c # r) toks = (strchr toks c \<noteq> None, c # r)"
    by (simp_all add: gettoken_alt Let_def peek_char)
qed

lemma stops_weaken: "stops cs r \<Longrightarrow> set cs \<subseteq> set ds \<Longrightarrow> stops ds r"
  by (auto simp: stops_def)

abbreviation (input) parses :: "span cmd parsed \<Rightarrow> string \<Rightarrow> string cmd \<Rightarrow> bool" where
  "parses m r d \<equiv> m \<noteq> Spent \<longrightarrow> (\<exists>c. m = Parsed c r \<and> map_cmd span_text c = d)"

lemma map_cmd_backs: "map_cmd f ((BACK ^^ n) c) = (BACK ^^ n) (map_cmd f c)"
  by (induction n) simp_all

lemma parse_line_text:
  assumes p: "\<And>k r. stops '')&;'' r \<Longrightarrow> parses (parsepipe k (pline_text p @ r)) r (pline_cmd p)" and r: "stops '')'' r"
  shows "parses (parseline k (line_text (Line p n) @ r)) r (line_cmd (Line p n))"
proof (cases k)
  case (Suc j)
  let ?r = "replicate n (CHR ''&'') @ r"
  have b: "parsebacks c ?r = ((BACK ^^ n) c, r)" for c by (rule parsebacks_text) (use r in \<open>auto simp: stops_def\<close>)
  have s: "peek r '';'' = (False, r)" by (rule peek_stops [OF r]) (auto simp: symbols_def)
  have "stops '')&;'' ?r" using r by (cases n) (auto simp: stops_def)
  then show ?thesis using p [of ?r j] b s Suc by (auto simp: map_cmd_backs)
qed simp

lemma parse_seq_text:
  assumes p: "\<And>k r. stops '')&;'' r \<Longrightarrow> parses (parsepipe k (pline_text p @ r)) r (pline_cmd p)"
    and l: "\<And>k r. stops '')'' r \<Longrightarrow> parses (parseline k (line_text l @ r)) r (line_cmd l)" and r: "stops '')'' r"
  shows "parses (parseline k (line_text (Seq p n l) @ r)) r (line_cmd (Seq p n l))"
proof (cases k)
  case (Suc j)
  let ?q = "CHR '';'' # line_text l @ r"
  have b: "parsebacks c (replicate n (CHR ''&'') @ ?q) = ((BACK ^^ n) c, ?q)" for c
    by (rule parsebacks_text) (simp add: stops_def)
  have "stops '')&;'' (replicate n (CHR ''&'') @ ?q)" by (cases n) (auto simp: stops_def)
  then show ?thesis
    using p [of "replicate n (CHR ''&'') @ ?q" j] l [OF r, of j] b Suc
    by (cases "parsepipe j (pline_text p @ replicate n (CHR ''&'') @ ?q)"; cases "parseline j (line_text l @ r)")
       (auto simp: symbol_token map_cmd_backs)
qed simp

lemma parse_last_text:
  assumes u: "\<And>k r. stops ''|)&;'' r \<Longrightarrow> parses (parseexec k (part_text u @ r)) r (part_cmd u)" and r: "stops '')&;'' r"
  shows "parses (parsepipe k (pline_text (Last u) @ r)) r (pline_cmd (Last u))"
proof (cases k)
  case (Suc j)
  have s: "peek r ''|'' = (False, r)" by (rule peek_stops [OF r]) (auto simp: symbols_def)
  have "stops ''|)&;'' r" using r by (auto simp: stops_def)
  then show ?thesis using u [of r j] s Suc by auto
qed simp

lemma parse_bar_text:
  assumes u: "\<And>k r. stops ''|)&;'' r \<Longrightarrow> parses (parseexec k (part_text u @ r)) r (part_cmd u)"
    and p: "\<And>k r. stops '')&;'' r \<Longrightarrow> parses (parsepipe k (pline_text p @ r)) r (pline_cmd p)" and r: "stops '')&;'' r"
  shows "parses (parsepipe k (pline_text (Bar u p) @ r)) r (pline_cmd (Bar u p))"
proof (cases k)
  case (Suc j)
  let ?q = "CHR ''|'' # pline_text p @ r"
  have "stops ''|)&;'' ?q" by (simp add: stops_def)
  then show ?thesis
    using u [of ?q j] p [OF r, of j] Suc
    by (cases "parseexec j (part_text u @ ?q)"; cases "parsepipe j (pline_text p @ r)") (auto simp: symbol_token)
qed simp

lemma parse_block_text:
  assumes l: "\<And>k r. stops '')'' r \<Longrightarrow> parses (parseline k (line_text l @ r)) r (line_cmd l)"
    and rs: "\<forall>x \<in> set rs. is_word (redir_file x)" and r: "stops ''|)&;'' r"
  shows "parses (parseexec k (part_text (Block l rs) @ r)) r (part_cmd (Block l rs))"
proof (cases k)
  case (Suc j)
  let ?q = "CHR '')'' # redirs_text rs @ r"
  have e: "parseexec k (part_text (Block l rs) @ r) = parseblock j (CHR ''('' # line_text l @ ?q)"
    using Suc by (simp add: symbol_token)
  show ?thesis
  proof (cases j)
    case (Suc i)
    have "stops '')'' ?q" by (simp add: stops_def)
    then show ?thesis
      using l [of ?q i] Suc e parse_redirs [OF rs r]
      by (cases "parseline i (line_text l @ ?q)") (auto simp: symbol_token, metis)
  qed (use e in simp)
qed simp

lemma parse_text:
  shows "line_ok l \<Longrightarrow> stops '')'' r \<Longrightarrow> parses (parseline k (line_text l @ r)) r (line_cmd l)"
    and "pline_ok p \<Longrightarrow> stops '')&;'' r \<Longrightarrow> parses (parsepipe k (pline_text p @ r)) r (pline_cmd p)"
    and "part_ok u \<Longrightarrow> stops ''|)&;'' r \<Longrightarrow> parses (parseexec k (part_text u @ r)) r (part_cmd u)"
proof (induction l and p and u arbitrary: k r and k r and k r)
  case (Line p n)
  then show ?case using parse_line_text [of p r k n] by simp
next
  case (Seq p n l)
  then show ?case using parse_seq_text [of p l r k n] by simp
next
  case (Last u)
  then show ?case using parse_last_text [of u r k] by simp
next
  case (Bar u p)
  then show ?case using parse_bar_text [of u p r k] by simp
next
  case (Simple ws rs)
  then show ?case using parse_simple [of ws rs r k] by blast
next
  case (Block l rs)
  then show ?case using parse_block_text [of l rs r k] by simp
qed

lemma parsecmd_Inr:
  assumes "parsecmd s = Some (Inr (c, buf))"
  shows "spans_in (spans c) s []" "buf = nulterminate c s"
proof -
  obtain r where r: "parseline (4 * length s + 4) s = Parsed c r" "snd (peek r []) = []" "buf = nulterminate c s"
    using assms by (auto simp: parsecmd_def split: parsed.splits prod.splits if_splits)
  then have "spans_in (spans c) s r" using parse_adds [of s "4 * length s + 4"] by auto
  moreover have "suffix [] r" by simp
  ultimately show "spans_in (spans c) s []" "buf = nulterminate c s" using spans_in_skip r(3) by blast+
qed

subsection \<open>Properties\<close>

text \<open>C37. The parser returns for every command line: the recursion of the source ends, with a command or with one of the panics.\<close>

theorem parsecmd_total: "\<exists>r. parsecmd s = Some r"
  using parsecmd_returns [of s] by auto

text \<open>If a line parses, every argument and file name of the command is, as a zero-terminated string in the line after the zeros
  were written, exactly the word that the parser found there.\<close>

lemma parsecmd_strings:
  assumes "parsecmd s = Some (Inr (c, buf))" "x \<in> spans c" "NUL \<notin> set s"
  shows "takeWhile (\<lambda>c. c \<noteq> NUL) (drop (length s - length (fst x)) buf) = span_text x"
  using string_in_line [OF parsecmd_Inr(1) [OF assms(1)] assms(2,3)] parsecmd_Inr(2) [OF assms(1)] by simp

text \<open>C31. Printing a command line and parsing the text gives the command back, for every line of lists, background
  commands, pipelines, blocks, words and redirections with at most nine words in a simple command.\<close>

theorem parsecmd_print:
  assumes "line_ok l"
  shows "\<exists>c buf. parsecmd (line_text l) = Some (Inr (c, buf)) \<and> map_cmd span_text c = line_cmd l"
proof -
  have "parseline (4 * length (line_text l) + 4) (line_text l) \<noteq> Spent"
    using parse_returns [of "line_text l" "4 * length (line_text l) + 4"] by simp
  then obtain c where "parseline (4 * length (line_text l) + 4) (line_text l) = Parsed c []" "map_cmd span_text c = line_cmd l"
    using parse_text(1) [OF assms, of "[]" "4 * length (line_text l) + 4"] by (auto simp: stops_def)
  then show ?thesis by (simp add: parsecmd_def)
qed

theorem parsecmd_print_witness:
  "\<exists>c buf. parsecmd (line_text (Seq (Bar (Simple [''cat''] [In ''f'']) (Last (Simple [''wc''] []))) 1
      (Line (Last (Block (Line (Last (Simple [''ls''] [])) 0) [Out ''g''])) 0))) = Some (Inr (c, buf)) \<and>
    map_cmd span_text c = line_cmd (Seq (Bar (Simple [''cat''] [In ''f'']) (Last (Simple [''wc''] []))) 1
      (Line (Last (Block (Line (Last (Simple [''ls''] [])) 0) [Out ''g''])) 0))"
  by (rule parsecmd_print) code_simp

end
