(* ===== verification/Shell.thy ===== *)
theory Shell
  imports Parse
begin

text \<open>
  The shell (\<open>sh.c\<close>, apart from its parser): the line editor with its history (\<open>getcmd\<close>), the execution of commands
  (\<open>runcmd\<close>) and the main loop. The standard input is the list of characters to come. What \<open>runcmd\<close> does is a
  tree of system calls: a call is followed by what the program does for every result of it, so that both
  returns of \<open>fork\<close> are branches of the tree. Reading past the history or writing past \<open>current_dir\<close> is undefined in C; the
  first is shown not to happen and the second ends the model with \<open>None\<close>.

  Shown: the editor implements a plain editor on lines, whatever is typed, and keeps the last ten lines; an empty line ends
  the shell; every program that a command starts has its three standard descriptors and no other, connected as the pipes
  and redirections of the command say.
\<close>

abbreviation (input) HISTORY_SIZE :: nat where "HISTORY_SIZE \<equiv> 10"
abbreviation (input) CMD_BUF_SIZE :: nat where "CMD_BUF_SIZE \<equiv> 100"
abbreviation (input) BS :: char where "BS \<equiv> CHR 0x08"
abbreviation (input) DEL :: char where "DEL \<equiv> CHR 0x7F"
abbreviation (input) ESC :: char where "ESC \<equiv> CHR 0x1B"

subsection \<open>The line editor\<close>

text \<open>\<open>hist\<close> are the first \<open>history_count\<close> entries of the history, \<open>screen\<close> is what was printed.\<close>

record sh =
  cbuf :: string
  ci :: nat
  hist :: "string list"
  hindex :: int
  screen :: string

definition cstr :: "string \<Rightarrow> string" where
  "cstr s = takeWhile (\<lambda>c. c \<noteq> NUL) s"

definition show_text :: "string \<Rightarrow> sh \<Rightarrow> sh" where
  "show_text t s = s\<lparr>screen := screen s @ t\<rparr>"

definition erase_line :: "sh \<Rightarrow> sh" where
  "erase_line s = (show_text (concat (replicate (ci s) [BS, CHR '' '', BS])) s)\<lparr>ci := 0\<rparr>"

definition load_line :: "string \<Rightarrow> sh \<Rightarrow> sh" where
  "load_line h s =
     (let s = erase_line s;
          s = s\<lparr>cbuf := overwrite (cbuf s) 0 (cstr h @ [NUL])\<rparr>;
          s = s\<lparr>ci := length (cstr (cbuf s))\<rparr>
      in show_text (cstr (cbuf s)) s)"

definition arrow :: "char \<Rightarrow> char \<Rightarrow> sh \<Rightarrow> sh" where
  "arrow a b s =
     (if a = CHR ''['' then
        if b = CHR ''A'' then
          (if 0 < length (hist s) \<and> 0 < hindex s then
             let s = s\<lparr>hindex := hindex s - 1\<rparr> in load_line (hist s ! nat (hindex s)) s
           else s)
        else if b = CHR ''B'' then
          (if hindex s < int (length (hist s)) - 1 then
             let s = s\<lparr>hindex := hindex s + 1\<rparr> in load_line (hist s ! nat (hindex s)) s
           else if hindex s = int (length (hist s)) - 1 then
             let s = erase_line (s\<lparr>hindex := hindex s + 1\<rparr>) in s\<lparr>cbuf := (cbuf s)[0 := NUL], ci := 0\<rparr>
           else s)
        else s
      else s)"

definition save_history :: "string \<Rightarrow> string list \<Rightarrow> string list" where
  "save_history l h = (if length h < HISTORY_SIZE then h @ [cstr l] else tl h @ [cstr l])"

definition end_line :: "sh \<Rightarrow> sh" where
  "end_line s =
     (let s = show_text [NL] (s\<lparr>cbuf := (cbuf s)[ci s := NUL]\<rparr>);
          s = (if 0 < ci s then s\<lparr>hist := save_history (cbuf s) (hist s)\<rparr> else s)
      in s\<lparr>hindex := int (length (hist s))\<rparr>)"

fun getcmd_loop :: "nat \<Rightarrow> string \<Rightarrow> sh \<Rightarrow> sh \<times> string" where
  "getcmd_loop nbuf [] s = (s, [])"
| "getcmd_loop nbuf (c # inp) s =
     (if c = NL \<or> c = CR then (end_line s, inp)
      else if c = BS \<or> c = DEL then
        getcmd_loop nbuf inp (if 0 < ci s then show_text [BS, CHR '' '', BS] (s\<lparr>ci := ci s - 1\<rparr>) else s)
      else if c = ESC then
        (case inp of a # b # inp' \<Rightarrow> getcmd_loop nbuf inp' (arrow a b s) | _ \<Rightarrow> (s, []))
      else getcmd_loop nbuf inp (if ci s < nbuf - 1 then s\<lparr>cbuf := (cbuf s)[ci s := c], ci := ci s + 1\<rparr> else s))"

definition getcmd :: "nat \<Rightarrow> string \<Rightarrow> string \<Rightarrow> sh \<Rightarrow> int \<times> sh \<times> string" where
  "getcmd nbuf current_dir inp s =
     (let s = show_text (''[ducko@xv6:'' @ current_dir @ '']$ '') s;
          s = s\<lparr>cbuf := replicate nbuf NUL, ci := 0\<rparr>;
          (s, inp) = getcmd_loop nbuf inp s
      in (if cbuf s ! 0 = NUL \<and> ci s = 0 then - 1 else 0, s, inp))"

subsection \<open>Running a command\<close>

datatype sys = SClose nat | SOpen string nat | SFork | SWait | SPipe | SDup nat | SExec string "string list" | SPrint string

text \<open>A result is the value returned and the two descriptors that \<open>pipe\<close> stores.\<close>

type_synonym res = "int \<times> nat \<times> nat"

datatype prog = PExit | PCall sys "res \<Rightarrow> prog"

definition sh_panic :: "string \<Rightarrow> prog" where
  "sh_panic s = PCall (SPrint (s @ [NL])) (\<lambda>_. PExit)"

text \<open>\<open>fork1\<close>: what the child does and what the parent does.\<close>

definition fork1 :: "prog \<Rightarrow> prog \<Rightarrow> prog" where
  "fork1 child par =
     PCall SFork (\<lambda>(r, _). if r = - 1 then sh_panic ''fork'' else if r = 0 then child else par)"

definition calls :: "sys list \<Rightarrow> prog \<Rightarrow> prog" where
  "calls ss p = foldr (\<lambda>c q. PCall c (\<lambda>_. q)) ss p"

definition exec_path :: "string \<Rightarrow> string" where
  "exec_path a = (if ch0 a \<noteq> CHR ''/'' then ''/'' @ a else a)"

primrec runcmd :: "string cmd \<Rightarrow> prog" where
  "runcmd (EXEC argv) =
     (if argv = [] then PExit
      else calls [SExec (exec_path (argv ! 0)) argv, SPrint (''exec '' @ argv ! 0 @ '' failed'' @ [NL])] PExit)"
| "runcmd (REDIR c file mode fd) =
     PCall (SClose fd) (\<lambda>_. PCall (SOpen file mode) (\<lambda>(r, _).
       if r < 0 then calls [SPrint (''open '' @ file @ '' failed'' @ [NL])] PExit else runcmd c))"
| "runcmd (LIST l r) = fork1 (runcmd l) (calls [SWait] (runcmd r))"
| "runcmd (PIPE l r) =
     PCall SPipe (\<lambda>(x, p0, p1).
       if x < 0 then sh_panic ''pipe''
       else fork1 (calls [SClose 1, SDup p1, SClose p0, SClose p1] (runcmd l))
         (fork1 (calls [SClose 0, SDup p0, SClose p0, SClose p1] (runcmd r))
           (calls [SClose p0, SClose p1, SWait, SWait] PExit)))"
| "runcmd (BACK c) = fork1 (runcmd c) PExit"

subsection \<open>The main loop\<close>

text \<open>What the shell does with a line: change the directory, or fork a child that runs the command. \<open>chdir\<close> tells
  which calls of \<open>chdir\<close> succeed.\<close>

datatype act = Cd string | Run "(string + span cmd \<times> string) option"

definition strcat_dir :: "string \<Rightarrow> string \<Rightarrow> string option" where
  "strcat_dir dst src = (if length dst + length src < 100 then Some (dst @ src) else None)"

definition cd_dir :: "string \<Rightarrow> string \<Rightarrow> string option" where
  "cd_dir current_dir arg =
     (if strcmp arg ''/'' = 0 \<or> strcmp arg ''..'' = 0 then Some ''/''
      else (case (if strcmp current_dir ''/'' \<noteq> 0 then strcat_dir current_dir ''/'' else Some current_dir) of
          None \<Rightarrow> None
        | Some d \<Rightarrow> strcat_dir d arg))"

lemma getcmd_loop_length: "getcmd_loop nbuf inp s = (t, rest) \<Longrightarrow> length rest \<le> length inp"
  by (induction nbuf inp s rule: getcmd_loop.induct) (auto split: if_splits list.splits)

lemma getcmd_loop_less: "getcmd_loop nbuf (c # inp) s = (t, rest) \<Longrightarrow> length rest < length (c # inp)"
  using getcmd_loop_length [of nbuf inp _ t rest]
  by (auto split: if_splits list.splits dest!: getcmd_loop_length)

lemma getcmd_less:
  assumes "(r, t, rest) = getcmd nbuf d inp s" "\<not> r < 0" "0 < nbuf"
  shows "length rest < length inp"
proof (cases inp)
  case Nil
  then show ?thesis using assms by (auto simp: getcmd_def Let_def show_text_def)
next
  case (Cons c cs)
  then show ?thesis
    using assms getcmd_loop_less [of nbuf c cs] by (auto simp: getcmd_def Let_def split: prod.splits)
qed

function sh_main :: "(string \<Rightarrow> bool) \<Rightarrow> string \<Rightarrow> string \<Rightarrow> sh \<Rightarrow> (act list \<times> sh) option" where
  "sh_main chdir current_dir inp s =
     (case getcmd 100 current_dir inp s of (r, s, inp') \<Rightarrow>
      if r < 0 then Some ([], s)
      else let buf = cstr (cbuf s) in
        if take 3 buf = ''cd '' then
          let arg = drop 3 buf in
          if \<not> chdir arg then
            map_option (apfst (Cons (Cd arg))) (sh_main chdir current_dir inp' (show_text (''cannot cd '' @ arg @ [NL]) s))
          else (case cd_dir current_dir arg of None \<Rightarrow> None
            | Some d \<Rightarrow> map_option (apfst (Cons (Cd arg))) (sh_main chdir d inp' s))
        else map_option (apfst (Cons (Run (parsecmd buf)))) (sh_main chdir current_dir inp' s))"
  by pat_completeness auto
termination
  by (relation "measure (\<lambda>(chdir, d, inp, s). length inp)") (auto dest: getcmd_less)

declare sh_main.simps [simp del]

subsection \<open>Descriptors\<close>

datatype obj = Console | OFile string nat | PipeR "nat list" | PipeW "nat list"

type_synonym fds = "nat \<Rightarrow> obj option"

definition lowfd :: "fds \<Rightarrow> nat option" where
  "lowfd F = find_slot (\<lambda>i. F i = None) 0 16"

text \<open>The programs that a tree of calls executes and their descriptors, if no call fails that has what it needs. The list of
  numbers tells the processes apart, and the pipes by the process that makes them.\<close>

primrec spawn :: "prog \<Rightarrow> nat list \<Rightarrow> fds \<Rightarrow> (string \<times> string list \<times> fds) list" where
  "spawn PExit p F = []"
| "spawn (PCall c k) p F = (case c of
     SClose n \<Rightarrow> spawn (k (0, 0, 0)) p (F(n := None))
   | SOpen f m \<Rightarrow> (case lowfd F of None \<Rightarrow> spawn (k (- 1, 0, 0)) p F | Some d \<Rightarrow> spawn (k (int d, 0, 0)) p (F(d \<mapsto> OFile f m)))
   | SFork \<Rightarrow> spawn (k (0, 0, 0)) (0 # p) F @ spawn (k (1, 0, 0)) (1 # p) F
   | SWait \<Rightarrow> spawn (k (1, 0, 0)) p F
   | SPipe \<Rightarrow> (case lowfd F of None \<Rightarrow> spawn (k (- 1, 0, 0)) p F
       | Some a \<Rightarrow> (case lowfd (F(a \<mapsto> PipeR p)) of None \<Rightarrow> spawn (k (- 1, 0, 0)) p F
         | Some b \<Rightarrow> spawn (k (0, a, b)) p (F(a \<mapsto> PipeR p, b \<mapsto> PipeW p))))
   | SDup n \<Rightarrow> (case (F n, lowfd F) of (Some x, Some d) \<Rightarrow> spawn (k (int d, 0, 0)) p (F(d \<mapsto> x)) | _ \<Rightarrow> spawn (k (- 1, 0, 0)) p F)
   | SExec path argv \<Rightarrow> [(path, argv, F)]
   | SPrint t \<Rightarrow> spawn (k (0, 0, 0)) p F)"

text \<open>What the command asks for.\<close>

primrec plumb :: "string cmd \<Rightarrow> nat list \<Rightarrow> fds \<Rightarrow> (string \<times> string list \<times> fds) list" where
  "plumb (EXEC argv) p F = (if argv = [] then [] else [(exec_path (argv ! 0), argv, F)])"
| "plumb (REDIR c file mode fd) p F = plumb c p (F(fd \<mapsto> OFile file mode))"
| "plumb (LIST l r) p F = plumb l (0 # p) F @ plumb r (1 # p) F"
| "plumb (PIPE l r) p F = plumb l (0 # p) (F(1 \<mapsto> PipeW p)) @ plumb r (0 # 1 # p) (F(0 \<mapsto> PipeR p))"
| "plumb (BACK c) p F = plumb c (0 # p) F"

primrec std_redirs :: "'s cmd \<Rightarrow> bool" where
  "std_redirs (EXEC argv) \<longleftrightarrow> True"
| "std_redirs (REDIR c file mode fd) \<longleftrightarrow> fd \<le> 1 \<and> std_redirs c"
| "std_redirs (LIST l r) \<longleftrightarrow> std_redirs l \<and> std_redirs r"
| "std_redirs (PIPE l r) \<longleftrightarrow> std_redirs l \<and> std_redirs r"
| "std_redirs (BACK c) \<longleftrightarrow> std_redirs c"

definition std_fds :: "fds \<Rightarrow> bool" where
  "std_fds F \<longleftrightarrow> (\<forall>n. F n \<noteq> None \<longleftrightarrow> n < 3)"

lemma std_fds_upd: "std_fds F \<Longrightarrow> d < 3 \<Longrightarrow> std_fds (F(d \<mapsto> x))"
  by (simp add: std_fds_def)

lemma plumb_std: "std_redirs c \<Longrightarrow> std_fds F \<Longrightarrow> (path, argv, G) \<in> set (plumb c p F) \<Longrightarrow> std_fds G"
proof (induction c arbitrary: p F)
  case (REDIR c f m d)
  then show ?case using std_fds_upd [of F d] by auto
next
  case (PIPE l r)
  have "std_fds (F(1 \<mapsto> PipeW p))" "std_fds (F(0 \<mapsto> PipeR p))" using PIPE.prems(2) by (simp_all add: std_fds_upd)
  then show ?case using PIPE.IH(1) [of "F(1 \<mapsto> PipeW p)" "0 # p"] PIPE.IH(2) [of "F(0 \<mapsto> PipeR p)" "0 # 1 # p"] PIPE.prems by (auto simp del: fun_upd_apply)
qed (auto split: if_splits)

lemma std_fds_none: "std_fds F \<Longrightarrow> 3 \<le> n \<Longrightarrow> F n = None"
  unfolding std_fds_def using not_le by blast

lemma lowfd_eq: "d < 16 \<Longrightarrow> F d = None \<Longrightarrow> (\<And>j. j < d \<Longrightarrow> F j \<noteq> None) \<Longrightarrow> lowfd F = Some d"
  unfolding lowfd_def by (rule find_slot_eqI) auto

lemma lowfd_std:
  assumes "std_fds F"
  shows "lowfd F = Some 3" "lowfd (F(3 \<mapsto> x)) = Some 4" "d < 3 \<Longrightarrow> lowfd (F(3 \<mapsto> x, 4 \<mapsto> y, d := None)) = Some d"
    "d < 3 \<Longrightarrow> lowfd (F(d := None)) = Some d"
  using assms std_fds_none [OF assms, of 3] std_fds_none [OF assms, of 4]
  by (auto simp: std_fds_def intro!: lowfd_eq)

lemma calls_simps [simp]: "calls [] p = p" "calls (c # cs) p = PCall c (\<lambda>_. calls cs p)"
  by (simp_all add: calls_def)

lemma std_closed:
  assumes "std_fds F" "d < 3"
  shows "F(3 \<mapsto> x, 4 \<mapsto> y, d := None, d \<mapsto> z, 3 := None, 4 := None) = F(d \<mapsto> z)"
  using assms(2) std_fds_none [OF assms(1), of 3] std_fds_none [OF assms(1), of 4] by (auto simp: fun_eq_iff)

lemma spawn_plumb: "std_redirs c \<Longrightarrow> std_fds F \<Longrightarrow> spawn (runcmd c) p F = plumb c p F"
proof (induction c arbitrary: p F)
  case (EXEC argv)
  then show ?case by simp
next
  case (REDIR c f m d)
  then show ?case by (simp add: lowfd_std std_fds_upd)
next
  case (PIPE l r)
  have d: "(0 :: nat) < 3" "(1 :: nat) < 3" by simp_all
  show ?case
    using PIPE lowfd_std [OF PIPE.prems(2)] std_closed [OF PIPE.prems(2) d(1)] std_closed [OF PIPE.prems(2) d(2)]
    by (simp add: fork1_def std_fds_upd)
next
  case (LIST l r)
  then show ?case by (simp add: fork1_def)
next
  case (BACK c)
  then show ?case by (simp add: fork1_def)
qed

text \<open>The parser makes no other redirections.\<close>

definition std_parsed :: "span cmd parsed \<Rightarrow> bool" where
  "std_parsed m \<longleftrightarrow> (case m of Parsed c r \<Rightarrow> std_redirs c | _ \<Rightarrow> True)"

lemma std_parsed_simps [simp]: "std_parsed (Parsed c r) = std_redirs c" "std_parsed (Bad e)" "std_parsed Spent"
  by (simp_all add: std_parsed_def)

lemma std_parsed_bind:
  "std_parsed m \<Longrightarrow> (\<And>c r. std_redirs c \<Longrightarrow> std_parsed (f c r)) \<Longrightarrow> std_parsed (bindp m f)"
  by (cases m) auto

lemma std_parseredirs: "std_redirs c \<Longrightarrow> std_parsed (parseredirs c ps)"
proof (induction c ps rule: parseredirs.induct)
  case (1 c ps)
  then show ?case unfolding parseredirs.simps [of c ps] by (auto split: prod.split)
qed

lemma std_add_arg: "std_redirs c \<Longrightarrow> std_redirs (add_arg a c)"
  by (induction c) auto

lemma std_parseargs: "std_redirs c \<Longrightarrow> std_parsed (parseargs n c ps)"
proof (induction "10 - n" arbitrary: n c ps rule: less_induct)
  case less
  have "std_parsed (bindp (parseredirs (add_arg a c) r) (parseargs (n + 1)))" if "\<not> 10 \<le> n + 1" for a r
    by (rule std_parsed_bind) (use less that in \<open>auto intro: std_parseredirs std_add_arg\<close>)
  then show ?case using less.prems unfolding parseargs.simps [of n c ps] by (auto split: prod.split)
qed

lemma std_parsebacks: "std_redirs c \<Longrightarrow> std_redirs (fst (parsebacks c ps))"
proof (induction c ps rule: parsebacks.induct)
  case (1 c ps)
  then show ?case unfolding parsebacks.simps [of c ps] by (auto split: prod.split)
qed

lemma std_parse:
  "std_parsed (parseline k ps) \<and> std_parsed (parsepipe k ps) \<and> std_parsed (parseexec k ps) \<and> std_parsed (parseblock k ps)"
proof (induction k arbitrary: ps)
  case (Suc k)
  have "std_parsed (parseline (Suc k) ps)" unfolding parseline.simps
  proof (rule std_parsed_bind)
    fix c :: "span cmd" and r assume c: "std_redirs c"
    obtain d r1 where d: "parsebacks c r = (d, r1)" by fastforce
    then have "std_redirs d" using std_parsebacks [OF c, of r] by simp
    then show "std_parsed (case parsebacks c r of (cmd, ps) \<Rightarrow> case peek ps '';'' of (yes, ps) \<Rightarrow>
        if yes then bindp (parseline k (snd (snd (gettoken ps)))) (\<lambda>right ps. Parsed (LIST cmd right) ps) else Parsed cmd ps)"
      using Suc d by (auto split: prod.split intro!: std_parsed_bind)
  qed (use Suc in simp)
  moreover have "std_parsed (parsepipe (Suc k) ps)" unfolding parsepipe.simps
    by (rule std_parsed_bind) (use Suc in \<open>auto split: prod.split intro!: std_parsed_bind\<close>)
  moreover have "std_parsed (parseexec (Suc k) ps)" unfolding parseexec.simps
    using Suc by (auto split: prod.split intro!: std_parsed_bind std_parseredirs std_parseargs)
  moreover have "std_parsed (parseblock (Suc k) ps)" unfolding parseblock.simps
    using Suc by (auto split: prod.split intro!: std_parsed_bind std_parseredirs)
  ultimately show ?case by blast
qed simp

lemma std_map_cmd: "std_redirs (map_cmd f c) = std_redirs c"
  by (induction c) simp_all

lemma parsecmd_std: "parsecmd s = Some (Inr (c, buf)) \<Longrightarrow> std_redirs c"
  using std_parse [of "4 * length s + 4" s]
  by (auto simp: parsecmd_def split: parsed.splits prod.splits if_splits)

subsection \<open>The editor on lines\<close>

text \<open>The entry of the history that an arrow key brings and the new place in the history.\<close>

definition recall :: "string list \<Rightarrow> char \<Rightarrow> char \<Rightarrow> int \<Rightarrow> (string \<times> int) option" where
  "recall H a b k =
     (if a = CHR ''['' \<and> b = CHR ''A'' \<and> 0 < k \<and> H \<noteq> [] then Some (H ! nat (k - 1), k - 1)
      else if a = CHR ''['' \<and> b = CHR ''B'' \<and> k < int (length H) - 1 then Some (H ! nat (k + 1), k + 1)
      else if a = CHR ''['' \<and> b = CHR ''B'' \<and> k = int (length H) - 1 then Some ([], k + 1)
      else None)"

text \<open>The line that is typed, whether it is complete, and the input behind it.\<close>

fun edit :: "nat \<Rightarrow> string list \<Rightarrow> string \<Rightarrow> string \<Rightarrow> int \<Rightarrow> (string \<times> bool) \<times> string" where
  "edit n H [] l k = ((l, False), [])"
| "edit n H (c # inp) l k =
     (if c = NL \<or> c = CR then ((l, True), inp)
      else if c = BS \<or> c = DEL then edit n H inp (butlast l) k
      else if c = ESC then
        (case inp of a # b # inp' \<Rightarrow>
           (case recall H a b k of None \<Rightarrow> edit n H inp' l k | Some (l', k') \<Rightarrow> edit n H inp' l' k')
         | _ \<Rightarrow> ((l, False), []))
      else edit n H inp (if length l < n - 1 then l @ [c] else l) k)"

text \<open>The buffer holds the line; what lies behind it is left over from before.\<close>

definition held :: "nat \<Rightarrow> string list \<Rightarrow> string \<Rightarrow> int \<Rightarrow> sh \<Rightarrow> bool" where
  "held n H l k s \<longleftrightarrow> length (cbuf s) = n \<and> ci s = length l \<and> take (length l) (cbuf s) = l \<and> length l < n \<and>
     NUL \<notin> set l \<and> hist s = H \<and> hindex s = k"

definition hist_ok :: "nat \<Rightarrow> string list \<Rightarrow> bool" where
  "hist_ok n H \<longleftrightarrow> (\<forall>h \<in> set H. NUL \<notin> set h \<and> length h < n)"

lemma cstr_text: "NUL \<notin> set h \<Longrightarrow> cstr (h @ NUL # r) = h" "NUL \<notin> set h \<Longrightarrow> cstr h = h"
  by (simp_all add: cstr_def takeWhile_NUL takeWhile_tail)

lemma held_load:
  assumes "held n H l k s" "NUL \<notin> set h" "length h < n"
  shows "held n H h k' (load_line h (s\<lparr>hindex := k'\<rparr>))"
  using assms
  by (auto simp: held_def load_line_def erase_line_def show_text_def Let_def overwrite_def cstr_text)

lemma held_clear:
  assumes "held n H l k s" "0 < n"
  shows "held n H [] k' ((erase_line (s\<lparr>hindex := k'\<rparr>))\<lparr>cbuf := (cbuf (erase_line (s\<lparr>hindex := k'\<rparr>)))[0 := NUL], ci := 0\<rparr>)"
  using assms by (auto simp: held_def erase_line_def show_text_def)

lemma held_arrow:
  assumes "held n H l k s" "hist_ok n H" "- 1 \<le> k" "k \<le> int (length H)" "0 < n"
  shows "case recall H a b k of None \<Rightarrow> held n H l k (arrow a b s)
    | Some (l', k') \<Rightarrow> held n H l' k' (arrow a b s) \<and> - 1 \<le> k' \<and> k' \<le> int (length H)"
proof -
  have s: "hist s = H" "hindex s = k" using assms(1) by (auto simp: held_def)
  have h: "NUL \<notin> set (H ! nat j)" "length (H ! nat j) < n" if "0 \<le> j" "j < int (length H)" for j
    using assms(2) that nth_mem [of "nat j" H] by (auto simp: hist_ok_def)
  show ?thesis
    using assms s h [of "k - 1"] h [of "k + 1"] held_load [OF assms(1)] held_clear [OF assms(1,5)]
    by (auto simp: recall_def arrow_def Let_def)
qed

lemma held_char:
  assumes "held n H l k s" "c \<noteq> NUL"
  shows "held n H (if length l < n - 1 then l @ [c] else l) k
    (if ci s < n - 1 then s\<lparr>cbuf := (cbuf s)[ci s := c], ci := ci s + 1\<rparr> else s)"
  using assms by (auto simp: held_def take_Suc_conv_app_nth)

lemma held_back:
  assumes "held n H l k s"
  shows "held n H (butlast l) k (if 0 < ci s then show_text [BS, CHR '' '', BS] (s\<lparr>ci := ci s - 1\<rparr>) else s)"
proof -
  have "take (length l - 1) (cbuf s) = butlast (take (length l) (cbuf s))"
    using assms butlast_take [of "length l" "cbuf s"] by (simp add: held_def)
  then show ?thesis
    using assms in_set_butlastD [of NUL l] by (auto simp: held_def show_text_def)
qed

lemma getcmd_loop_edit:
  assumes "held n H l k s" "hist_ok n H" "- 1 \<le> k" "k \<le> int (length H)" "0 < n" "NUL \<notin> set inp"
    and "edit n H inp l k = ((l', fin), rest)"
  shows "\<exists>t k'. held n H l' k' t \<and> getcmd_loop n inp s = (if fin then end_line t else t, rest)"
  using assms
proof (induction n inp s arbitrary: l k rule: getcmd_loop.induct)
  case (1 n s)
  then show ?case by auto
next
  case (2 n c inp s)
  have n: "c \<noteq> NUL" "NUL \<notin> set inp" using 2(9) by auto
  consider "c = NL \<or> c = CR" | "c \<noteq> NL \<and> c \<noteq> CR" "c = BS \<or> c = DEL" | "c = ESC"
    | "c \<noteq> NL \<and> c \<noteq> CR" "\<not> (c = BS \<or> c = DEL)" "c \<noteq> ESC" by blast
  then show ?case
  proof cases
    case 1
    then show ?thesis using 2(4,10) by auto
  next
    case 2
    then show ?thesis using "2.IH"(1) [OF _ _ held_back [OF "2.prems"(1)] "2.prems"(2-5) n(2)] "2.prems"(7) by simp
  next
    case 3
    show ?thesis
    proof (cases inp rule: remdups_adj.cases)
      case (3 a b inp')
      have i: "NUL \<notin> set inp'" using n 3 by simp
      note h = held_arrow [OF "2.prems"(1-5), of a b]
      have e: "edit n H (c # inp) l k =
          (case recall H a b k of None \<Rightarrow> edit n H inp' l k | Some (l', k') \<Rightarrow> edit n H inp' l' k')"
        using \<open>c = ESC\<close> 3 by simp
      have g: "getcmd_loop n (c # inp) s = getcmd_loop n inp' (arrow a b s)" using \<open>c = ESC\<close> 3 by simp
      show ?thesis
      proof (cases "recall H a b k")
        case None
        then show ?thesis
          using "2.IH"(2) [OF _ _ _ 3 refl _ "2.prems"(2-5) i] h e g "2.prems"(7) \<open>c = ESC\<close> by auto
      next
        case (Some x)
        obtain l1 k1 where x: "x = (l1, k1)" by fastforce
        then show ?thesis
          using "2.IH"(2) [OF _ _ _ 3 refl _ "2.prems"(2) _ _ "2.prems"(5) i, of l1 k1] Some h e g "2.prems"(7) \<open>c = ESC\<close> by auto
      qed
    qed (use "2.prems"(1,7) \<open>c = ESC\<close> in auto)
  next
    case 4
    then show ?thesis using "2.IH"(3) [OF _ _ _ held_char [OF "2.prems"(1) n(1)] "2.prems"(2-5) n(2)] "2.prems"(7) by simp
  qed
qed

text \<open>The last ten entries.\<close>

abbreviation (input) last_ten :: "'a list \<Rightarrow> 'a list" where
  "last_ten xs \<equiv> drop (length xs - HISTORY_SIZE) xs"

lemma save_history_last:
  assumes "length H \<le> HISTORY_SIZE" "cstr b = l"
  shows "save_history b H = last_ten (H @ [l])"
  using assms by (cases H) (auto simp: save_history_def)

definition shell_ok :: "sh \<Rightarrow> bool" where
  "shell_ok s \<longleftrightarrow> hist_ok CMD_BUF_SIZE (hist s) \<and> length (hist s) \<le> HISTORY_SIZE \<and> - 1 \<le> hindex s \<and> hindex s \<le> int (length (hist s))"

lemma end_line_held:
  assumes "held n H l k t" "length H \<le> HISTORY_SIZE"
  shows "cstr (cbuf (end_line t)) = l" "ci (end_line t) = length l" "cbuf (end_line t) ! 0 = NUL \<longleftrightarrow> l = []"
    "hist (end_line t) = (if l = [] then H else last_ten (H @ [l]))" "hindex (end_line t) = int (length (hist (end_line t)))"
proof -
  have l: "length l < length (cbuf t)" "take (length l) (cbuf t) = l" "ci t = length l" "NUL \<notin> set l" "hist t = H"
    using assms(1) by (auto simp: held_def)
  have b: "(cbuf t)[length l := NUL] = l @ NUL # drop (Suc (length l)) (cbuf t)"
    using upd_conv_take_nth_drop [OF l(1), of NUL] l(2) by simp
  have e: "cbuf (end_line t) = (cbuf t)[length l := NUL]" using l(3) by (simp add: end_line_def Let_def show_text_def)
  show c: "cstr (cbuf (end_line t)) = l" unfolding e b by (rule cstr_text(1) [OF l(4)])
  show "ci (end_line t) = length l" using l(3) by (simp add: end_line_def Let_def show_text_def)
  show "cbuf (end_line t) ! 0 = NUL \<longleftrightarrow> l = []" unfolding e b using l(4) by (cases l) auto
  show "hist (end_line t) = (if l = [] then H else last_ten (H @ [l]))"
    using save_history_last [OF assms(2), of "cbuf (end_line t)" l] c l(3,5) e
    by (simp add: end_line_def Let_def show_text_def)
  show "hindex (end_line t) = int (length (hist (end_line t)))" by (simp add: end_line_def Let_def show_text_def)
qed

lemma getcmd_line:
  assumes "shell_ok s" "NUL \<notin> set inp" "edit 100 (hist s) inp [] (hindex s) = ((l, True), rest)"
  obtains t where "getcmd 100 d inp s = (if l = [] then - 1 else 0, t, rest)" "cstr (cbuf t) = l"
    "hist t = (if l = [] then hist s else last_ten (hist s @ [l]))" "hindex t = int (length (hist t))"
proof -
  let ?s = "(show_text (''[ducko@xv6:'' @ d @ '']$ '') s)\<lparr>cbuf := replicate 100 NUL, ci := 0\<rparr>"
  have "held 100 (hist s) [] (hindex s) ?s" by (simp add: held_def show_text_def)
  then obtain t k' where t: "held 100 (hist s) l k' t" "getcmd_loop 100 inp ?s = (end_line t, rest)"
    using getcmd_loop_edit [of 100 "hist s" "[]" "hindex s" ?s inp l True rest] assms by (auto simp: shell_ok_def)
  note e = end_line_held [OF t(1)]
  show thesis
    using that [of "end_line t"] t(2) e assms(1) by (simp add: getcmd_def Let_def shell_ok_def)
qed

definition plain :: "string \<Rightarrow> bool" where
  "plain l \<longleftrightarrow> (\<forall>c \<in> set l. c \<notin> {NL, CR, BS, DEL, ESC, NUL}) \<and> length l < CMD_BUF_SIZE"

lemma edit_plain:
  "(\<forall>c \<in> set l. c \<notin> {NL, CR, BS, DEL, ESC, NUL}) \<Longrightarrow> length m + length l < n \<Longrightarrow>
   edit n H (l @ NL # rest) m k = ((m @ l, True), rest)"
  by (induction l arbitrary: m) auto

lemma shell_ok_line:
  assumes "shell_ok s" "plain l" "hist t = (if l = [] then hist s else last_ten (hist s @ [l]))" "hindex t = int (length (hist t))"
  shows "shell_ok t"
proof (cases "l = []")
  case True
  then show ?thesis using assms by (simp add: shell_ok_def)
next
  case False
  then have h: "hist t = last_ten (hist s @ [l])" using assms(3) by simp
  have "set (hist t) \<subseteq> insert l (set (hist s))"
    using set_drop_subset [of "length (hist s @ [l]) - 10" "hist s @ [l]"] unfolding h by simp
  moreover have "NUL \<notin> set l" "length l < 100" using assms(2) by (auto simp: plain_def)
  ultimately have "hist_ok 100 (hist t)" using assms(1) unfolding shell_ok_def hist_ok_def by blast
  moreover have "length (hist t) \<le> 10" unfolding h length_drop by arith
  ultimately show ?thesis using assms(4) by (simp add: shell_ok_def)
qed

lemma last_ten_append: "last_ten (last_ten xs @ ys) = last_ten (xs @ ys)"
  by (cases "length xs \<le> 10") (auto simp: drop_append add.commute)

lemma sh_main_lines:
  assumes "\<forall>l \<in> set ls. plain l \<and> l \<noteq> [] \<and> take 3 l \<noteq> ''cd ''" "shell_ok s" "NUL \<notin> set rest"
  shows "\<exists>t. sh_main chdir d (concat (map (\<lambda>l. l @ [NL]) ls) @ NL # rest) s = Some (map (\<lambda>l. Run (parsecmd l)) ls, t) \<and>
    hist t = last_ten (hist s @ ls)"
  using assms(1,2)
proof (induction ls arbitrary: s)
  case Nil
  have "edit 100 (hist s) (NL # rest) [] (hindex s) = (([], True), rest)" by simp
  from getcmd_line [OF Nil(2) _ this, of d] assms(3)
  obtain t where "getcmd 100 d (NL # rest) s = (- 1, t, rest)" "hist t = hist s" by auto
  then show ?case using Nil(2) by (auto simp: sh_main.simps [of chdir d] shell_ok_def)
next
  case (Cons l ls)
  let ?r = "concat (map (\<lambda>l. l @ [NL]) ls) @ NL # rest"
  have l: "plain l" "l \<noteq> []" "take 3 l \<noteq> ''cd ''" using Cons.prems(1) by auto
  have "edit 100 (hist s) (l @ NL # ?r) [] (hindex s) = ((l, True), ?r)"
    using edit_plain [of l "[]" 100] l(1) by (simp add: plain_def)
  moreover have "NUL \<notin> set (l @ NL # ?r)" using Cons.prems(1) assms(3) by (auto simp: plain_def)
  ultimately obtain t where t: "getcmd 100 d (l @ NL # ?r) s = (0, t, ?r)" "cstr (cbuf t) = l"
      "hist t = last_ten (hist s @ [l])" "hindex t = int (length (hist t))"
    using getcmd_line [OF Cons.prems(2), of "l @ NL # ?r" l ?r d] l(2) by auto
  then have "shell_ok t" using shell_ok_line [OF Cons.prems(2) l(1), of t] l(2) by simp
  then obtain u where "sh_main chdir d ?r t = Some (map (\<lambda>l. Run (parsecmd l)) ls, u)" "hist u = last_ten (hist t @ ls)"
    using Cons.IH [of t] Cons.prems(1) by auto
  moreover have "last_ten (hist t @ ls) = last_ten (hist s @ l # ls)"
    unfolding t(3) using last_ten_append [of "hist s @ [l]" ls] by simp
  ultimately show ?case using t l by (simp add: sh_main.simps [of chdir d "l @ NL # ?r"])
qed

definition demo_sh :: "string list \<Rightarrow> int \<Rightarrow> sh" where
  "demo_sh H k = \<lparr>cbuf = replicate 100 NUL, ci = 0, hist = H, hindex = k, screen = []\<rparr>"

subsection \<open>Properties\<close>

text \<open>C30. Whatever is typed, with arrow keys and deletions in any order, \<open>getcmd\<close> delivers the line that a plain editor on strings
  with the same history gives, leaves the input behind the line, adds a line that is not empty to the history, of which it
  keeps the last ten entries, and returns \<open>-1\<close> exactly for the empty line.\<close>

theorem getcmd_edits:
  assumes "shell_ok s" "NUL \<notin> set inp" "edit 100 (hist s) inp [] (hindex s) = ((l, True), rest)"
  shows "\<exists>t. getcmd 100 d inp s = (if l = [] then - 1 else 0, t, rest) \<and> cstr (cbuf t) = l \<and>
    hist t = (if l = [] then hist s else drop (length (hist s @ [l]) - 10) (hist s @ [l]))"
proof -
  obtain t where "getcmd 100 d inp s = (if l = [] then - 1 else 0, t, rest)" "cstr (cbuf t) = l"
      "hist t = (if l = [] then hist s else drop (length (hist s @ [l]) - 10) (hist s @ [l]))"
    by (rule getcmd_line [OF assms])
  then show ?thesis by (intro exI [of _ t] conjI)
qed

theorem getcmd_edits_witness:
  "\<exists>t. getcmd 100 ''/'' (''x'' @ [BS, ESC] @ ''[A'' @ ''s'' @ [NL] @ ''q'') (demo_sh [''l''] 1) = (if ''ls'' = [] then - 1 else 0, t, ''q'') \<and>
    cstr (cbuf t) = ''ls'' \<and>
    hist t = (if ''ls'' = [] then hist (demo_sh [''l''] 1)
      else drop (length (hist (demo_sh [''l''] 1) @ [''ls'']) - 10) (hist (demo_sh [''l''] 1) @ [''ls'']))"
proof (rule getcmd_edits)
  show "edit 100 (hist (demo_sh [''l''] 1)) (''x'' @ [BS, ESC] @ ''[A'' @ ''s'' @ [NL] @ ''q'') [] (hindex (demo_sh [''l''] 1)) =
      ((''ls'', True), ''q'')" by code_simp
qed (simp_all add: demo_sh_def shell_ok_def hist_ok_def)



text \<open>C32. For every line that parses, the programs that the shell starts are those the command asks for, with the descriptors
  that its pipes and redirections ask for, and every one of them has the descriptors 0, 1 and 2 open and no other.\<close>

theorem runcmd_plumbs:
  assumes "parsecmd s = Some (Inr (c, buf))" "std_fds F"
  shows "spawn (runcmd (map_cmd span_text c)) p F = plumb (map_cmd span_text c) p F \<and>
    (\<forall>(path, argv, G) \<in> set (plumb (map_cmd span_text c) p F). std_fds G)"
proof -
  have c: "std_redirs (map_cmd span_text c)" using parsecmd_std [OF assms(1)] by (simp add: std_map_cmd)
  show ?thesis using spawn_plumb [OF c assms(2)] plumb_std [OF c assms(2)] by blast
qed

theorem runcmd_plumbs_witness:
  "let F = (\<lambda>n. if n < 3 then Some Console else None) in
    spawn (runcmd (PIPE (EXEC [''a'']) (EXEC [''b'']))) [] F =
      [(''/a'', [''a''], F(1 \<mapsto> PipeW [])), (''/b'', [''b''], F(0 \<mapsto> PipeR []))] \<and>
    std_fds (F(1 \<mapsto> PipeW [])) \<and> std_fds (F(0 \<mapsto> PipeR []))"
proof -
  let ?F = "\<lambda>n :: nat. if n < 3 then Some Console else None"
  have "parsecmd ''a|b'' = Some (Inr (PIPE (EXEC [(''a|b'', ''|b'')]) (EXEC [(''b'', [])]), ''a'' @ [NUL] @ ''b''))"
    by code_simp
  moreover have "std_fds ?F" by (simp add: std_fds_def)
  ultimately show ?thesis
    using runcmd_plumbs [of "''a|b''" _ _ ?F "[]"]
    by (simp add: span_text_def exec_path_def ch0_def del: fun_upd_apply)
qed

end
