(* ===== verification/Mkfs.thy ===== *)
theory Mkfs
  imports Fs
begin

text \<open>
  The program that makes the first file system image (\<open>mkfs.c\<close>). The image is a sequence of \<open>FSSIZE\<close> sectors; a sector behind
  its end cannot be read. A failed call and a failed assertion end the program and are \<open>None\<close> here. The conversions to the byte
  order of the disk are the encodings \<open>enc16\<close> and \<open>enc32\<close> that the kernel's model decodes.

  Shown: every file of the image has the bytes of the file it was made from, whatever their number and sizes, as the kernel
  reads them through the direct and the indirect blocks; the root directory lists the files; the bitmap marks the blocks in use;
  the kernel's reading of the super block gives the layout the image has.
\<close>

subsection \<open>The image\<close>

abbreviation (input) FSSIZE :: nat where "FSSIZE \<equiv> 1000"
abbreviation (input) NINODES :: nat where "NINODES \<equiv> 200"

definition nbitmap :: nat where "nbitmap = FSSIZE div (BSIZE * 8) + 1"
definition ninodeblocks :: nat where "ninodeblocks = NINODES div IPB + 1"
definition nmeta :: nat where "nmeta = 2 + LOGSIZE + ninodeblocks + nbitmap"

record image =
  sect :: "nat \<Rightarrow> byte list"
  freeinode :: nat
  freeblock :: nat

definition mk_sb :: superblock where
  "mk_sb = \<lparr>sb_size = FSSIZE, sb_nblocks = FSSIZE - nmeta, sb_ninodes = NINODES, sb_nlog = LOGSIZE,
     sb_logstart = 2, sb_inodestart = 2 + LOGSIZE, sb_bmapstart = 2 + LOGSIZE + ninodeblocks\<rparr>"

definition enc_sb :: "superblock \<Rightarrow> byte list" where
  "enc_sb b = concat (map enc32 [sb_size b, sb_nblocks b, sb_ninodes b, sb_nlog b, sb_logstart b, sb_inodestart b, sb_bmapstart b])"

definition wsect :: "nat \<Rightarrow> byte list \<Rightarrow> image \<Rightarrow> image" where
  "wsect sec bs s = s\<lparr>sect := (sect s)(sec := bs)\<rparr>"

definition rsect :: "nat \<Rightarrow> image \<Rightarrow> byte list option" where
  "rsect sec s = (if sec < FSSIZE then Some (sect s sec) else None)"

subsection \<open>Inodes\<close>

definition winode :: "nat \<Rightarrow> dinode \<Rightarrow> image \<Rightarrow> image option" where
  "winode inum ip s =
     (let bn = IBLOCK inum mk_sb in
      case rsect bn s of None \<Rightarrow> None
      | Some bs \<Rightarrow> Some (wsect bn (overwrite bs (dinode_off inum) (enc_dinode ip)) s))"

definition rinode :: "nat \<Rightarrow> image \<Rightarrow> dinode option" where
  "rinode inum s =
     (let bn = IBLOCK inum mk_sb in
      case rsect bn s of None \<Rightarrow> None | Some bs \<Rightarrow> Some (dec_dinode bs (dinode_off inum)))"

definition mk_ialloc :: "int \<Rightarrow> image \<Rightarrow> (nat \<times> image) option" where
  "mk_ialloc type s =
     (let inum = freeinode s; s = s\<lparr>freeinode := freeinode s + 1\<rparr>;
          din = \<lparr>d_type = type, d_major = 0, d_minor = 0, d_nlink = 1, d_size = 0, d_addrs = replicate (NDIRECT + 1) 0\<rparr>
      in map_option (Pair inum) (winode inum din s))"

subsection \<open>The bitmap\<close>

definition mk_balloc :: "nat \<Rightarrow> image \<Rightarrow> image option" where
  "mk_balloc n s =
     (if n < BSIZE * 8 then
        Some (wsect (sb_bmapstart mk_sb) (fold (mark_bit True) [0..<n] (replicate BSIZE 0)) s)
      else None)"

subsection \<open>Appending to a file\<close>

text \<open>The block of the file that the next byte goes to; it is allocated if there is none yet.\<close>

definition iappend_block :: "nat \<Rightarrow> dinode \<Rightarrow> image \<Rightarrow> (nat \<times> dinode \<times> image) option" where
  "iappend_block fbn din s =
     (if \<not> fbn < MAXFILE then None
      else if fbn < NDIRECT then
        let (din, s) = (if d_addrs din ! fbn = 0
          then (din\<lparr>d_addrs := (d_addrs din)[fbn := freeblock s]\<rparr>, s\<lparr>freeblock := freeblock s + 1\<rparr>) else (din, s))
        in Some (d_addrs din ! fbn, din, s)
      else
        let (din, s) = (if d_addrs din ! NDIRECT = 0
          then (din\<lparr>d_addrs := (d_addrs din)[NDIRECT := freeblock s]\<rparr>, s\<lparr>freeblock := freeblock s + 1\<rparr>) else (din, s))
        in case rsect (d_addrs din ! NDIRECT) s of None \<Rightarrow> None
        | Some ind \<Rightarrow>
          let (ind, s) = (if dec32 ind (4 * (fbn - NDIRECT)) = 0
            then let ind = overwrite ind (4 * (fbn - NDIRECT)) (enc32 (freeblock s))
                 in (ind, wsect (d_addrs din ! NDIRECT) ind (s\<lparr>freeblock := freeblock s + 1\<rparr>))
            else (ind, s))
          in Some (dec32 ind (4 * (fbn - NDIRECT)), din, s))"

lemma block_room: "off < (off div 512 + 1) * (512 :: nat)"
  using dividend_less_div_times [of 512 off] by simp

function iappend_loop :: "byte list \<Rightarrow> nat \<Rightarrow> dinode \<Rightarrow> image \<Rightarrow> (nat \<times> dinode \<times> image) option" where
  "iappend_loop p off din s =
     (if p = [] then Some (off, din, s)
      else let fbn = off div BSIZE in
        (case iappend_block fbn din s of None \<Rightarrow> None
        | Some (x, din, s) \<Rightarrow>
          let n1 = min (length p) ((fbn + 1) * BSIZE - off) in
          (case rsect x s of None \<Rightarrow> None
          | Some bs \<Rightarrow>
            iappend_loop (drop n1 p) (off + n1) din (wsect x (overwrite bs (off - fbn * BSIZE) (take n1 p)) s))))"
  by pat_completeness auto
termination
proof (relation "measure (\<lambda>(p, off, din, s). length p)", goal_cases)
  case (2 p off din s fbn xd x ds din' s' n1 bs)
  then have "0 < n1" using block_room [of off] by simp
  with 2 show ?case by simp
qed simp

declare iappend_loop.simps [simp del]

definition iappend :: "nat \<Rightarrow> byte list \<Rightarrow> image \<Rightarrow> image option" where
  "iappend inum p s =
     (case rinode inum s of None \<Rightarrow> None
      | Some din \<Rightarrow>
        (case iappend_loop p (d_size din) din s of None \<Rightarrow> None
         | Some (off, din, s) \<Rightarrow> winode inum (din\<lparr>d_size := off\<rparr>) s))"

subsection \<open>The program\<close>

text \<open>The pieces of a file that \<open>read\<close> returns, 512 bytes at a time.\<close>

fun append_pieces :: "nat \<Rightarrow> byte list list \<Rightarrow> image \<Rightarrow> image option" where
  "append_pieces inum [] s = Some s"
| "append_pieces inum (bs # pieces) s =
     (case iappend inum bs s of None \<Rightarrow> None | Some s \<Rightarrow> append_pieces inum pieces s)"

definition skip_underscore :: "byte list \<Rightarrow> byte list" where
  "skip_underscore name = (if cget name 0 = 95 then tl name else name)"

definition add_entry :: "nat \<Rightarrow> byte list \<Rightarrow> image \<Rightarrow> image option" where
  "add_entry inum name s = iappend ROOTINO (enc_dirent \<lparr>de_inum = inum mod 65536, de_name = name_field name\<rparr>) s"

definition add_file :: "byte list \<Rightarrow> byte list list \<Rightarrow> image \<Rightarrow> image option" where
  "add_file name pieces s =
     (if SLASH \<in> set name then None
      else (case mk_ialloc T_FILE s of None \<Rightarrow> None
        | Some (inum, s) \<Rightarrow>
          (case add_entry inum (skip_underscore name) s of None \<Rightarrow> None
          | Some s \<Rightarrow> append_pieces inum pieces s)))"

fun add_files :: "(byte list \<times> byte list list) list \<Rightarrow> image \<Rightarrow> image option" where
  "add_files [] s = Some s"
| "add_files ((name, pieces) # files) s =
     (case add_file name pieces s of None \<Rightarrow> None | Some s \<Rightarrow> add_files files s)"

definition mk_root :: "image option" where
  "mk_root =
     (let s = \<lparr>sect = (\<lambda>_. replicate BSIZE 0), freeinode = 1, freeblock = nmeta\<rparr>;
          s = wsect 1 (overwrite (replicate BSIZE 0) 0 (enc_sb mk_sb)) s
      in case mk_ialloc T_DIR s of None \<Rightarrow> None
      | Some (rootino, s) \<Rightarrow>
        if rootino \<noteq> ROOTINO then None
        else (case add_entry rootino [46] s of None \<Rightarrow> None
          | Some s \<Rightarrow> add_entry rootino [46, 46] s))"

definition fix_root :: "image \<Rightarrow> image option" where
  "fix_root s =
     (case rinode ROOTINO s of None \<Rightarrow> None
      | Some din \<Rightarrow> winode ROOTINO (din\<lparr>d_size := (d_size din div BSIZE + 1) * BSIZE\<rparr>) s)"

definition mkfs :: "(byte list \<times> byte list list) list \<Rightarrow> image option" where
  "mkfs files =
     (case mk_root of None \<Rightarrow> None
      | Some s \<Rightarrow>
        (case add_files files s of None \<Rightarrow> None
        | Some s \<Rightarrow>
          (case fix_root s of None \<Rightarrow> None
          | Some s \<Rightarrow> mk_balloc (freeblock s) s)))"

subsection \<open>The blocks of a file\<close>

text \<open>The address of a block of a file, the blocks that a file of \<open>n\<close> blocks occupies, and its bytes, read as the kernel does.\<close>

definition baddr :: "(nat \<Rightarrow> byte list) \<Rightarrow> dinode \<Rightarrow> nat \<Rightarrow> nat" where
  "baddr D d k = (if k < NDIRECT then d_addrs d ! k else dec32 (D (d_addrs d ! NDIRECT)) (4 * (k - NDIRECT)))"

definition blocks_of :: "(nat \<Rightarrow> byte list) \<Rightarrow> dinode \<Rightarrow> nat \<Rightarrow> nat set" where
  "blocks_of D d n = baddr D d ` {..<n} \<union> (if NDIRECT < n then {d_addrs d ! NDIRECT} else {})"

definition bytes_of :: "(nat \<Rightarrow> byte list) \<Rightarrow> dinode \<Rightarrow> nat \<Rightarrow> byte list" where
  "bytes_of D d n = map (\<lambda>i. D (baddr D d (i div BSIZE)) ! (i mod BSIZE)) [0..<n]"

definition nblks :: "nat \<Rightarrow> nat" where
  "nblks n = (n + 511) div BSIZE"

text \<open>\<open>n\<close> blocks with addresses of their own below \<open>fb\<close>, and no address behind them.\<close>

definition laid :: "(nat \<Rightarrow> byte list) \<Rightarrow> dinode \<Rightarrow> nat \<Rightarrow> nat \<Rightarrow> bool" where
  "laid D d fb n \<longleftrightarrow> length (d_addrs d) = NDIRECT + 1 \<and> n \<le> MAXFILE \<and>
     inj_on (baddr D d) {..<n} \<and> (\<forall>k<n. nmeta \<le> baddr D d k \<and> baddr D d k < fb) \<and>
     (\<forall>k. n \<le> k \<and> k < MAXFILE \<and> (k < NDIRECT \<or> NDIRECT < n) \<longrightarrow> baddr D d k = 0) \<and>
     (if NDIRECT < n then nmeta \<le> d_addrs d ! NDIRECT \<and> d_addrs d ! NDIRECT < fb \<and> d_addrs d ! NDIRECT \<notin> baddr D d ` {..<n}
      else d_addrs d ! NDIRECT = 0)"

definition sane :: "image \<Rightarrow> bool" where
  "sane s \<longleftrightarrow> (\<forall>b. length (sect s b) = BSIZE) \<and> nmeta \<le> freeblock s \<and> freeblock s \<le> FSSIZE \<and>
     (\<forall>b \<ge> freeblock s. sect s b = replicate BSIZE 0)"

text \<open>A file grew from \<open>n\<close> to \<open>n'\<close> blocks: the blocks it had are still its own, and nothing else has changed but blocks
  that were free.\<close>

definition grew :: "dinode \<Rightarrow> image \<Rightarrow> nat \<Rightarrow> dinode \<Rightarrow> image \<Rightarrow> nat \<Rightarrow> bool" where
  "grew d s n d' s' n' \<longleftrightarrow> laid (sect s') d' (freeblock s') n' \<and> n \<le> n' \<and> sane s' \<and> freeblock s \<le> freeblock s' \<and>
     freeinode s' = freeinode s \<and> d'\<lparr>d_addrs := []\<rparr> = d\<lparr>d_addrs := []\<rparr> \<and>
     (\<forall>j<n. baddr (sect s') d' j = baddr (sect s) d j) \<and>
     (\<forall>b < freeblock s. b \<notin> blocks_of (sect s) d n \<longrightarrow> sect s' b = sect s b) \<and>
     blocks_of (sect s') d' n' \<subseteq> blocks_of (sect s) d n \<union> {freeblock s..<freeblock s'}"

lemma nmeta_eq: "nmeta = 59"
  by (simp add: nmeta_def ninodeblocks_def nbitmap_def)

lemma grew_refl: "laid (sect s) d (freeblock s) n \<Longrightarrow> sane s \<Longrightarrow> grew d s n d s n"
  by (simp add: grew_def)

lemma grew_trans:
  assumes "grew d s n d1 s1 n1" "grew d1 s1 n1 d2 s2 n2"
  shows "grew d s n d2 s2 n2"
proof -
  have "sect s2 b = sect s b" if "b < freeblock s" "b \<notin> blocks_of (sect s) d n" for b
  proof -
    have "b \<notin> blocks_of (sect s1) d1 n1" "b < freeblock s1" using assms(1) that by (auto simp: grew_def)
    then show ?thesis using assms that by (simp add: grew_def)
  qed
  moreover have "blocks_of (sect s2) d2 n2 \<subseteq> blocks_of (sect s) d n \<union> {freeblock s..<freeblock s2}"
  proof
    fix b assume "b \<in> blocks_of (sect s2) d2 n2"
    then have "b \<in> blocks_of (sect s1) d1 n1 \<or> freeblock s1 \<le> b \<and> b < freeblock s2" using assms(2) by (auto simp: grew_def)
    moreover have "blocks_of (sect s1) d1 n1 \<subseteq> blocks_of (sect s) d n \<union> {freeblock s..<freeblock s1}"
      "freeblock s \<le> freeblock s1" "freeblock s1 \<le> freeblock s2" using assms by (simp_all add: grew_def)
    ultimately show "b \<in> blocks_of (sect s) d n \<union> {freeblock s..<freeblock s2}" by fastforce
  qed
  ultimately show ?thesis using assms by (simp add: grew_def)
qed

lemma laid_below:
  assumes "laid D d fb n" "x \<in> blocks_of D d n"
  shows "nmeta \<le> x \<and> x < fb"
proof -
  consider k where "k < n" "x = baddr D d k" | "12 < n" "x = d_addrs d ! 12"
    using assms(2) by (auto simp: blocks_of_def split: if_splits)
  then show ?thesis using assms(1) by cases (simp_all add: laid_def)
qed

lemma laid_snoc:
  assumes "laid D d fb n" "n < 140" "length (d_addrs d') = 13" "\<forall>j<n. baddr D' d' j = baddr D d j"
    and "fb \<le> baddr D' d' n" "baddr D' d' n < fb'" "nmeta \<le> fb"
    and "\<forall>k. n < k \<and> k < 140 \<and> (k < 12 \<or> 12 \<le> n) \<longrightarrow> baddr D' d' k = 0"
    and "if 12 \<le> n then d_addrs d' ! 12 \<noteq> baddr D' d' n \<and> nmeta \<le> d_addrs d' ! 12 \<and> d_addrs d' ! 12 < fb' \<and>
      d_addrs d' ! 12 \<notin> baddr D d ` {..<n} else d_addrs d' ! 12 = 0"
  shows "laid D' d' fb' (Suc n)"
proof -
  have old: "nmeta \<le> baddr D d j \<and> baddr D d j < fb" if "j < n" for j using assms(1) that by (simp add: laid_def)
  have "inj_on (baddr D' d') {..<Suc n}"
  proof (rule inj_onI)
    fix i j assume ij: "i \<in> {..<Suc n}" "j \<in> {..<Suc n}" "baddr D' d' i = baddr D' d' j"
    have "i = j" if "i < n" "j < n"
      using assms(1,4) ij(3) that by (simp add: laid_def inj_on_def)
    moreover have "\<not> (i < n \<and> j = n)" "\<not> (i = n \<and> j < n)" using ij(3) assms(4,5) old [of i] old [of j] by auto
    ultimately show "i = j" using ij(1,2) by (auto simp: less_Suc_eq)
  qed
  moreover have "baddr D' d' ` {..<Suc n} = insert (baddr D' d' n) (baddr D d ` {..<n})"
    using assms(4) by (simp add: lessThan_Suc)
  moreover have "nmeta \<le> baddr D' d' k \<and> baddr D' d' k < fb'" if "k < Suc n" for k
    using that old [of k] assms(4,5,6,7) by (auto simp: less_Suc_eq)
  ultimately show ?thesis using assms(2,3,8,9) by (simp add: laid_def Suc_le_eq less_Suc_eq_le)
qed

lemma blocks_snoc:
  assumes "\<forall>j<n. baddr D' d' j = baddr D d j" "fb \<le> baddr D' d' n" "baddr D' d' n < fb'"
    and "12 < n \<Longrightarrow> d_addrs d' ! 12 = d_addrs d ! 12" "n = 12 \<Longrightarrow> fb \<le> d_addrs d' ! 12 \<and> d_addrs d' ! 12 < fb'"
  shows "blocks_of D' d' (Suc n) \<subseteq> blocks_of D d n \<union> {fb..<fb'}"
proof -
  have "baddr D' d' ` {..<Suc n} = insert (baddr D' d' n) (baddr D d ` {..<n})"
    using assms(1) by (simp add: lessThan_Suc)
  then show ?thesis using assms(2-5) by (cases "n = 12"; cases "12 < n") (simp_all add: blocks_of_def subset_insertI2)
qed

lemma dec32_zeroes: "i + 4 \<le> 512 \<Longrightarrow> dec32 (replicate 512 0) i = 0"
  by (simp add: dec32_def)

text \<open>The next block of a file, direct or through the indirect block.\<close>

lemma direct_snoc:
  assumes L: "laid (sect s) d (freeblock s) n" and S: "sane s" and n: "n < 12" and x: "freeblock s < 1000"
  defines "d' \<equiv> d\<lparr>d_addrs := (d_addrs d)[n := freeblock s]\<rparr>" and "s' \<equiv> s\<lparr>freeblock := freeblock s + 1\<rparr>"
  shows "iappend_block n d s = Some (freeblock s, d', s')" "grew d s n d' s' (Suc n)" "baddr (sect s') d' n = freeblock s"
proof -
  have l: "length (d_addrs d) = 13" "d_addrs d ! 12 = 0" using L n by (auto simp: laid_def)
  have z: "baddr (sect s) d k = 0" if "n \<le> k" "k < 12" for k using L that by (simp add: laid_def)
  have "d_addrs d ! n = 0" using z [of n] n by (simp add: baddr_def)
  then show "iappend_block n d s = Some (freeblock s, d', s')"
    using n l by (simp add: iappend_block_def d'_def s'_def)
  show b: "baddr (sect s') d' n = freeblock s" using n l by (simp add: baddr_def d'_def)
  have old: "\<forall>j<n. baddr (sect s') d' j = baddr (sect s) d j" using n by (simp add: baddr_def d'_def)
  have zero: "\<forall>k. n < k \<and> k < 140 \<and> (k < 12 \<or> 12 \<le> n) \<longrightarrow> baddr (sect s') d' k = 0"
  proof (intro allI impI)
    fix k assume "n < k \<and> k < 140 \<and> (k < 12 \<or> 12 \<le> n)"
    then show "baddr (sect s') d' k = 0" using z [of k] n by (simp add: baddr_def d'_def)
  qed
  have "laid (sect s') d' (freeblock s') (Suc n)"
    by (rule laid_snoc [OF L _ _ old _ _ _ zero]) (use S n l b in \<open>simp_all add: s'_def d'_def sane_def\<close>)
  moreover have "blocks_of (sect s') d' (Suc n) \<subseteq> blocks_of (sect s) d n \<union> {freeblock s..<freeblock s'}"
    by (rule blocks_snoc [OF old]) (use b n in \<open>simp_all add: s'_def\<close>)
  moreover have "sane s'" using S x by (simp add: sane_def s'_def)
  ultimately show "grew d s n d' s' (Suc n)" using old by (simp add: grew_def s'_def d'_def)
qed

lemma indirect_value:
  assumes L: "laid (sect s) d (freeblock s) n" and S: "sane s" and n: "12 \<le> n" "n < 140"
    and r: "iappend_block n d s = Some (x, d', s')"
  shows "let i = if n = 12 then freeblock s else d_addrs d ! 12; x = if n = 12 then freeblock s + 1 else freeblock s in
    i < 1000 \<and> dec32 (sect s i) (4 * (n - 12)) = 0 \<and>
    iappend_block n d s = Some (x, d\<lparr>d_addrs := (d_addrs d)[12 := i]\<rparr>,
      s\<lparr>sect := (sect s)(i := overwrite (sect s i) (4 * (n - 12)) (enc32 x)), freeblock := x + 1\<rparr>)"
proof (cases "n = 12")
  case True
  have "d_addrs d ! 12 = 0" "length (d_addrs d) = 13" using L True by (auto simp: laid_def)
  moreover have "freeblock s < 1000" using r True calculation by (auto simp: iappend_block_def rsect_def split: if_splits)
  moreover have "sect s (freeblock s) = replicate 512 0" using S by (simp add: sane_def)
  ultimately show ?thesis
    using True by (simp add: iappend_block_def rsect_def wsect_def Let_def dec32_zeroes dec32_overwrite_same)
next
  case False
  then have "d_addrs d ! 12 < freeblock s" "nmeta \<le> d_addrs d ! 12" "length (d_addrs d) = 13" "baddr (sect s) d n = 0"
    using L n by (auto simp: laid_def)
  moreover have "freeblock s \<le> 1000" "length (sect s (d_addrs d ! 12)) = 512" using S by (auto simp: sane_def)
  moreover have "dec32 (sect s (d_addrs d ! 12)) (4 * (n - 12)) = 0" using calculation(4) n by (simp add: baddr_def)
  ultimately show ?thesis
    using False n by (simp add: iappend_block_def rsect_def wsect_def Let_def dec32_overwrite_same nmeta_eq)
qed

lemma indirect_place:
  assumes L: "laid (sect s) d (freeblock s) n" and S: "sane s" and n: "12 \<le> n"
  shows "nmeta \<le> (if n = 12 then freeblock s else d_addrs d ! 12) \<and>
    (if n = 12 then freeblock s else d_addrs d ! 12) \<notin> baddr (sect s) d ` {..<n} \<and>
    (if n = 12 then (if n = 12 then freeblock s else d_addrs d ! 12) = freeblock s
     else (if n = 12 then freeblock s else d_addrs d ! 12) < freeblock s)"
proof -
  have "d_addrs d ! 12 < freeblock s \<and> nmeta \<le> d_addrs d ! 12 \<and> d_addrs d ! 12 \<notin> baddr (sect s) d ` {..<n}" if "n \<noteq> 12"
    using L n that by (simp add: laid_def)
  moreover have "freeblock s \<notin> baddr (sect s) d ` {..<n}" "nmeta \<le> freeblock s"
    using laid_below [OF L, of "freeblock s"] S by (auto simp: blocks_of_def sane_def)
  ultimately show ?thesis by auto
qed

lemma indirect_snoc:
  assumes L: "laid (sect s) d (freeblock s) n" and S: "sane s" and n: "12 \<le> n" "n < 140"
    and r: "iappend_block n d s = Some (x, d', s')" and x: "x < 1000"
  shows "grew d s n d' s' (Suc n)" "baddr (sect s') d' n = x" "\<forall>j<n. sect s' (baddr (sect s) d j) = sect s (baddr (sect s) d j)"
proof -
  define i where "i = (if n = 12 then freeblock s else d_addrs d ! 12)"
  have v: "i < 1000" "dec32 (sect s i) (4 * (n - 12)) = 0" "x = (if n = 12 then freeblock s + 1 else freeblock s)"
      "d' = d\<lparr>d_addrs := (d_addrs d)[12 := i]\<rparr>"
      "s' = s\<lparr>sect := (sect s)(i := overwrite (sect s i) (4 * (n - 12)) (enc32 x)), freeblock := x + 1\<rparr>"
    using indirect_value [OF L S n r] r by (simp_all add: Let_def i_def)
  have l: "length (d_addrs d) = 13" "length (sect s i) = 512" "d_addrs d' ! 12 = i"
    using L S v by (auto simp: laid_def sane_def)
  have at: "baddr (sect s') d' k = dec32 (overwrite (sect s i) (4 * (n - 12)) (enc32 x)) (4 * (k - 12))" if "12 \<le> k" for k
    using that l by (simp add: baddr_def v(5))
  show b: "baddr (sect s') d' n = x" using at [OF n(1)] n l x by (simp add: dec32_overwrite_same)
  have other: "baddr (sect s') d' k = dec32 (sect s i) (4 * (k - 12))" if "12 \<le> k" "k \<noteq> n" "k < 140" for k
  proof -
    have "4 * (k - 12) + 4 \<le> 4 * (n - 12) \<or> 4 * (n - 12) + 4 \<le> 4 * (k - 12)" using that n by arith
    then show ?thesis using at [OF that(1)] that n l by (simp add: dec32_overwrite_other)
  qed
  have old: "baddr (sect s') d' j = baddr (sect s) d j" if "j < n" for j
    using that n other [of j] by (cases "j < 12") (auto simp: baddr_def v(4) i_def)
  have zero: "baddr (sect s') d' k = 0" if "n < k" "k < 140" for k
  proof (cases "n = 12")
    case True
    then have "sect s i = replicate 512 0" using S by (simp add: i_def sane_def)
    then show ?thesis using other [of k] that n by (simp add: dec32_zeroes)
  next
    case False
    then have "baddr (sect s) d k = 0" using L that n by (simp add: laid_def)
    then show ?thesis using other [of k] that n False by (simp add: baddr_def i_def)
  qed
  have i: "nmeta \<le> i" "i \<noteq> x" "i < x + 1" "i \<notin> baddr (sect s) d ` {..<n}" "n = 12 \<Longrightarrow> freeblock s \<le> i"
    using indirect_place [OF L S n(1), folded i_def] v(3) by (auto split: if_splits)
  show "\<forall>j<n. sect s' (baddr (sect s) d j) = sect s (baddr (sect s) d j)" using i(4) by (auto simp: v(5))
  have fb: "freeblock s \<le> x" "nmeta \<le> freeblock s" using v(3) S by (auto simp: sane_def)
  have "laid (sect s') d' (freeblock s') (Suc n)"
    by (rule laid_snoc [OF L n(2)]) (use l old zero i b n fb v(4,5) in auto)
  moreover have "blocks_of (sect s') d' (Suc n) \<subseteq> blocks_of (sect s) d n \<union> {freeblock s..<freeblock s'}"
    by (rule blocks_snoc) (use old b fb v(5) i l(3) in \<open>auto simp: i_def split: if_splits\<close>)
  moreover have "sane s'" using S x i(3) fb(1) v(5) n l by (auto simp: sane_def)
  moreover have "sect s' b = sect s b" if "b < freeblock s" "b \<notin> blocks_of (sect s) d n" for b
    using that n by (auto simp: v(5) i_def blocks_of_def split: if_splits)
  ultimately show "grew d s n d' s' (Suc n)" using old fb by (simp add: grew_def) (simp add: v(4,5))
qed

lemma iappend_block_grew:
  assumes L: "laid (sect s) d (freeblock s) n" and S: "sane s" and k: "k \<le> n" "n \<le> Suc k"
    and r: "iappend_block k d s = Some (x, d', s')" and x: "x < 1000"
  shows "grew d s n d' s' (Suc k) \<and> baddr (sect s') d' k = x \<and>
    (\<forall>j<n. sect s' (baddr (sect s) d j) = sect s (baddr (sect s) d j))"
proof (cases "k < n")
  case True
  then have n: "n = Suc k" "k < 140" using k L by (auto simp: laid_def)
  have "nmeta \<le> baddr (sect s) d k" "12 \<le> k \<Longrightarrow> nmeta \<le> d_addrs d ! 12" using L n by (auto simp: laid_def)
  then have "x = baddr (sect s) d k \<and> d' = d \<and> s' = s"
    using r n by (auto simp: iappend_block_def baddr_def nmeta_eq rsect_def Let_def split: if_splits)
  then show ?thesis using grew_refl [OF L S] n by simp
next
  case False
  then have n: "n = k" "k < 140" using k r by (auto simp: iappend_block_def split: if_splits)
  show ?thesis
  proof (cases "k < 12")
    case True
    have "d_addrs d ! k = 0" using L n True by (simp add: laid_def baddr_def)
    then have "x = freeblock s" using r L True by (auto simp: iappend_block_def laid_def)
    then show ?thesis using direct_snoc [of s d k] L S True x r n by auto
  next
    case False
    then show ?thesis using indirect_snoc [OF L S _ _ _ x] r n by auto
  qed
qed

text \<open>Writing a data block of a file moves no block.\<close>

lemma same_indirect:
  assumes "12 < n \<Longrightarrow> D' (d_addrs d ! 12) = D (d_addrs d ! 12)"
  shows "k < n \<Longrightarrow> baddr D' d k = baddr D d k" "laid D' d fb n = laid D d fb n" "blocks_of D' d n = blocks_of D d n"
proof -
  have e: "baddr D' d k = baddr D d k" if "k < 12 \<or> 12 < n" for k using assms that by (auto simp: baddr_def)
  have l: "baddr D' d k = baddr D d k" if "k < n" for k using e [of k] that by (cases "k < 12") simp_all
  then show "k < n \<Longrightarrow> baddr D' d k = baddr D d k" by simp
  have m: "baddr D' d ` {..<n} = baddr D d ` {..<n}" using l by auto
  then show "blocks_of D' d n = blocks_of D d n" by (simp add: blocks_of_def)
  have "inj_on (baddr D' d) {..<n} = inj_on (baddr D d) {..<n}" using l by (intro inj_on_cong) simp
  moreover have "(\<forall>k. n \<le> k \<and> k < 140 \<and> (k < 12 \<or> 12 < n) \<longrightarrow> baddr D' d k = 0) =
      (\<forall>k. n \<le> k \<and> k < 140 \<and> (k < 12 \<or> 12 < n) \<longrightarrow> baddr D d k = 0)"
    using e by metis
  moreover have "(\<forall>k<n. nmeta \<le> baddr D' d k \<and> baddr D' d k < fb) = (\<forall>k<n. nmeta \<le> baddr D d k \<and> baddr D d k < fb)"
    using l by simp
  ultimately show "laid D' d fb n = laid D d fb n" using m unfolding laid_def by simp
qed

lemma write_grew:
  assumes L: "laid (sect s) d (freeblock s) n" and S: "sane s" and k: "k < n" and bs: "length bs = 512"
  shows "grew d s n d (wsect (baddr (sect s) d k) bs s) n"
proof -
  let ?x = "baddr (sect s) d k"
  have x: "?x \<in> blocks_of (sect s) d n" using k by (simp add: blocks_of_def)
  have i: "sect (wsect ?x bs s) (d_addrs d ! 12) = sect s (d_addrs d ! 12)" if "12 < n"
    using L k that by (auto simp: laid_def wsect_def)
  have "sane (wsect ?x bs s)" using S bs laid_below [OF L x] by (auto simp: sane_def wsect_def)
  then show ?thesis
    using same_indirect [where D' = "sect (wsect ?x bs s)" and D = "sect s" and d = d, OF i] L x
    by (auto simp: grew_def wsect_def)
qed

lemma bytes_step:
  assumes G: "grew d s (nblks off) d1 s1 (Suc k)" and k: "k = off div 512" and x: "baddr (sect s1) d1 k = x"
    and data: "\<forall>j<nblks off. sect s1 (baddr (sect s) d j) = sect s (baddr (sect s) d j)"
    and p: "off + length p \<le> (k + 1) * 512"
  shows "bytes_of (sect (wsect x (overwrite (sect s1 x) (off - k * 512) p) s1)) d1 (off + length p) = bytes_of (sect s) d off @ p"
    (is "bytes_of (sect ?s2) d1 _ = _")
proof (rule nth_equalityI)
  fix i assume "i < length (bytes_of (sect ?s2) d1 (off + length p))"
  then have i: "i < off + length p" by (simp add: bytes_of_def)
  have L: "laid (sect s1) d1 (freeblock s1) (Suc k)" "\<forall>j<nblks off. baddr (sect s1) d1 j = baddr (sect s) d j"
      "length (sect s1 x) = 512" "inj_on (baddr (sect s1) d1) {..<Suc k}"
    using G by (auto simp: grew_def sane_def laid_def)
  have j: "i div 512 < Suc k" using i p by (simp add: less_mult_imp_div_less)
  have "sect ?s2 (d_addrs d1 ! 12) = sect s1 (d_addrs d1 ! 12)" if "12 < Suc k"
    using L(1) x that by (auto simp: laid_def wsect_def)
  then have b: "baddr (sect ?s2) d1 (i div 512) = baddr (sect s1) d1 (i div 512)"
    using same_indirect(1) [OF _ j, of "sect ?s2" d1 "sect s1"] by simp
  have v: "bytes_of (sect ?s2) d1 (off + length p) ! i = sect ?s2 (baddr (sect s1) d1 (i div 512)) ! (i mod 512)"
    using i by (simp add: bytes_of_def b)
  have w: "sect ?s2 y = (if y = x then overwrite (sect s1 x) (off - k * 512) p else sect s1 y)" for y
    by (simp add: wsect_def)
  show "bytes_of (sect ?s2) d1 (off + length p) ! i = (bytes_of (sect s) d off @ p) ! i"
  proof (cases "i div 512 = k")
    case True
    have m: "i mod 512 = i - k * 512" "k * 512 \<le> off" "k * 512 \<le> i" "i mod 512 < 512"
      using True k by (auto simp: minus_div_mult_eq_mod [symmetric])
    have "bytes_of (sect ?s2) d1 (off + length p) ! i = (if off \<le> i then p ! (i - off) else sect s1 x ! (i mod 512))"
      unfolding v w True x using nth_overwrite [of "off - k * 512" p "sect s1 x" "i mod 512"] L(3) p m i by auto
    moreover have "(bytes_of (sect s) d off @ p) ! i = sect s1 x ! (i mod 512)" if "i < off"
    proof -
      have "k < nblks off" using that True k by (simp add: nblks_def)
      then have "sect s x = sect s1 x" "baddr (sect s) d k = x" using L(2) data x by auto
      then show ?thesis using that True by (simp add: bytes_of_def nth_append)
    qed
    ultimately show ?thesis by (simp add: bytes_of_def nth_append)
  next
    case False
    then have lt: "i div 512 < k" using j by simp
    have o: "i < off" using lt k by (metis div_le_mono leD leI)
    have n: "i div 512 < nblks off" using lt k by (simp add: nblks_def)
    have "baddr (sect s1) d1 (i div 512) \<noteq> x" using inj_onD [OF L(4), of "i div 512" k] x lt by auto
    then show ?thesis unfolding v w using i o n L(2) data by (simp add: bytes_of_def nth_append)
  qed
qed (simp add: bytes_of_def)

lemma nblks_between: "k * 512 \<le> off \<Longrightarrow> 0 < m \<Longrightarrow> off + m \<le> (k + 1) * 512 \<Longrightarrow> nblks (off + m) = Suc k"
  unfolding nblks_def by (rule div_nat_eqI) simp_all

lemma nblks_step: "0 < l \<Longrightarrow> nblks (off + min l ((off div 512 + 1) * 512 - off)) = Suc (off div 512)"
  using block_room [of off] by (intro nblks_between) auto

text \<open>One round of the loop.\<close>

lemma iappend_step:
  assumes L: "laid (sect s) d (freeblock s) (nblks off)" "sane s" and b: "iappend_block (off div 512) d s = Some (x, d1, s1)" "x < 1000"
    and p: "p \<noteq> []"
  defines "n1 \<equiv> min (length p) ((off div 512 + 1) * 512 - off)"
    and "s2 \<equiv> wsect x (overwrite (sect s1 x) (off - off div 512 * 512) (take (min (length p) ((off div 512 + 1) * 512 - off)) p)) s1"
  shows "iappend_loop p off d s = iappend_loop (drop n1 p) (off + n1) d1 s2" "0 < n1" "n1 \<le> length p" "nblks (off + n1) = Suc (off div 512)"
    "grew d s (nblks off) d1 s2 (nblks (off + n1))" "bytes_of (sect s2) d1 (off + n1) = bytes_of (sect s) d off @ take n1 p"
    "freeblock s2 = freeblock s1"
proof -
  let ?k = "off div 512"
  show "iappend_loop p off d s = iappend_loop (drop n1 p) (off + n1) d1 s2" "freeblock s2 = freeblock s1"
    using p b by (simp_all add: iappend_loop.simps [of p off] n1_def s2_def Let_def rsect_def wsect_def)
  have room: "off < (?k + 1) * 512" "?k * 512 \<le> off" using block_room [of off] by simp_all
  have n: "?k \<le> nblks off" "nblks off \<le> Suc ?k" by (simp_all add: nblks_def)
  have len: "length (take n1 p) = n1" "off + n1 \<le> (?k + 1) * 512" "0 < n1" "n1 \<le> length p" using room p by (auto simp: n1_def)
  then show "0 < n1" "n1 \<le> length p" by simp_all
  show n2: "nblks (off + n1) = Suc ?k" using len room by (simp add: nblks_def)
  have G: "grew d s (nblks off) d1 s1 (Suc ?k)" "baddr (sect s1) d1 ?k = x"
      "\<forall>j<nblks off. sect s1 (baddr (sect s) d j) = sect s (baddr (sect s) d j)"
    using iappend_block_grew [OF L n b] by auto
  then have s1: "laid (sect s1) d1 (freeblock s1) (Suc ?k)" "sane s1" "length (sect s1 x) = 512" by (auto simp: grew_def sane_def)
  have s2: "s2 = wsect x (overwrite (sect s1 x) (off - ?k * 512) (take n1 p)) s1" by (simp add: s2_def n1_def)
  have "grew d1 s1 (Suc ?k) d1 s2 (Suc ?k)"
    using write_grew [OF s1(1,2), of ?k "overwrite (sect s1 x) (off - ?k * 512) (take n1 p)"] G(2) s1(3) len room by (simp add: s2)
  then show "grew d s (nblks off) d1 s2 (nblks (off + n1))" using grew_trans G(1) n2 by metis
  show "bytes_of (sect s2) d1 (off + n1) = bytes_of (sect s) d off @ take n1 p"
    using bytes_step [OF G(1) refl G(2,3), of "take n1 p"] len by (simp add: s2)
qed

lemma iappend_loop_grew:
  assumes "iappend_loop p off d s = Some (off', d', s')" "laid (sect s) d (freeblock s) (nblks off)" "sane s"
  shows "off' = off + length p \<and> grew d s (nblks off) d' s' (nblks off') \<and>
    bytes_of (sect s') d' off' = bytes_of (sect s) d off @ p"
  using assms
proof (induction "length p" arbitrary: p off d s rule: less_induct)
  case less
  show ?case
  proof (cases "p = []")
    case True
    then show ?thesis using less.prems grew_refl by (simp add: iappend_loop.simps)
  next
    case False
    obtain x d1 s1 where b: "iappend_block (off div 512) d s = Some (x, d1, s1)" "x < 1000"
      using less.prems(1) False
      by (auto simp: iappend_loop.simps [of p] Let_def rsect_def split: option.splits prod.splits if_splits)
    define n1 where "n1 = min (length p) ((off div 512 + 1) * 512 - off)"
    note st = iappend_step [OF less.prems(2,3) b False, folded n1_def]
    let ?s2 = "wsect x (overwrite (sect s1 x) (off - off div 512 * 512) (take n1 p)) s1"
    have "off' = off + n1 + length (drop n1 p) \<and> grew d1 ?s2 (nblks (off + n1)) d' s' (nblks off') \<and>
        bytes_of (sect s') d' off' = bytes_of (sect ?s2) d1 (off + n1) @ drop n1 p"
      using st(2,3,5) less.prems(1) by (intro less.hyps) (simp_all add: st(1) grew_def)
    then show ?thesis using grew_trans [OF st(5)] st(3,6) by auto
  qed
qed

text \<open>The blocks that a file of \<open>z\<close> bytes needs, with its indirect block. As long as there is room, appending succeeds and takes
  exactly the blocks that the new bytes need.\<close>

definition blks :: "nat \<Rightarrow> nat" where
  "blks n = n + (if NDIRECT < n then 1 else 0)"

definition need :: "nat \<Rightarrow> nat" where
  "need z = blks (nblks z)"

lemma need_mono: "x \<le> y \<Longrightarrow> need x \<le> need y"
proof -
  assume "x \<le> y"
  then have "nblks x \<le> nblks y" unfolding nblks_def by (intro div_le_mono) simp
  then show ?thesis by (auto simp: need_def blks_def)
qed

lemma iappend_block_Some:
  assumes L: "laid (sect s) d (freeblock s) n" and S: "sane s" and k: "k \<le> n" "n \<le> Suc k" "k < 140"
    and room: "freeblock s + (blks (Suc k) - blks n) \<le> 1000"
  shows "\<exists>x d' s'. iappend_block k d s = Some (x, d', s') \<and> x < 1000 \<and> freeblock s' = freeblock s + (blks (Suc k) - blks n)"
proof (cases "k < n")
  case True
  then have n: "n = Suc k" using k by simp
  have a: "baddr (sect s) d k \<noteq> 0" "baddr (sect s) d k < freeblock s" "freeblock s \<le> 1000"
    using laid_below [OF L, of "baddr (sect s) d k"] n S by (auto simp: blocks_of_def sane_def nmeta_eq)
  have i: "d_addrs d ! 12 \<noteq> 0 \<and> d_addrs d ! 12 < freeblock s" if "12 \<le> k" using L n that by (simp add: laid_def nmeta_eq)
  have "iappend_block k d s = Some (baddr (sect s) d k, d, s)"
    using a(1,3) i k(3) by (cases "k < 12") (simp_all add: iappend_block_def baddr_def rsect_def)
  then show ?thesis using a n by simp
next
  case False
  then have n: "n = k" using k by simp
  show ?thesis
  proof (cases "k < 12")
    case True
    then have "d_addrs d ! k = 0" "length (d_addrs d) = 13" using L n by (auto simp: laid_def baddr_def)
    then show ?thesis using True n room by (simp add: iappend_block_def blks_def)
  next
    case False
    have l: "length (d_addrs d) = 13" "freeblock s \<le> 1000" using L S by (simp_all add: laid_def sane_def)
    moreover have "d_addrs d ! 12 = 0 \<and> freeblock s < 1000" if "k = 12" using L n room that by (simp add: laid_def blks_def)
    moreover have "d_addrs d ! 12 \<noteq> 0 \<and> d_addrs d ! 12 < freeblock s" if "k \<noteq> 12"
      using L n False that by (simp add: laid_def nmeta_eq)
    ultimately have "iappend_block k d s \<noteq> None"
      using False k by (cases "k = 12") (simp_all add: iappend_block_def rsect_def Let_def)
    then obtain x d' s' where r: "iappend_block k d s = Some (x, d', s')" by auto
    show ?thesis using indirect_value [OF L S _ _ r [folded n]] l(2) room False n k by (cases "k = 12") (simp_all add: Let_def blks_def)
  qed
qed

lemma iappend_loop_Some:
  assumes "laid (sect s) d (freeblock s) (nblks off)" "sane s" "off + length p \<le> 71680"
    and "freeblock s + (need (off + length p) - need off) \<le> 1000"
  shows "\<exists>d' s'. iappend_loop p off d s = Some (off + length p, d', s') \<and> freeblock s' = freeblock s + (need (off + length p) - need off)"
  using assms
proof (induction "length p" arbitrary: p off d s rule: less_induct)
  case less
  show ?case
  proof (cases "p = []")
    case False
    let ?k = "off div 512"
    define n1 where "n1 = min (length p) ((?k + 1) * 512 - off)"
    have len: "1 \<le> length p" using False by (cases p) simp_all
    then have "off < 140 * 512" using less.prems(3) by linarith
    then have k: "?k < 140" by (rule less_mult_imp_div_less)
    have n: "?k \<le> nblks off" "nblks off \<le> Suc ?k" by (simp_all add: nblks_def)
    have n1: "n1 \<le> length p" "nblks (off + n1) = Suc ?k"
      using False nblks_step [of "length p" off] by (simp_all add: n1_def)
    have m: "need off \<le> need (off + n1)" "need (off + n1) \<le> need (off + length p)" using n1(1) by (auto intro!: need_mono)
    have "freeblock s + (blks (Suc ?k) - blks (nblks off)) \<le> 1000" using less.prems(4) m unfolding need_def n1(2) by arith
    then obtain x d1 s1 where b: "iappend_block ?k d s = Some (x, d1, s1)" "x < 1000" "freeblock s1 = freeblock s + (need (off + n1) - need off)"
      using iappend_block_Some [OF less.prems(1,2) n k] unfolding need_def n1(2) by blast
    note st = iappend_step [OF less.prems(1,2) b(1,2) False, folded n1_def]
    let ?s2 = "wsect x (overwrite (sect s1 x) (off - ?k * 512) (take n1 p)) s1"
    have e: "off + n1 + length (drop n1 p) = off + length p" using n1(1) by simp
    have "\<exists>d' s'. iappend_loop (drop n1 p) (off + n1) d1 ?s2 = Some (off + n1 + length (drop n1 p), d', s') \<and>
        freeblock s' = freeblock ?s2 + (need (off + n1 + length (drop n1 p)) - need (off + n1))"
    proof (rule less.hyps)
      show "freeblock ?s2 + (need (off + n1 + length (drop n1 p)) - need (off + n1)) \<le> 1000"
        unfolding e st(7) b(3) using m less.prems(4) by arith
    qed (use st(2,3,5) less.prems(3) in \<open>simp_all add: grew_def\<close>)
    then show ?thesis unfolding e st(1,7) b(3) using m by auto
  qed (simp add: iappend_loop.simps)
qed

subsection \<open>Inodes in the image\<close>

definition dn :: "image \<Rightarrow> nat \<Rightarrow> dinode" where
  "dn s i = dec_dinode (sect s (IBLOCK i mk_sb)) (dinode_off i)"

definition contents :: "image \<Rightarrow> nat \<Rightarrow> byte list" where
  "contents s i = bytes_of (sect s) (dn s i) (d_size (dn s i))"

definition own :: "image \<Rightarrow> nat \<Rightarrow> nat set" where
  "own s i = blocks_of (sect s) (dn s i) (nblks (d_size (dn s i)))"

definition file_ok :: "image \<Rightarrow> nat \<Rightarrow> bool" where
  "file_ok s i \<longleftrightarrow> dinode_ok (dn s i) \<and> laid (sect s) (dn s i) (freeblock s) (nblks (d_size (dn s i)))"

text \<open>Every inode in use is well-formed, and no block belongs to two of them.\<close>

definition good :: "image \<Rightarrow> bool" where
  "good s \<longleftrightarrow> sane s \<and> freeinode s \<le> NINODES \<and> (\<forall>i. 1 \<le> i \<and> i < freeinode s \<longrightarrow> file_ok s i) \<and>
     (\<forall>i j. 1 \<le> i \<and> i < freeinode s \<and> 1 \<le> j \<and> j < freeinode s \<and> i \<noteq> j \<longrightarrow> own s i \<inter> own s j = {})"

lemma IBLOCK_mk: "IBLOCK i mk_sb = i div 8 + 32"
  by (simp add: IBLOCK_def mk_sb_def)

lemma laid_mono: "laid D d fb n \<Longrightarrow> fb \<le> fb' \<Longrightarrow> laid D d fb' n"
  by (fastforce simp: laid_def)

lemma baddr_size [simp]: "baddr D (d\<lparr>d_size := z\<rparr>) = baddr D d"
  by (simp add: baddr_def fun_eq_iff)

lemma laid_size [simp]: "laid D (d\<lparr>d_size := z\<rparr>) fb n = laid D d fb n" "blocks_of D (d\<lparr>d_size := z\<rparr>) n = blocks_of D d n"
    "bytes_of D (d\<lparr>d_size := z\<rparr>) m = bytes_of D d m"
  by (simp_all add: laid_def blocks_of_def bytes_of_def)

lemma same_blocks:
  assumes "\<forall>b \<in> blocks_of D d (nblks z). D' b = D b"
  shows "laid D' d fb (nblks z) = laid D d fb (nblks z)" "blocks_of D' d (nblks z) = blocks_of D d (nblks z)"
    "bytes_of D' d z = bytes_of D d z"
proof -
  have i: "D' (d_addrs d ! 12) = D (d_addrs d ! 12)" if "12 < nblks z" using assms that by (simp add: blocks_of_def)
  show "laid D' d fb (nblks z) = laid D d fb (nblks z)" by (rule same_indirect(2)) (rule i)
  show "blocks_of D' d (nblks z) = blocks_of D d (nblks z)" by (rule same_indirect(3)) (rule i)
  have "D' (baddr D' d (k div 512)) = D (baddr D d (k div 512))" if "k < z" for k
  proof -
    have k: "k div 512 < nblks z" using that by (simp add: nblks_def)
    have "baddr D' d (k div 512) = baddr D d (k div 512)" by (rule same_indirect(1) [OF _ k]) (rule i)
    then show ?thesis using k assms by (simp add: blocks_of_def)
  qed
  then show "bytes_of D' d z = bytes_of D d z" by (simp add: bytes_of_def)
qed

lemma file_same:
  assumes "dn s' i = dn s i" "\<forall>b \<in> own s i. sect s' b = sect s b" "freeblock s \<le> freeblock s'" "file_ok s i"
  shows "file_ok s' i" "own s' i = own s i" "contents s' i = contents s i"
  using assms same_blocks [of "sect s" "dn s i" "d_size (dn s i)" "sect s'"] laid_mono
  by (auto simp: file_ok_def own_def contents_def)

lemma winode_dn:
  assumes "winode i d s = Some s'" "dinode_ok d" "i < 200" "sane s"
  shows "dn s' i = d" "j \<noteq> i \<Longrightarrow> dn s' j = dn s j" "b < 32 \<or> 58 \<le> b \<Longrightarrow> sect s' b = sect s b"
    "freeblock s' = freeblock s" "freeinode s' = freeinode s" "sane s'"
proof -
  have l: "length (sect s (i div 8 + 32)) = 512" using assms(4) by (simp add: sane_def)
  have o: "dinode_off i + length (enc_dinode d) \<le> 512" "length (enc_dinode d) = 64"
    using assms(2) by (simp_all add: dinode_off_def dinode_ok_def)
  have s: "s' = wsect (i div 8 + 32) (overwrite (sect s (i div 8 + 32)) (dinode_off i) (enc_dinode d)) s"
    using assms(1,3) by (auto simp: winode_def IBLOCK_mk rsect_def Let_def split: if_splits)
  show "dn s' i = d" using o l assms(2) by (simp add: s dn_def IBLOCK_mk wsect_def dec_dinode_overwrite dec_enc_dinode)
  show "dn s' j = dn s j" if "j \<noteq> i"
  proof (cases "j div 8 = i div 8")
    case True
    then have "j mod 8 \<noteq> i mod 8" using that by (metis div_mod_decomp)
    then have "dinode_off j + 64 \<le> dinode_off i \<or> dinode_off i + 64 \<le> dinode_off j" by (simp add: dinode_off_def) linarith
    moreover have "dinode_off j + 64 \<le> 512" by (simp add: dinode_off_def)
    ultimately show ?thesis using o l True by (simp add: s dn_def IBLOCK_mk wsect_def dec_dinode_other)
  qed (simp add: s dn_def IBLOCK_mk wsect_def)
  show "b < 32 \<or> 58 \<le> b \<Longrightarrow> sect s' b = sect s b" "freeblock s' = freeblock s" "freeinode s' = freeinode s"
    using assms(3) by (auto simp: s wsect_def)
  show "sane s'" using assms(3,4) l o by (auto simp: s wsect_def sane_def nmeta_eq)
qed

lemma laid_dinode_ok:
  assumes "laid D d fb (nblks z)" "fb \<le> 1000" "dinode_ok e" "d\<lparr>d_addrs := []\<rparr> = e\<lparr>d_addrs := []\<rparr>"
  shows "dinode_ok (d\<lparr>d_size := z\<rparr>)"
proof -
  have l: "length (d_addrs d) = 13" "nblks z \<le> 140" using assms(1) by (auto simp: laid_def)
  have "d_addrs d ! k \<le> 1000" if "k < 13" for k
  proof (cases "k = 12")
    case True
    then show ?thesis using assms(1,2) by (auto simp: laid_def split: if_splits)
  next
    case False
    then have "k < 12" using that by simp
    moreover have "baddr D d k = 0 \<or> baddr D d k < fb" using assms(1) \<open>k < 12\<close> by (cases "k < nblks z") (auto simp: laid_def)
    ultimately show ?thesis using assms(2) by (auto simp: baddr_def)
  qed
  then have "\<forall>a \<in> set (d_addrs d). a < 4294967296" using l by (fastforce simp: in_set_conv_nth)
  moreover have "z < 4294967296" using l(2) by (simp add: nblks_def) 
  moreover have "d_type d = d_type e" "d_major d = d_major e" "d_minor d = d_minor e" "d_nlink d = d_nlink e"
    using assms(4) by (cases d; cases e; simp)+
  ultimately show ?thesis using assms(3) l(1) by (simp add: dinode_ok_def)
qed

definition kept :: "nat set \<Rightarrow> image \<Rightarrow> image \<Rightarrow> bool" where
  "kept I s s' \<longleftrightarrow> (\<forall>i \<in> I. dn s' i = dn s i \<and> contents s' i = contents s i) \<and> (\<forall>b<32. sect s' b = sect s b)"

lemma own_range: "file_ok s i \<Longrightarrow> b \<in> own s i \<Longrightarrow> 59 \<le> b \<and> b < freeblock s"
  using laid_below by (auto simp: file_ok_def own_def nmeta_eq)

lemma iappend_frame:
  assumes "iappend i p s = Some s'" and i: "i < 200" "file_ok s i" "sane s"
  shows "sane s'" "freeinode s' = freeinode s" "freeblock s \<le> freeblock s'" "file_ok s' i" "contents s' i = contents s i @ p"
    "d_type (dn s' i) = d_type (dn s i)" "own s' i \<subseteq> own s i \<union> {freeblock s..<freeblock s'}"
    "j < 200 \<Longrightarrow> j \<noteq> i \<Longrightarrow> dn s' j = dn s j"
    "b < freeblock s \<Longrightarrow> b \<notin> own s i \<Longrightarrow> b < 32 \<or> 58 \<le> b \<Longrightarrow> sect s' b = sect s b"
proof -
  let ?d = "dn s i"
  let ?n = "nblks (d_size ?d)"
  obtain z d1 s1 where w: "iappend_loop p (d_size ?d) ?d s = Some (z, d1, s1)" "winode i (d1\<lparr>d_size := z\<rparr>) s1 = Some s'"
    using assms(1) i(1)
    by (auto simp: iappend_def rinode_def rsect_def dn_def IBLOCK_mk Let_def split: option.splits prod.splits if_splits)
  have G: "grew ?d s ?n d1 s1 (nblks z)" "bytes_of (sect s1) d1 z = contents s i @ p"
    using iappend_loop_grew [OF w(1) _ i(3)] i(2) by (auto simp: file_ok_def contents_def)
  then have g: "laid (sect s1) d1 (freeblock s1) (nblks z)" "sane s1" "freeinode s1 = freeinode s" "freeblock s \<le> freeblock s1"
      "d1\<lparr>d_addrs := []\<rparr> = ?d\<lparr>d_addrs := []\<rparr>" "\<forall>b < freeblock s. b \<notin> own s i \<longrightarrow> sect s1 b = sect s b"
      "blocks_of (sect s1) d1 (nblks z) \<subseteq> own s i \<union> {freeblock s..<freeblock s1}"
    by (auto simp: grew_def own_def)
  have ok: "dinode_ok (d1\<lparr>d_size := z\<rparr>)"
    using laid_dinode_ok [OF g(1) _ _ g(5)] i(2) g(2) by (auto simp: file_ok_def sane_def)
  note W = winode_dn [OF w(2) ok i(1) g(2)]
  have "\<forall>b \<in> blocks_of (sect s1) d1 (nblks z). sect s' b = sect s1 b"
  proof
    fix b assume "b \<in> blocks_of (sect s1) d1 (nblks z)"
    then show "sect s' b = sect s1 b" using laid_below [OF g(1), of b] W(3) [of b] by (simp add: nmeta_eq)
  qed
  note B = same_blocks [OF this]
  show "sane s'" "freeinode s' = freeinode s" "freeblock s \<le> freeblock s'" using W(4-6) g(3,4) by simp_all
  show "contents s' i = contents s i @ p" using B(3) G(2) W(1) by (simp add: contents_def)
  show "d_type (dn s' i) = d_type ?d" using W(1) g(5) by (cases d1; cases "dn s i") simp
  show "file_ok s' i" "own s' i \<subseteq> own s i \<union> {freeblock s..<freeblock s'}"
    using B(1,2) g(1,7) W(1,4) ok by (auto simp: file_ok_def own_def)
  show "sect s' b = sect s b" if "b < freeblock s" "b \<notin> own s i" "b < 32 \<or> 58 \<le> b"
    using W(3) [OF that(3)] g(6) that by simp
  show "dn s' j = dn s j" if "j < 200" "j \<noteq> i"
  proof -
    have "j div 8 + 32 < 59" using that(1) by simp
    then have "sect s1 (j div 8 + 32) = sect s (j div 8 + 32)"
      using g(6) [rule_format, of "j div 8 + 32"] own_range [OF i(2), of "j div 8 + 32"] i(3) by (simp add: sane_def nmeta_eq) blast
    then show ?thesis using W(2) [OF that(2)] by (simp add: dn_def IBLOCK_mk)
  qed
qed

lemma iappend_good:
  assumes "iappend i p s = Some s'" "good s" "1 \<le> i" "i < freeinode s"
  shows "good s'" "freeinode s' = freeinode s" "contents s' i = contents s i @ p" "d_type (dn s' i) = d_type (dn s i)"
    "kept ({1..<freeinode s} - {i}) s s'"
proof -
  have i: "i < 200" "file_ok s i" "sane s" using assms(2-4) by (auto simp: good_def)
  note F = iappend_frame [OF assms(1) i]
  show "freeinode s' = freeinode s" "contents s' i = contents s i @ p" "d_type (dn s' i) = d_type (dn s i)" by (fact F)+
  have other: "dn s' j = dn s j" "file_ok s' j" "own s' j = own s j" "contents s' j = contents s j"
    if j: "1 \<le> j" "j < freeinode s" "j \<noteq> i" for j
  proof -
    show d: "dn s' j = dn s j" using F(8) j assms(2) by (simp add: good_def)
    have ok: "file_ok s j" and e: "own s i \<inter> own s j = {}" using assms(2-4) j by (auto simp: good_def)
    have "sect s' b = sect s b" if "b \<in> own s j" for b using own_range [OF ok that] e that by (intro F(9)) auto
    then show "file_ok s' j" "own s' j = own s j" "contents s' j = contents s j"
      using file_same [OF d _ F(3) ok] by simp_all
  qed
  have "sect s' b = sect s b" if "b < 32" for b
    using F(9) [of b] that own_range [OF i(2), of b] i(3) by (auto simp: sane_def nmeta_eq)
  then show "kept ({1..<freeinode s} - {i}) s s'" using other by (simp add: kept_def)
  have below: "own s j \<inter> {freeblock s..<freeblock s'} = {}" if "1 \<le> j" "j < freeinode s" for j
  proof -
    have "file_ok s j" using assms(2) that by (simp add: good_def)
    then show ?thesis by (auto dest: own_range)
  qed
  have "own s' j \<inter> own s' k = {}" if "1 \<le> j" "j < freeinode s" "1 \<le> k" "k < freeinode s" "j \<noteq> k" for j k
  proof -
    define R where "R j = (if j = i then {freeblock s..<freeblock s'} else {})" for j
    have sub: "own s' j \<subseteq> own s j \<union> R j" if "1 \<le> j" "j < freeinode s" for j
      using that F(7) other(3) [of j] by (cases "j = i") (simp_all add: R_def)
    have "own s j \<inter> own s k = {}" using assms(2) that by (simp add: good_def)
    moreover have "own s j \<inter> R k = {}" "own s k \<inter> R j = {}" "R j \<inter> R k = {}"
      using below [OF that(1,2)] below [OF that(3,4)] that(5) by (simp_all add: R_def)
    ultimately show ?thesis using sub [OF that(1,2)] sub [OF that(3,4)] by blast
  qed
  moreover have "file_ok s' j" if "1 \<le> j" "j < freeinode s" for j using F(4) other(2) that by (cases "j = i") auto
  ultimately show "good s'" using F(1,2) assms(2) by (simp add: good_def)
qed

lemma mk_ialloc_good:
  assumes "mk_ialloc ty s = Some (i, s')" "good s" "1 \<le> freeinode s" "freeinode s < 200" "- 32768 \<le> ty" "ty < 32768"
  shows "i = freeinode s" "good s'" "freeinode s' = Suc i" "contents s' i = []" "d_type (dn s' i) = ty" "kept {1..<i} s s'"
proof -
  let ?d = "\<lparr>d_type = ty, d_major = 0, d_minor = 0, d_nlink = 1, d_size = 0, d_addrs = replicate 13 0\<rparr>"
  let ?s = "s\<lparr>freeinode := freeinode s + 1\<rparr>"
  show i: "i = freeinode s" using assms(1) by (auto simp: mk_ialloc_def Let_def)
  have w: "winode i ?d ?s = Some s'" using assms(1) i by (auto simp: mk_ialloc_def Let_def)
  have "dinode_ok ?d" "sane ?s" using assms(2,5,6) by (auto simp: dinode_ok_def good_def sane_def)
  then have W: "dn s' i = ?d" "\<And>j. j \<noteq> i \<Longrightarrow> dn s' j = dn s j" "\<And>b. b < 32 \<or> 58 \<le> b \<Longrightarrow> sect s' b = sect s b"
      "freeblock s' = freeblock s" "freeinode s' = Suc (freeinode s)" "sane s'"
    using winode_dn [OF w] assms(4) i by (simp_all add: dn_def)
  show "freeinode s' = Suc i" "contents s' i = []" "d_type (dn s' i) = ty"
    using W i by (simp_all add: contents_def bytes_of_def)
  have e: "own s' i = {}" "nblks 0 = 0" using W(1) by (simp_all add: own_def blocks_of_def nblks_def)
  have mine: "file_ok s' i"
    using W(1) e(2) \<open>dinode_ok ?d\<close> by (simp add: file_ok_def laid_def baddr_def)
  have other: "dn s' j = dn s j" "file_ok s' j" "own s' j = own s j" "contents s' j = contents s j" if j: "1 \<le> j" "j < i" for j
  proof -
    show d: "dn s' j = dn s j" using W(2) j by simp
    have ok: "file_ok s j" using assms(2) j i by (simp add: good_def)
    have "sect s' b = sect s b" if "b \<in> own s j" for b using own_range [OF ok that] by (intro W(3)) simp
    then show "file_ok s' j" "own s' j = own s j" "contents s' j = contents s j" using file_same [OF d _ _ ok] W(4) by simp_all
  qed
  then show "kept {1..<i} s s'" using W(3) by (simp add: kept_def)
  have "own s' j \<inter> own s' k = {}" if "1 \<le> j" "j < Suc i" "1 \<le> k" "k < Suc i" "j \<noteq> k" for j k
  proof (cases "j = i \<or> k = i")
    case False
    then show ?thesis using that other(3) assms(2) i by (simp add: good_def)
  qed (use e(1) in auto)
  moreover have "file_ok s' j" if "1 \<le> j" "j < Suc i" for j using mine other(2) that by (cases "j = i") auto
  ultimately show "good s'" using W(5,6) i assms(4) by (simp add: good_def)
qed

lemma kept_trans: "kept I s t \<Longrightarrow> kept J t u \<Longrightarrow> K \<subseteq> I \<Longrightarrow> K \<subseteq> J \<Longrightarrow> kept K s u"
  unfolding kept_def by (metis subsetD)

lemma append_pieces_good:
  assumes "append_pieces i ps s = Some s'" "good s" "1 \<le> i" "i < freeinode s"
  shows "good s' \<and> freeinode s' = freeinode s \<and> contents s' i = contents s i @ concat ps \<and> d_type (dn s' i) = d_type (dn s i) \<and>
    kept ({1..<freeinode s} - {i}) s s'"
  using assms
proof (induction ps arbitrary: s)
  case Nil
  then show ?case by (simp add: kept_def)
next
  case (Cons p ps)
  then obtain t where t: "iappend i p s = Some t" "append_pieces i ps t = Some s'" by (auto split: option.splits)
  note g = iappend_good [OF t(1) Cons.prems(2-4)]
  then show ?case using Cons.IH [OF t(2)] Cons.prems(3,4) kept_trans [OF g(5)] by auto
qed

subsection \<open>Files and their entries\<close>

definition entry :: "nat \<Rightarrow> byte list \<Rightarrow> byte list" where
  "entry i name = enc_dirent \<lparr>de_inum = i, de_name = name_field name\<rparr>"

lemma add_file_good:
  assumes "add_file name ps s = Some s'" "good s" "2 \<le> freeinode s" "freeinode s < 200"
  defines "i \<equiv> freeinode s"
  shows "good s' \<and> freeinode s' = Suc i \<and> contents s' 1 = contents s 1 @ entry i (skip_underscore name) \<and> d_type (dn s' 1) = d_type (dn s 1) \<and>
    contents s' i = concat ps \<and> d_type (dn s' i) = T_FILE \<and> kept {2..<i} s s'"
proof -
  obtain s1 s2 where s: "mk_ialloc 2 s = Some (i, s1)" "iappend 1 (entry i (skip_underscore name)) s1 = Some s2" "append_pieces i ps s2 = Some s'"
    using assms(1,4) unfolding i_def entry_def
    by (auto simp: add_file_def add_entry_def mk_ialloc_def Let_def split: if_splits option.splits)
  have i: "1 \<le> i" "1 \<le> freeinode s" using assms(3) by (simp_all add: i_def)
  have a: "good s1" "freeinode s1 = Suc i" "contents s1 i = []" "d_type (dn s1 i) = 2" "kept {1..<i} s s1"
    using mk_ialloc_good [OF s(1) assms(2) i(2) assms(4)] by simp_all
  have b: "good s2" "freeinode s2 = Suc i" "contents s2 1 = contents s1 1 @ entry i (skip_underscore name)"
      "d_type (dn s2 1) = d_type (dn s1 1)" "kept ({1..<Suc i} - {1}) s1 s2"
    using iappend_good [OF s(2) a(1)] a(2) i by simp_all
  have c: "good s'" "freeinode s' = Suc i" "contents s' i = contents s2 i @ concat ps" "d_type (dn s' i) = d_type (dn s2 i)"
      "kept ({1..<Suc i} - {i}) s2 s'"
    using append_pieces_good [OF s(3) b(1) i(1)] b(2) by simp_all
  have "contents s1 1 = contents s 1" "dn s1 1 = dn s 1" "contents s2 i = contents s1 i" "dn s2 i = dn s1 i"
      "contents s' 1 = contents s2 1" "dn s' 1 = dn s2 1"
    using a(5) b(5) c(5) assms(3) by (auto simp: kept_def i_def)
  moreover have "kept {2..<i} s s'"
  proof (rule kept_trans [OF _ c(5) subset_refl])
    show "kept {2..<i} s s2" by (rule kept_trans [OF a(5) b(5)]) auto
  qed auto
  ultimately show ?thesis using a b c by simp
qed

definition entries :: "nat \<Rightarrow> (byte list \<times> byte list list) list \<Rightarrow> byte list" where
  "entries i files = concat (map (\<lambda>k. entry (i + k) (skip_underscore (fst (files ! k)))) [0..<length files])"

lemma entries_Cons: "entries i (f # files) = entry i (skip_underscore (fst f)) @ entries (Suc i) files"
  by (simp add: entries_def upt_conv_Cons map_Suc_upt [symmetric] o_def del: upt_Suc)

lemma add_files_good:
  assumes "add_files files s = Some s'" "good s" "2 \<le> freeinode s" "freeinode s + length files \<le> 200"
  shows "good s' \<and> freeinode s' = freeinode s + length files \<and> contents s' 1 = contents s 1 @ entries (freeinode s) files \<and>
    d_type (dn s' 1) = d_type (dn s 1) \<and> kept {2..<freeinode s} s s' \<and>
    (\<forall>k < length files. contents s' (freeinode s + k) = concat (snd (files ! k)) \<and> d_type (dn s' (freeinode s + k)) = T_FILE)"
  using assms
proof (induction files arbitrary: s)
  case Nil
  then show ?case by (simp add: kept_def entries_def)
next
  case (Cons f files)
  obtain t where t: "add_file (fst f) (snd f) s = Some t" "add_files files t = Some s'"
    using Cons.prems(1) by (cases f) (auto split: option.splits)
  let ?i = "freeinode s"
  have a: "good t" "freeinode t = Suc ?i" "contents t 1 = contents s 1 @ entry ?i (skip_underscore (fst f))" "d_type (dn t 1) = d_type (dn s 1)"
      "contents t ?i = concat (snd f)" "d_type (dn t ?i) = T_FILE" "kept {2..<?i} s t"
    using add_file_good [OF t(1) Cons.prems(2,3)] Cons.prems(4) by simp_all
  then have b: "good s'" "freeinode s' = Suc ?i + length files" "contents s' 1 = contents t 1 @ entries (Suc ?i) files"
      "d_type (dn s' 1) = d_type (dn t 1)" "kept {2..<Suc ?i} t s'"
      "\<forall>k < length files. contents s' (Suc ?i + k) = concat (snd (files ! k)) \<and> d_type (dn s' (Suc ?i + k)) = T_FILE"
    using Cons.IH [OF t(2)] Cons.prems(3,4) by simp_all
  have "contents s' ?i = contents t ?i" "dn s' ?i = dn t ?i" using b(5) Cons.prems(3) by (simp_all add: kept_def)
  then have "contents s' (?i + k) = concat (snd ((f # files) ! k)) \<and> d_type (dn s' (?i + k)) = T_FILE" if "k < length (f # files)" for k
    using that a(5,6) b(6) by (cases k) simp_all
  moreover have "kept {2..<?i} s s'" by (rule kept_trans [OF a(7) b(5)]) auto
  ultimately show ?case using a b by (simp add: entries_Cons)
qed

lemma mk_root_good:
  assumes "mk_root = Some s"
  shows "good s" "freeinode s = 2" "contents s 1 = entry 1 [46] @ entry 1 [46, 46]" "d_type (dn s 1) = T_DIR"
    "sect s 1 = overwrite (replicate 512 0) 0 (enc_sb mk_sb)"
proof -
  let ?s = "wsect 1 (overwrite (replicate 512 0) 0 (enc_sb mk_sb)) \<lparr>sect = \<lambda>_. replicate 512 0, freeinode = 1, freeblock = nmeta\<rparr>"
  obtain s1 s2 where s: "mk_ialloc 1 ?s = Some (1, s1)" "iappend 1 (entry 1 [46]) s1 = Some s2" "iappend 1 (entry 1 [46, 46]) s2 = Some s"
    using assms by (auto simp: mk_root_def add_entry_def entry_def Let_def split: option.splits if_splits)
  have "length (enc_sb mk_sb) = 28" by (simp add: enc_sb_def)
  then have "good ?s" by (simp add: good_def sane_def wsect_def nmeta_eq)
  then have a: "good s1" "freeinode s1 = 2" "contents s1 1 = []" "d_type (dn s1 1) = 1" "kept {1..<1} ?s s1"
    using mk_ialloc_good [OF s(1)] by (simp_all add: wsect_def)
  note b = iappend_good [OF s(2) a(1)]
  note c = iappend_good [OF s(3), of]
  show "good s" "freeinode s = 2" "contents s 1 = entry 1 [46] @ entry 1 [46, 46]" "d_type (dn s 1) = T_DIR"
    using a b c by simp_all
  show "sect s 1 = overwrite (replicate 512 0) 0 (enc_sb mk_sb)"
    using a(2,5) b(2,5) c(5) b(1) by (simp add: kept_def wsect_def)
qed

lemma bytes_take: "n \<le> m \<Longrightarrow> \<exists>r. bytes_of D d m = bytes_of D d n @ r"
  using upt_add_eq_append [of 0 n "m - n"] by (auto simp: bytes_of_def)

lemma length_fold_mark: "length (fold (mark_bit v) xs z) = length z"
  by (induction xs arbitrary: z) simp_all

text \<open>The last steps change the size of the root directory and the bitmap, and nothing of the files.\<close>

lemma finish_dn:
  assumes "fix_root s = Some t" "mk_balloc (freeblock t) t = Some s'" "good s" "2 \<le> freeinode s"
  shows "dn s' 1 = (dn s 1)\<lparr>d_size := (d_size (dn s 1) div 512 + 1) * 512\<rparr>" "1 < j \<Longrightarrow> j < 200 \<Longrightarrow> dn s' j = dn s j"
    "b < 32 \<or> 59 \<le> b \<Longrightarrow> sect s' b = sect s b" "freeblock s' = freeblock s"
    "sect s' 58 = fold (mark_bit True) [0..<freeblock s] (replicate 512 0)" "length (sect s' c) = 512"
proof -
  let ?d = "dn s 1"
  let ?z = "(d_size ?d div 512 + 1) * 512"
  have g: "sane s" "file_ok s 1" using assms(3,4) by (auto simp: good_def)
  have w: "winode 1 (?d\<lparr>d_size := ?z\<rparr>) s = Some t"
    using assms(1) by (auto simp: fix_root_def rinode_def rsect_def dn_def IBLOCK_mk Let_def)
  have "nblks (d_size ?d) \<le> 140" using g(2) by (simp add: file_ok_def laid_def)
  then have "?z < 4294967296" by (simp add: nblks_def)
  then have ok: "dinode_ok (?d\<lparr>d_size := ?z\<rparr>)" using g(2) by (simp add: file_ok_def dinode_ok_def)
  note W = winode_dn [OF w ok _ g(1)]
  have s': "s' = wsect 58 (fold (mark_bit True) [0..<freeblock t] (replicate 512 0)) t"
    using assms(2) by (auto simp: mk_balloc_def mk_sb_def ninodeblocks_def split: if_splits)
  have d: "dn s' j = dn t j" if "j < 200" for j using that by (simp add: s' dn_def wsect_def IBLOCK_mk)
  show "dn s' 1 = ?d\<lparr>d_size := ?z\<rparr>" "1 < j \<Longrightarrow> j < 200 \<Longrightarrow> dn s' j = dn s j" using d W(1,2) by simp_all
  show "b < 32 \<or> 59 \<le> b \<Longrightarrow> sect s' b = sect s b" using W(3) [of b] by (auto simp: s' wsect_def)
  show "freeblock s' = freeblock s" "sect s' 58 = fold (mark_bit True) [0..<freeblock s] (replicate 512 0)"
    using W(4) by (simp_all add: s' wsect_def)
  show "length (sect s' c) = 512" using W(6) by (simp add: s' wsect_def sane_def length_fold_mark)
qed

lemma finish_files:
  assumes "fix_root s = Some t" "mk_balloc (freeblock t) t = Some s'" "good s" "2 \<le> freeinode s"
  shows "\<exists>r. contents s' 1 = contents s 1 @ r" "1 < j \<Longrightarrow> j < freeinode s \<Longrightarrow> contents s' j = contents s j \<and> own s' j = own s j"
proof -
  let ?d = "dn s 1"
  let ?z = "(d_size ?d div 512 + 1) * 512"
  note F = finish_dn [OF assms]
  have same: "\<forall>b \<in> own s j. sect s' b = sect s b" if "1 \<le> j" "j < freeinode s" for j
  proof
    fix b assume "b \<in> own s j"
    then show "sect s' b = sect s b" using F(3) [of b] own_range [of s j b] that assms(3) by (simp add: good_def)
  qed
  have "contents s' 1 = bytes_of (sect s') ?d ?z" using F(1) by (simp add: contents_def)
  moreover have "d_size ?d \<le> ?z" using block_room [of "d_size ?d"] by simp
  ultimately obtain r where "contents s' 1 = bytes_of (sect s') ?d (d_size ?d) @ r" using bytes_take by metis
  then show "\<exists>r. contents s' 1 = contents s 1 @ r"
    using same_blocks(3) [of "sect s" ?d "d_size ?d" "sect s'"] same [of 1] assms(4) by (auto simp: own_def contents_def)
  show "contents s' j = contents s j \<and> own s' j = own s j" if j: "1 < j" "j < freeinode s"
    using file_same(2,3) [of s' j s] F(2) [of j] same [of j] j assms(3) F(4) by (simp add: good_def)
qed

lemma bit_set_fold:
  "n \<le> 8 * length z \<Longrightarrow> bit_set (fold (mark_bit True) [0..<n] z) b \<longleftrightarrow> b < n \<or> bit_set z b"
proof (induction n)
  case (Suc n)
  then show ?case by (simp add: bit_set_mark length_fold_mark less_Suc_eq_le) auto
qed simp

subsection \<open>Room for the files\<close>

lemma length_contents: "length (contents s i) = d_size (dn s i)"
  by (simp add: contents_def bytes_of_def)

lemma iappend_Some:
  assumes "good s" "1 \<le> i" "i < freeinode s" "length (contents s i) + length p \<le> 71680"
    and "freeblock s + (need (length (contents s i) + length p) - need (length (contents s i))) \<le> 1000"
  shows "\<exists>s'. iappend i p s = Some s' \<and>
    freeblock s' = freeblock s + (need (length (contents s i) + length p) - need (length (contents s i)))"
proof -
  have g: "sane s" "file_ok s i" "i < 200" using assms(1-3) by (auto simp: good_def)
  obtain d' s1 where l: "iappend_loop p (d_size (dn s i)) (dn s i) s = Some (d_size (dn s i) + length p, d', s1)"
      "freeblock s1 = freeblock s + (need (d_size (dn s i) + length p) - need (d_size (dn s i)))"
    using iappend_loop_Some [OF _ g(1), of "dn s i" "d_size (dn s i)" p] g(2) assms(4,5) by (auto simp: length_contents file_ok_def)
  have "rinode i s = Some (dn s i)" "i div 8 + 32 < 1000" using g(3) by (simp_all add: rinode_def rsect_def dn_def IBLOCK_mk Let_def)
  then show ?thesis using l by (simp add: iappend_def winode_def rsect_def IBLOCK_mk wsect_def length_contents Let_def)
qed

lemma append_pieces_Some:
  assumes "good s" "1 \<le> i" "i < freeinode s" "length (contents s i) + length (concat ps) \<le> 71680"
    and "freeblock s + (need (length (contents s i) + length (concat ps)) - need (length (contents s i))) \<le> 1000"
  shows "\<exists>s'. append_pieces i ps s = Some s' \<and>
    freeblock s' = freeblock s + (need (length (contents s i) + length (concat ps)) - need (length (contents s i)))"
  using assms
proof (induction ps arbitrary: s)
  case (Cons p ps)
  let ?l = "length (contents s i)"
  have m: "need ?l \<le> need (?l + length p)" "need (?l + length p) \<le> need (?l + length (concat (p # ps)))" by (auto intro!: need_mono)
  have "freeblock s + (need (?l + length p) - need ?l) \<le> 1000" using Cons.prems(5) m by linarith
  then obtain t where t: "iappend i p s = Some t" "freeblock t = freeblock s + (need (?l + length p) - need ?l)"
    using iappend_Some [OF Cons.prems(1-3), of p] Cons.prems(4) by auto
  note g = iappend_good [OF t(1) Cons.prems(1-3)]
  have "\<exists>s'. append_pieces i ps t = Some s' \<and>
      freeblock s' = freeblock t + (need (length (contents t i) + length (concat ps)) - need (length (contents t i)))"
    using Cons.IH [OF g(1) Cons.prems(2)] Cons.prems(3-5) g(2,3) t(2) m by (simp add: add.assoc)
  then show ?case using t g(3) m by (auto simp: add.assoc)
qed simp

lemma length_entry [simp]: "length (entry i name) = 16"
  by (simp add: entry_def enc_dirent_def name_field_def)

definition file_need :: "byte list \<times> byte list list \<Rightarrow> nat" where
  "file_need f = need (length (concat (snd f)))"

definition file_fits :: "byte list \<times> byte list list \<Rightarrow> bool" where
  "file_fits f \<longleftrightarrow> SLASH \<notin> set (fst f) \<and> length (concat (snd f)) \<le> MAXFILE * BSIZE"

lemma add_file_Some:
  assumes "good s" "2 \<le> freeinode s" "freeinode s < 200" "file_fits f" "length (contents s 1) + 16 \<le> 71680"
    and room: "freeblock s + (need (length (contents s 1) + 16) - need (length (contents s 1))) + file_need f \<le> 1000"
  shows "\<exists>s'. add_file (fst f) (snd f) s = Some s' \<and>
    freeblock s' = freeblock s + (need (length (contents s 1) + 16) - need (length (contents s 1))) + file_need f"
proof -
  let ?i = "freeinode s"
  have "mk_ialloc 2 s \<noteq> None" using assms(3) by (simp add: mk_ialloc_def winode_def rsect_def IBLOCK_mk Let_def)
  then obtain s1 where s1: "mk_ialloc 2 s = Some (?i, s1)" "freeblock s1 = freeblock s"
    by (auto simp: mk_ialloc_def winode_def rsect_def wsect_def Let_def split: if_splits)
  have a: "good s1" "freeinode s1 = Suc ?i" "contents s1 ?i = []" "kept {1..<?i} s s1"
    using mk_ialloc_good [OF s1(1) assms(1) _ assms(3)] assms(2) by simp_all
  then have c: "contents s1 1 = contents s 1" using assms(2) by (simp add: kept_def)
  obtain s2 where s2: "iappend 1 (entry ?i (skip_underscore (fst f))) s1 = Some s2"
      "freeblock s2 = freeblock s + (need (length (contents s 1) + 16) - need (length (contents s 1)))"
    using iappend_Some [OF a(1), of 1 "entry ?i (skip_underscore (fst f))"] a(2) c s1(2) assms(2,5) room by auto
  have b: "good s2" "freeinode s2 = Suc ?i" "contents s2 ?i = []"
    using iappend_good [OF s2(1) a(1)] a(2,3) assms(2) by (simp_all add: kept_def)
  obtain s' where "append_pieces ?i (snd f) s2 = Some s'" "freeblock s' = freeblock s2 + file_need f"
    using append_pieces_Some [OF b(1), of ?i "snd f"] b(2,3) assms(2,4) room s2(2)
    by (auto simp: file_need_def file_fits_def need_def blks_def nblks_def)
  then show ?thesis
    using s1 s2 assms(3,4) by (simp add: add_file_def add_entry_def entry_def file_fits_def)
qed

lemma add_files_Some:
  assumes "good s" "2 \<le> freeinode s" "freeinode s + length files \<le> 200" "\<forall>f \<in> set files. file_fits f"
    and "length (contents s 1) + 16 * length files \<le> 71680"
    and "freeblock s + (need (length (contents s 1) + 16 * length files) - need (length (contents s 1))) + sum_list (map file_need files) \<le> 1000"
  shows "\<exists>s'. add_files files s = Some s'"
  using assms
proof (induction files arbitrary: s)
  case (Cons f files)
  let ?l = "length (contents s 1)"
  have m: "need ?l \<le> need (?l + 16)" "need (?l + 16) \<le> need (?l + 16 + 16 * length files)" by (auto intro!: need_mono)
  have p: "freeblock s + (need (?l + 16 + 16 * length files) - need ?l) + (file_need f + sum_list (map file_need files)) \<le> 1000"
    using Cons.prems(6) by (simp add: add.assoc)
  then have r: "freeblock s + (need (?l + 16) - need ?l) + file_need f \<le> 1000" using m by arith
  obtain t where t: "add_file (fst f) (snd f) s = Some t" "freeblock t = freeblock s + (need (?l + 16) - need ?l) + file_need f"
    using add_file_Some [OF Cons.prems(1,2) _ _ _ r] Cons.prems(3-5) by auto
  have g: "good t" "freeinode t = Suc (freeinode s)" "length (contents t 1) = ?l + 16"
    using add_file_good [OF t(1) Cons.prems(1,2)] Cons.prems(3) by simp_all
  have "\<exists>s'. add_files files t = Some s'"
  proof (rule Cons.IH)
    show "freeblock t + (need (length (contents t 1) + 16 * length files) - need (length (contents t 1))) + sum_list (map file_need files) \<le> 1000"
      unfolding g(3) t(2) using p m by arith
  qed (use g Cons.prems(2-5) in simp_all)
  then show ?case using t(1) by (cases f) simp
qed simp

lemma mk_root_Some: "\<exists>s. mk_root = Some s \<and> freeblock s = 60"
proof -
  let ?s = "wsect 1 (overwrite (replicate 512 0) 0 (enc_sb mk_sb)) \<lparr>sect = \<lambda>_. replicate 512 0, freeinode = 1, freeblock = nmeta\<rparr>"
  have "mk_ialloc 1 ?s \<noteq> None" by (simp add: mk_ialloc_def winode_def rsect_def wsect_def IBLOCK_mk Let_def)
  then obtain s1 where s1: "mk_ialloc 1 ?s = Some (1, s1)" "freeblock s1 = 59"
    by (auto simp: mk_ialloc_def winode_def rsect_def wsect_def nmeta_eq Let_def split: if_splits)
  have "length (enc_sb mk_sb) = 28" by (simp add: enc_sb_def)
  then have "good ?s" by (simp add: good_def sane_def wsect_def nmeta_eq)
  then have a: "good s1" "freeinode s1 = 2" "contents s1 1 = []"
    using mk_ialloc_good [OF s1(1)] by (simp_all add: wsect_def)
  have n: "need 0 = 0" "need 16 = 1" "need 32 = 1" by (simp_all add: need_def blks_def nblks_def)
  obtain s2 where s2: "iappend 1 (entry 1 [46]) s1 = Some s2" "freeblock s2 = 60"
    using iappend_Some [OF a(1), of 1 "entry 1 [46]"] a(2,3) s1(2) n by auto
  note b = iappend_good [OF s2(1) a(1)]
  obtain s3 where s3: "iappend 1 (entry 1 [46, 46]) s2 = Some s3" "freeblock s3 = 60"
    using iappend_Some [OF b(1), of 1 "entry 1 [46, 46]"] a(2,3) b(2,3) s2(2) n by auto
  show ?thesis using s1 s2 s3 by (simp add: mk_root_def add_entry_def entry_def Let_def)
qed

definition files_fit :: "(byte list \<times> byte list list) list \<Rightarrow> bool" where
  "files_fit files \<longleftrightarrow> length files + 2 \<le> NINODES \<and> (\<forall>f \<in> set files. file_fits f) \<and>
     nmeta + need (16 * (length files + 2)) + sum_list (map file_need files) \<le> FSSIZE"

text \<open>What the image is made of when the program is done.\<close>

lemma mkfs_parts:
  assumes "files_fit files"
  obtains s t s' where "mkfs files = Some s'" "fix_root s = Some t" "mk_balloc (freeblock t) t = Some s'" "good s" "freeinode s = length files + 2"
    "contents s 1 = entry 1 [46] @ entry 1 [46, 46] @ entries 2 files" "d_type (dn s 1) = T_DIR"
    "\<forall>k < length files. contents s (2 + k) = concat (snd (files ! k)) \<and> d_type (dn s (2 + k)) = T_FILE"
    "sect s 1 = overwrite (replicate 512 0) 0 (enc_sb mk_sb)"
proof -
  obtain s0 where s0: "mk_root = Some s0" "freeblock s0 = 60" using mk_root_Some by auto
  note R = mk_root_good [OF s0(1)]
  have n: "need 32 = 1" "need 32 \<le> need (32 + 16 * length files)" by (simp add: need_def blks_def nblks_def) (simp add: need_mono)
  have f: "nmeta + need (32 + 16 * length files) + sum_list (map file_need files) \<le> 1000" "length files \<le> 198" "\<forall>f \<in> set files. file_fits f"
    using assms by (simp_all add: files_fit_def add.commute)
  have "\<exists>s. add_files files s0 = Some s"
    by (rule add_files_Some) (use R f n s0(2) in \<open>simp_all add: nmeta_eq\<close>)
  then obtain s where s: "add_files files s0 = Some s" by auto
  have A: "good s" "freeinode s = length files + 2" "contents s 1 = entry 1 [46] @ entry 1 [46, 46] @ entries 2 files" "d_type (dn s 1) = T_DIR"
      "kept {2..<2} s0 s" "\<forall>k < length files. contents s (2 + k) = concat (snd (files ! k)) \<and> d_type (dn s (2 + k)) = T_FILE"
    using add_files_good [OF s R(1)] R f(2) by simp_all
  have "fix_root s \<noteq> None" by (simp add: fix_root_def rinode_def winode_def rsect_def IBLOCK_mk Let_def)
  then obtain t where t: "fix_root s = Some t" by auto
  have "freeblock t \<le> 1000"
    using t A(1) by (auto simp: fix_root_def rinode_def winode_def rsect_def wsect_def IBLOCK_mk Let_def good_def sane_def)
  then obtain s' where s': "mk_balloc (freeblock t) t = Some s'" by (simp add: mk_balloc_def)
  have "mkfs files = Some s'" unfolding mkfs_def s0(1) by (simp add: s t s')
  then show ?thesis
    by (rule that [OF _ t s' A(1-4,6)]) (use A(5) R(5) in \<open>simp add: kept_def\<close>)
qed

lemma sb_of_mk: "sb_of (overwrite (replicate 512 0) 0 (enc_sb mk_sb)) = mk_sb"
proof -
  have "dec32 (overwrite (replicate 512 0) 0 (enc_sb mk_sb)) (4 * k) =
      [sb_size mk_sb, sb_nblocks mk_sb, sb_ninodes mk_sb, sb_nlog mk_sb, sb_logstart mk_sb, sb_inodestart mk_sb, sb_bmapstart mk_sb] ! k" if "k < 7" for k
    using dec_overwrite(1) [of 0 "enc_sb mk_sb" "replicate 512 0" "4 * k"] that
    by (simp add: enc_sb_def del: concat.simps list.map) (subst dec32_concat; simp add: mk_sb_def nmeta_eq ninodeblocks_def)
  from this [of 0] this [of 1] this [of 2] this [of 3] this [of 4] this [of 5] this [of 6]
  show ?thesis by (simp add: sb_of_def)
qed

text \<open>The kernel's state when its disk is the image and it has read the super block.\<close>

definition mounted :: "image \<Rightarrow> 'z fsys_scheme \<Rightarrow> bool" where
  "mounted im s \<longleftrightarrow> view s = sect im \<and> disksize s = FSSIZE \<and> sb s = sb_of (sect im 1) \<and>
     log_start s = sb_logstart (sb s) \<and> log_size s = int (sb_nlog (sb s))"

definition demo_mounted :: "image \<Rightarrow> fsys" where
  "demo_mounted im = demo_log_on (sect im) FSSIZE LOGSIZE \<lparr>sb = mk_sb, inode = (\<lambda>_. demo_inode)\<rparr>"

lemma demo_mounted:
  assumes "files_fit files" "mkfs files = Some im"
  shows "mounted im (demo_mounted im)"
proof -
  obtain s0 t where P: "fix_root s0 = Some t" "mk_balloc (freeblock t) t = Some im" "good s0" "freeinode s0 = length files + 2"
      "sect s0 1 = overwrite (replicate 512 0) 0 (enc_sb mk_sb)"
    using mkfs_parts [OF assms(1)] assms(2) by (metis option.inject)
  have F: "sect im 1 = sect s0 1" "length (sect im b) = 512" for b using finish_dn(3,6) [OF P(1-3)] P(4) by simp_all
  have "view (demo_mounted im) = sect im" "sb (demo_mounted im) = mk_sb"
    unfolding demo_mounted_def demo_log_on_def by (rule demo_binv; simp add: F(2)) (simp add: demo_defs)
  then show ?thesis using F(1) P(5) sb_of_mk by (simp add: mounted_def demo_mounted_def mk_sb_def)
qed

subsection \<open>Properties\<close>



text \<open>C25. A kernel that runs on the image finds it well-formed in the sense that its block allocator relies on: the log, the inodes and
  the bitmap lie one after the other on the disk, every block before the data is marked as used, and of the others just
  those that the files have.\<close>

theorem mkfs_mounts:
  assumes "files_fit files" "mkfs files = Some im" "mounted im s"
  shows "fs_ok s \<and> (\<forall>b < FSSIZE. used s b \<longleftrightarrow> b < freeblock im)"
proof -
  obtain s0 t where P: "fix_root s0 = Some t" "mk_balloc (freeblock t) t = Some im" "good s0" "freeinode s0 = length files + 2"
      "sect s0 1 = overwrite (replicate 512 0) 0 (enc_sb mk_sb)"
    using mkfs_parts [OF assms(1)] assms(2) by (metis option.inject)
  have n: "2 \<le> freeinode s0" "freeblock s0 \<le> 1000" "59 \<le> freeblock s0" using P(3,4) by (simp_all add: good_def sane_def nmeta_eq)
  note F = finish_dn [OF P(1-3) n(1)]
  have sb: "sb s = mk_sb" using assms(3) F(3) [of 1] P(5) sb_of_mk by (simp add: mounted_def)
  have v: "sb_size mk_sb = 1000" "sb_ninodes mk_sb = 200" "sb_inodestart mk_sb = 32" "sb_bmapstart mk_sb = 58" "sb_logstart mk_sb = 2" "sb_nlog mk_sb = 30"
    by (simp_all add: mk_sb_def ninodeblocks_def)
  have u: "used s b \<longleftrightarrow> b < freeblock im" if "b < 1000" for b
    using bit_set_fold [of "freeblock s0" "replicate 512 0" b] n(2) that assms(3) F(4,5) sb
    by (simp add: used_def BBLOCK_def v mounted_def) (simp add: bit_set_def)
  have "data_start s = 59" by (simp add: data_start_def sb v)
  moreover have "fs_geom s" unfolding fs_geom_def \<open>data_start s = 59\<close> sb v IBLOCK_mk
    using assms(3) sb by (auto simp: mounted_def log_region_def v)
  ultimately show ?thesis using u n(3) F(4) by (simp add: fs_ok_def)
qed

theorem mkfs_mounts_witness:
  "\<exists>im. mkfs [([95, 97], [[1, 2, 3], [4]])] = Some im \<and> fs_ok (demo_mounted im) \<and>
    used (demo_mounted im) 60 = (60 < freeblock im)"
proof -
  have f: "files_fit [([95, 97], [[1, 2, 3], [4]])]"
    by (simp add: files_fit_def file_fits_def file_need_def need_def blks_def nblks_def nmeta_eq)
  then obtain im where im: "mkfs [([95, 97], [[1, 2, 3], [4]])] = Some im" by (rule mkfs_parts)
  show ?thesis using mkfs_mounts [OF f im demo_mounted [OF f im]] im by auto
qed

end
