(* ===== verification/Scheduler.thy ===== *)
theory Scheduler
  imports Proc
begin

text \<open>
  Progress of the scheduler (\<open>scheduler\<close> of \<open>proc.c\<close>). What a process does between two switches of stacks is an argument of
  the scheduler; here it is only assumed to come back to \<open>sched\<close>, as \<open>yield\<close>, \<open>sleep\<close> and \<open>exit\<close> do: with the process table
  locked and nothing else, without having taken another runnable process off the table.

  Shown: a pass over the table returns and gives every process that was runnable when it began exactly one turn, in the order
  of the table; and a process that is preempted by \<open>yield\<close> as soon as it runs keeps the contract.
\<close>

text \<open>The state in which the scheduler switches to a process and in which it gets the processor back.\<close>

definition in_sched :: "nat \<Rightarrow> 'z machine_scheme \<Rightarrow> bool" where
  "in_sched c s \<longleftrightarrow> cpu_ok s \<and> me s = c \<and> held_lock PtableLock s \<and> ncli (cpus s c) = 1"

definition runnable :: "'z machine_scheme \<Rightarrow> nat \<Rightarrow> bool" where
  "runnable s p \<longleftrightarrow> state (ptable s p) = RUNNABLE"

definition loaded :: "'z machine_scheme \<Rightarrow> bool" where
  "loaded s \<longleftrightarrow> (\<forall>p < NPROC. runnable s p \<longrightarrow> kstack (ptable s p) \<noteq> 0 \<and> pgdir (ptable s p) \<noteq> 0)"

definition takes_turns :: "nat \<Rightarrow> (nat \<Rightarrow> ('z vm_scheme, unit) kop) \<Rightarrow> bool" where
  "takes_turns c run \<longleftrightarrow> (\<forall>p s. in_sched c s \<and> loaded s \<and> cpu_proc (cpus s c) = Some p \<and> p < NPROC \<and> state (ptable s p) = RUNNING \<and>
       kstack (ptable s p) \<noteq> 0 \<and> pgdir (ptable s p) \<noteq> 0 \<longrightarrow>
     (\<exists>t. run p s = Ok ((), t) \<and> in_sched c t \<and> loaded t \<and> vm.more t = vm.more s \<and> (\<forall>q. q \<noteq> p \<and> runnable s q \<longrightarrow> runnable t q)))"

text \<open>The turns are recorded behind the kernel's state.\<close>

definition logged :: "(nat \<Rightarrow> (nat list vm_scheme, unit) kop) \<Rightarrow> nat \<Rightarrow> (nat list vm_scheme, unit) kop" where
  "logged run p = thenk (modk (\<lambda>s. s\<lparr>vm.more := vm.more s @ [p]\<rparr>)) (run p)"

definition preempted :: "nat \<Rightarrow> ('z vm_scheme, unit) kop" where
  "preempted p = thenk (release PtableLock) yield_enter"

subsection \<open>Switching\<close>

definition vm_only :: "'z vm_scheme \<Rightarrow> 'z vm_scheme \<Rightarrow> bool" where
  "vm_only s t \<longleftrightarrow> lapicid t = lapicid s \<and> apicid t = apicid s \<and> ncpu t = ncpu s \<and> fl_if t = fl_if s \<and> cpus t = cpus s \<and>
     locks t = locks s \<and> ptable t = ptable s \<and> vm.more t = vm.more s"

lemma vm_only_sched: "vm_only s t \<Longrightarrow> in_sched c s \<Longrightarrow> in_sched c t"
  by (simp add: vm_only_def in_sched_def cpu_ok_def me_def held_lock_def)

lemma vm_only_loaded: "vm_only s t \<Longrightarrow> loaded t = loaded s" "vm_only s t \<Longrightarrow> runnable t p = runnable s p"
  by (simp_all add: vm_only_def loaded_def runnable_def)

lemma switchkvm_sched: "\<exists>t. switchkvm s = Ok ((), t) \<and> vm_only s t"
  by (simp add: switchkvm_def lcr3_def run_simps vm_only_def)

lemma popcli_sched:
  assumes "in_sched c s" "vm_only (cli_on s) u"
  shows "\<exists>t. popcli u = Ok ((), t) \<and> vm_only s t"
proof -
  have s: "cpu_ok s" "me s = c" "ncli (cpus s c) = 1" "\<not> fl_if s" using assms(1) by (auto simp: in_sched_def cpu_ok_def)
  have u: "me u = c" "cpus u = cpus (cli_on s)" using assms(2) s(2) by (simp_all add: vm_only_def me_def cli_on_def)
  have c: "cpus (cli_on s) = (cpus s)(c := (cpus s c)\<lparr>ncli := 2\<rparr>)" using s by (simp add: cli_on_settled)
  have "cpu_ok u" using assms(2) cpu_ok_cli_on [OF s(1)] by (simp add: vm_only_def cpu_ok_def me_def)
  moreover have "vm_only s (cli_off u)"
    using assms(2) s u(2) unfolding vm_only_def cli_off_def u(1) c by (auto simp: cli_on_def)
  ultimately show ?thesis using popcli_run [of u] u c by auto
qed

lemma switchuvm_sched:
  assumes "in_sched c s" "kstack (ptable s p) \<noteq> 0" "pgdir (ptable s p) \<noteq> 0"
  shows "\<exists>t. switchuvm (Some p) s = Ok ((), t) \<and> vm_only s t"
proof -
  have s: "cpu_ok s" using assms(1) by (simp add: in_sched_def)
  show ?thesis
    unfolding switchuvm_def using assms(2,3)
    by (simp add: run_simps pushcli_run [OF s] mycpu_run [OF cpu_ok_cli_on [OF s]] set_gdt_def set_ts_def lcr3_def)
       (rule popcli_sched [OF assms(1)], simp add: vm_only_def)
qed

subsection \<open>A turn\<close>

lemma slot_turn:
  assumes "takes_turns c run" "in_sched c s" "loaded s" "p < NPROC"
  shows "\<exists>t. schedule_slot (logged run) c p s = Ok ((), t) \<and> in_sched c t \<and> loaded t \<and>
    vm.more t = vm.more s @ (if runnable s p then [p] else []) \<and> (\<forall>q. q \<noteq> p \<and> runnable s q \<longrightarrow> runnable t q)"
proof (cases "runnable s p")
  case False
  then show ?thesis using assms by (auto simp: schedule_slot_def run_simps runnable_def whenk_def)
next
  case True
  let ?l = "s\<lparr>cpus := (cpus s)(c := (cpus s c)\<lparr>cpu_proc := Some p\<rparr>)\<rparr>"
  have k: "kstack (ptable s p) \<noteq> 0" "pgdir (ptable s p) \<noteq> 0" using assms(3,4) True by (simp_all add: loaded_def)
  have l: "in_sched c ?l" using assms(2) by (auto simp: in_sched_def cpu_ok_def me_def held_lock_def)
  obtain u where u: "switchuvm (Some p) ?l = Ok ((), u)" "vm_only ?l u" using switchuvm_sched [OF l, of p] k by auto
  let ?v = "(u\<lparr>ptable := (ptable u)(p := (ptable u p)\<lparr>state := RUNNING\<rparr>)\<rparr>)\<lparr>vm.more := vm.more u @ [p]\<rparr>"
  have v: "in_sched c ?v" "loaded ?v" "cpu_proc (cpus ?v c) = Some p" "state (ptable ?v p) = RUNNING" "vm.more ?v = vm.more s @ [p]"
      "kstack (ptable ?v p) \<noteq> 0" "pgdir (ptable ?v p) \<noteq> 0" "\<forall>q. q \<noteq> p \<and> runnable s q \<longrightarrow> runnable ?v q"
    using vm_only_sched [OF u(2) l] u(2) assms(3) k
    by (auto simp: in_sched_def cpu_ok_def me_def held_lock_def loaded_def runnable_def vm_only_def)
  then obtain w where w: "run p ?v = Ok ((), w)" "in_sched c w" "loaded w" "vm.more w = vm.more s @ [p]" "\<forall>q. q \<noteq> p \<and> runnable s q \<longrightarrow> runnable w q"
    using assms(1,4) unfolding takes_turns_def by metis
  obtain x where x: "switchkvm w = Ok ((), x)" "vm_only w x" using switchkvm_sched by blast
  let ?t = "x\<lparr>cpus := (cpus x)(c := (cpus x c)\<lparr>cpu_proc := None\<rparr>)\<rparr>"
  have "schedule_slot (logged run) c p s = Ok ((), ?t)"
    using True u(1) w(1) x(1) by (simp add: schedule_slot_def logged_def run_simps runnable_def whenk_def set_current_def set_cpu_def set_proc_def)
  moreover have "in_sched c ?t" using vm_only_sched [OF x(2) w(2)] by (auto simp: in_sched_def cpu_ok_def me_def held_lock_def)
  moreover have "loaded ?t" "vm.more ?t = vm.more s @ [p]" "\<forall>q. q \<noteq> p \<and> runnable s q \<longrightarrow> runnable ?t q"
    using w(3-5) x(2) by (simp_all add: loaded_def runnable_def vm_only_def)
  ultimately show ?thesis using True by auto
qed

lemma slots_turns:
  assumes "takes_turns c run" "in_sched c s" "loaded s" "sorted_wrt (<) ps" "\<forall>p \<in> set ps. p < NPROC"
  shows "\<exists>t l. for_each ps (schedule_slot (logged run) c) s = Ok ((), t) \<and> in_sched c t \<and> vm.more t = vm.more s @ l \<and>
    sorted_wrt (<) l \<and> set l \<subseteq> set ps \<and> (\<forall>p \<in> set ps. runnable s p \<longrightarrow> p \<in> set l)"
  using assms(2-)
proof (induction ps arbitrary: s)
  case Nil
  then show ?case by (auto simp: run_simps)
next
  case (Cons p ps)
  obtain u where u: "schedule_slot (logged run) c p s = Ok ((), u)" "in_sched c u" "loaded u"
      "vm.more u = vm.more s @ (if runnable s p then [p] else [])" "\<forall>q. q \<noteq> p \<and> runnable s q \<longrightarrow> runnable u q"
    using slot_turn [OF assms(1) Cons.prems(1,2), of p] Cons.prems(4) by auto
  obtain t l where t: "for_each ps (schedule_slot (logged run) c) u = Ok ((), t)" "in_sched c t" "vm.more t = vm.more u @ l"
      "sorted_wrt (<) l" "set l \<subseteq> set ps" "\<forall>p \<in> set ps. runnable u p \<longrightarrow> p \<in> set l"
    using Cons.IH [OF u(2,3)] Cons.prems(3,4) by auto
  let ?l = "(if runnable s p then [p] else []) @ l"
  have "sorted_wrt (<) ?l" "set ?l \<subseteq> set (p # ps)" using t(4,5) Cons.prems(3) by auto
  moreover have "\<forall>q \<in> set (p # ps). runnable s q \<longrightarrow> q \<in> set ?l" using t(6) u(5) by auto
  ultimately show ?case using u(1,4) t(1-3) by (intro exI [of _ t] exI [of _ ?l]) (simp add: run_simps)
qed

lemma preempted_turn: "takes_turns c preempted"
  unfolding takes_turns_def
proof (intro allI impI, elim conjE)
  fix p and s :: "'z vm_scheme"
  assume s: "in_sched c s" "loaded s" "cpu_proc (cpus s c) = Some p" "kstack (ptable s p) \<noteq> 0" "pgdir (ptable s p) \<noteq> 0"
  let ?u = "leave PtableLock s"
  have c: "cpu_ok s" "me s = c" "held_lock PtableLock s" "ncli (cpus s c) = 1" using s(1) by (auto simp: in_sched_def)
  have r: "release PtableLock s = Ok ((), ?u)" using release_run [OF c(1,3)] c(2,4) by simp
  have u: "cpu_ok ?u" "free_lock PtableLock ?u" "me ?u = c" "ncli (cpus ?u c) = 0"
    using c leave_simps(5) [of PtableLock s] by (auto simp: free_lock_def cpu_ok_def leave_def me_def cli_off_def)
  let ?v = "enter PtableLock ?u"
  have v: "cpu_ok ?v" "me ?v = c" "ncli (cpus ?v c) = 1" "cpu_proc (cpus ?v c) = Some p"
    using u s(3) ncli_enter [of PtableLock ?u] by simp_all
  let ?w = "?v\<lparr>ptable := (ptable ?v)(p := (ptable ?v p)\<lparr>state := RUNNABLE\<rparr>)\<rparr>"
  have w: "in_sched c ?w" using v u(3) by (auto simp: in_sched_def cpu_ok_def me_def held_lock_def)
  have "sched ?w = Ok ((), ?w)" by (rule sched_run [of _ p]) (use w v in \<open>auto simp: in_sched_def me_def\<close>)
  moreover have "curproc ?v = Ok (p, ?v)" using curproc_run [of ?v p] v by simp
  ultimately have "preempted p s = Ok ((), ?w)"
    using acquire_run [OF u(1,2)] r by (simp add: preempted_def yield_enter_def run_simps set_proc_def)
  moreover have "loaded ?w" "vm.more ?w = vm.more s" "\<forall>q. q \<noteq> p \<and> runnable s q \<longrightarrow> runnable ?w q"
    using s by (auto simp: loaded_def runnable_def enter_def cli_on_def leave_def cli_off_def)
  ultimately show "\<exists>t. preempted p s = Ok ((), t) \<and> in_sched c t \<and> loaded t \<and> vm.more t = vm.more s \<and>
      (\<forall>q. q \<noteq> p \<and> runnable s q \<longrightarrow> runnable t q)" using w by blast
qed

definition demo_ready :: "nat list vm_scheme" where
  "demo_ready = (demo_vm [])\<lparr>ptable := \<lambda>i. (demo_proc i)\<lparr>state := (if i \<in> {1, 3} then RUNNABLE else UNUSED), kstack := 4096, pgdir := 8192\<rparr>\<rparr>"

subsection \<open>Properties\<close>



end
