(* ===== verification/Apic.thy ===== *)
theory Apic
  imports Console
begin

unbundle bit_operations_syntax

text \<open>
  The interrupt controllers (\<open>ioapic.c\<close>, \<open>lapic.c\<close>, \<open>picirq.c\<close>) and the clock of the CMOS. The controllers are devices: an operation is
  the list of the writes it makes to their registers, and what it reads from them is an argument. A loop that polls a register
  takes the values of the successive polls and is \<open>None\<close> if they end before the awaited one.

  Shown: after the I/O controller is initialised, exactly the interrupts that were enabled are delivered, each with its vector and
  to the processor it was enabled for; the date read from a clock that shows it in binary coded decimals is that date.
\<close>

datatype bus = Mem uint uint | Mem16 uint "16 word" | Port nat byte

subsection \<open>The I/O controller\<close>

abbreviation (input) T_IRQ0 :: uint where "T_IRQ0 \<equiv> 32"
abbreviation (input) IOAPIC :: uint where "IOAPIC \<equiv> 0xFEC00000"
abbreviation (input) REG_TABLE :: uint where "REG_TABLE \<equiv> 0x10"
abbreviation (input) INT_DISABLED :: uint where "INT_DISABLED \<equiv> 0x00010000"

definition ioapicwrite :: "uint \<Rightarrow> uint \<Rightarrow> bus list" where
  "ioapicwrite reg data = [Mem IOAPIC reg, Mem (IOAPIC + 16) data]"

definition ioapic_off :: "nat \<Rightarrow> bus list" where
  "ioapic_off i = ioapicwrite (REG_TABLE + 2 * of_nat i) (INT_DISABLED OR (T_IRQ0 + of_nat i)) @
     ioapicwrite (REG_TABLE + 2 * of_nat i + 1) 0"

definition ioapicinit :: "(uint \<Rightarrow> uint) \<Rightarrow> uint \<Rightarrow> bus list \<times> string" where
  "ioapicinit rd ioapicid =
     (let maxintr = drop_bit 16 (rd 1) AND 0xFF; id = drop_bit 24 (rd 0) :: uint in
      ([Mem IOAPIC 1, Mem IOAPIC 0] @ concat (map ioapic_off [0..<Suc (unat maxintr)]),
       if id \<noteq> ioapicid then ''ioapicinit: id isn't equal to ioapicid; not a MP'' @ [CHR 0x0A] else []))"

definition ioapicenable :: "nat \<Rightarrow> uint \<Rightarrow> bus list" where
  "ioapicenable irq cpunum =
     ioapicwrite (REG_TABLE + 2 * of_nat irq) (T_IRQ0 + of_nat irq) @
     ioapicwrite (REG_TABLE + 2 * of_nat irq + 1) (push_bit 24 cpunum)"

definition picinit :: "bus list" where
  "picinit = [Port (0x20 + 1) 0xFF, Port (0xA0 + 1) 0xFF]"

text \<open>The controller's registers are selected by one address and written through another.\<close>

fun io_step :: "bus \<Rightarrow> uint \<times> (uint \<Rightarrow> uint) \<Rightarrow> uint \<times> (uint \<Rightarrow> uint)" where
  "io_step (Mem a v) (sel, regs) =
     (if a = IOAPIC then (v, regs) else if a = IOAPIC + 16 then (sel, regs(sel := v)) else (sel, regs))"
| "io_step (Mem16 a v) c = c"
| "io_step (Port p v) c = c"

definition io_regs :: "bus list \<Rightarrow> (uint \<Rightarrow> uint) \<Rightarrow> uint \<Rightarrow> uint" where
  "io_regs ws regs = snd (fold io_step ws (0, regs))"

text \<open>An interrupt is delivered to a processor if its entry is not masked.\<close>

definition delivered :: "(uint \<Rightarrow> uint) \<Rightarrow> nat \<Rightarrow> (uint \<times> uint) option" where
  "delivered regs i =
     (let lo = regs (REG_TABLE + 2 * of_nat i) in
      if lo AND INT_DISABLED \<noteq> 0 then None
      else Some (lo AND 0xFF, drop_bit 24 (regs (REG_TABLE + 2 * of_nat i + 1))))"

lemma fold_io_write: "fold io_step (ioapicwrite r d) c = (r, (snd c)(r := d))"
  by (cases c) (simp add: ioapicwrite_def)

definition pair_regs :: "nat \<Rightarrow> uint \<Rightarrow> uint \<Rightarrow> (uint \<Rightarrow> uint) \<Rightarrow> uint \<Rightarrow> uint" where
  "pair_regs i lo hi regs = regs(REG_TABLE + 2 * of_nat i := lo, REG_TABLE + 2 * of_nat i + 1 := hi)"

lemma fold_io_pair:
  "snd (fold io_step (ioapic_off i) c) = pair_regs i (INT_DISABLED OR (T_IRQ0 + of_nat i)) 0 (snd c)"
  "snd (fold io_step (ioapicenable i n) c) = pair_regs i (T_IRQ0 + of_nat i) (push_bit 24 n) (snd c)"
  by (simp_all add: ioapic_off_def ioapicenable_def fold_io_write pair_regs_def)

lemma unat_small: "n < 4294967296 \<Longrightarrow> unat (of_nat n :: uint) = n"
  by (simp add: unat_of_nat)

lemma pair_index:
  assumes "i < 256" "j < 256"
  shows "REG_TABLE + 2 * of_nat i = (REG_TABLE + 2 * of_nat j :: uint) \<longleftrightarrow> i = j" "REG_TABLE + 2 * of_nat i \<noteq> (REG_TABLE + 2 * of_nat j + 1 :: uint)"
    "REG_TABLE + 2 * of_nat i + 1 = (REG_TABLE + 2 * of_nat j + 1 :: uint) \<longleftrightarrow> i = j"
proof -
  have u: "unat (REG_TABLE + 2 * of_nat k :: uint) = 16 + 2 * k" "unat (REG_TABLE + 2 * of_nat k + 1 :: uint) = 17 + 2 * k" if "k < 256" for k
    using that unat_small [of "16 + 2 * k"] unat_small [of "17 + 2 * k"] by simp_all
  show "REG_TABLE + 2 * of_nat i = (REG_TABLE + 2 * of_nat j :: uint) \<longleftrightarrow> i = j"
    using u(1) [OF assms(1)] u(1) [OF assms(2)] by (metis add_left_cancel mult_left_cancel zero_neq_numeral)
  show "REG_TABLE + 2 * of_nat i + 1 = (REG_TABLE + 2 * of_nat j + 1 :: uint) \<longleftrightarrow> i = j"
    using u(2) [OF assms(1)] u(2) [OF assms(2)] by (metis add_left_cancel mult_left_cancel zero_neq_numeral)
  have "16 + 2 * i \<noteq> 17 + 2 * j" by presburger
  then show "REG_TABLE + 2 * of_nat i \<noteq> (REG_TABLE + 2 * of_nat j + 1 :: uint)"
    using u(1) [OF assms(1)] u(2) [OF assms(2)] by metis
qed

lemma delivered_pair:
  assumes "i < 256" "j < 256"
  shows "delivered (pair_regs i lo hi regs) j =
    (if i = j then if lo AND INT_DISABLED \<noteq> 0 then None else Some (lo AND 0xFF, drop_bit 24 hi) else delivered regs j)"
  using pair_index [OF assms] pair_index [OF assms(2,1)] by (auto simp: delivered_def pair_regs_def Let_def)

lemma vector_bits:
  assumes "i < 224"
  shows "(INT_DISABLED OR (T_IRQ0 + of_nat i)) AND INT_DISABLED \<noteq> 0" "(T_IRQ0 + of_nat i) AND INT_DISABLED = 0"
    "(T_IRQ0 + of_nat i) AND 0xFF = (T_IRQ0 + of_nat i :: uint)"
proof -
  let ?w = "T_IRQ0 + of_nat i :: uint"
  have "unat ?w = 32 + i" using unat_small [of "32 + i"] assms by simp
  then have "take_bit 8 ?w = ?w" using assms by (intro word_unat_eq_iff [THEN iffD2]) (simp add: unsigned_take_bit_eq take_bit_nat_eq_self)
  moreover have "?w AND 0xFF = take_bit 8 ?w" by (simp add: take_bit_eq_mask mask_eq_exp_minus_1)
  ultimately show w: "?w AND 0xFF = ?w" by simp
  have "\<not> bit ?w 16" using \<open>take_bit 8 ?w = ?w\<close> bit_take_bit_iff [of 8 ?w 16] by simp
  then have "?w AND 2 ^ 16 = 0" unfolding and_exp_eq_0_iff_not_bit .
  then show "?w AND INT_DISABLED = 0" by simp
  have "(2 ^ 16 OR ?w) AND 2 ^ 16 \<noteq> 0" unfolding and_exp_eq_0_iff_not_bit by (simp add: bit_or_iff bit_exp_iff)
  then show "(INT_DISABLED OR ?w) AND INT_DISABLED \<noteq> 0" by simp
qed

lemma shift_back:
  assumes "n < 256"
  shows "drop_bit 24 (push_bit 24 n) = (n :: uint)"
proof -
  have "unat n < 256" using assms by (simp add: word_less_nat_alt)
  then have "take_bit 8 n = n" by (intro word_unat_eq_iff [THEN iffD2]) (simp add: unsigned_take_bit_eq take_bit_nat_eq_self)
  moreover have "drop_bit 24 (push_bit 24 n) = take_bit 8 n" by (rule bit_word_eqI) (auto simp: bit_simps)
  ultimately show ?thesis by simp
qed

lemma delivered_init:
  assumes "j < 224" "m \<le> 224"
  shows "j < m \<Longrightarrow> delivered (snd (fold io_step (concat (map ioapic_off [0..<m])) c)) j = None"
  using assms
proof (induction m)
  case (Suc m)
  let ?c = "fold io_step (concat (map ioapic_off [0..<m])) c"
  have "snd (fold io_step (concat (map ioapic_off [0..<Suc m])) c) = pair_regs m (INT_DISABLED OR (T_IRQ0 + of_nat m)) 0 (snd ?c)"
    by (simp add: fold_io_pair)
  then show ?case using Suc vector_bits(1) [of m] by (cases "j = m") (simp_all add: delivered_pair)
qed simp

lemma delivered_enable:
  assumes "\<forall>(i, n) \<in> set es. i < 224 \<and> n < 256" "distinct (map fst es)" "j < 224"
  shows "delivered (snd (fold io_step (concat (map (\<lambda>(i, n). ioapicenable i n) es)) c)) j =
    (case map_of es j of Some n \<Rightarrow> Some (T_IRQ0 + of_nat j, n) | None \<Rightarrow> delivered (snd c) j)"
  using assms(1,2)
proof (induction es arbitrary: c)
  case (Cons e es)
  obtain i n where e: "e = (i, n)" by force
  have i: "i < 224" "n < 256" "\<forall>(i, n) \<in> set es. i < 224 \<and> n < 256" "i \<notin> fst ` set es" "distinct (map fst es)"
    using Cons.prems by (auto simp: e)
  have d: "delivered (pair_regs i (T_IRQ0 + of_nat i) (push_bit 24 n) (snd c)) j =
      (if i = j then Some (T_IRQ0 + of_nat j, n) else delivered (snd c) j)"
    using vector_bits [OF i(1)] shift_back [OF i(2)] i(1) assms(3) by (cases "i = j") (simp_all add: delivered_pair)
  have "map_of es i = None" using i(4) by (simp add: map_of_eq_None_iff)
  then show ?case using Cons.IH [OF i(3,5), of "fold io_step (ioapicenable i n) c"] d by (cases "i = j") (simp_all add: e fold_io_pair split: option.splits)
qed simp

text \<open>C28. The I/O interrupt controller after \<open>ioapicinit\<close> and any number of \<open>ioapicenable\<close> calls for different lines: whatever its
  registers held before, a line is delivered exactly if it was enabled, with the vector that the trap handler expects for it and to
  the processor it was enabled for. This holds for every controller with at most 224 lines, the number of vectors above \<open>T_IRQ0\<close>.
\<close>

theorem ioapic_routes:
  assumes "unat (drop_bit 16 (rd 1) AND 0xFF :: uint) < 224" "j \<le> unat (drop_bit 16 (rd 1) AND 0xFF :: uint)"
    and "\<forall>(i, n) \<in> set es. i < 224 \<and> n < 256" "distinct (map fst es)"
  shows "delivered (io_regs (fst (ioapicinit rd ioapicid) @ concat (map (\<lambda>(i, n). ioapicenable i n) es)) regs) j =
    map_option (Pair (T_IRQ0 + of_nat j)) (map_of es j)"
proof -
  let ?m = "Suc (unat (drop_bit 16 (rd 1) AND 0xFF :: uint))"
  let ?c = "fold io_step [Mem IOAPIC 1, Mem IOAPIC 0] (0, regs)"
  have "delivered (snd (fold io_step (concat (map ioapic_off [0..<?m])) ?c)) j = None"
    using assms(1,2) by (intro delivered_init) simp_all
  then show ?thesis using delivered_enable [OF assms(3,4), of j "fold io_step (concat (map ioapic_off [0..<?m])) ?c"] assms(1,2)
    by (simp add: io_regs_def ioapicinit_def Let_def split: option.split)
qed

theorem ioapic_routes_witness:
  "delivered (io_regs (fst (ioapicinit (\<lambda>_. 0x00170011) 0) @ ioapicenable 4 0 @ ioapicenable 14 1) (\<lambda>_. 0xFFFFFFFF)) 14 = Some (46, 1) \<and>
   delivered (io_regs (fst (ioapicinit (\<lambda>_. 0x00170011) 0) @ ioapicenable 4 0 @ ioapicenable 14 1) (\<lambda>_. 0xFFFFFFFF)) 5 = None"
  using ioapic_routes [of "\<lambda>_. 0x00170011" 14 "[(4, 0), (14, 1)]" 0 "\<lambda>_. 0xFFFFFFFF"]
    ioapic_routes [of "\<lambda>_. 0x00170011" 5 "[(4, 0), (14, 1)]" 0 "\<lambda>_. 0xFFFFFFFF"] by simp

subsection \<open>The serial port\<close>

text \<open>\<open>status\<close> is what the line status register shows; reading the data register takes a byte out of the receiver.\<close>

definition uartinit :: "byte \<Rightarrow> ('z console_scheme, bus list) kop" where
  "uartinit status =
     (let ports = [Port (0x3f8 + 2) 0, Port (0x3f8 + 3) 0x80, Port 0x3f8 (115200 div 9600), Port (0x3f8 + 1) 0,
          Port (0x3f8 + 3) 3, Port (0x3f8 + 4) 0, Port (0x3f8 + 1) 1] in
      if status = 0xFF then ret ports
      else thenk (modk (\<lambda>s. s\<lparr>uart := True\<rparr>)) (
        thenk (modk (\<lambda>s. s\<lparr>uart_in := tl (uart_in s)\<rparr>)) (
        thenk (for_each (''xv6...'' @ [CHR 0x0A]) (\<lambda>c. uartputc (of_char c)))
          (ret (ports @ ioapicenable 4 0)))))"

lemma uartputcs_run:
  "uart s \<Longrightarrow> for_each xs (\<lambda>c. uartputc (of_char c)) s = Ok ((), s\<lparr>uart_out := uart_out s @ map of_char xs\<rparr>)"
proof (induction xs arbitrary: s)
  case (Cons x xs)
  have "of_char x mod 256 = (of_char x :: nat)" by simp
  then show ?case using Cons by (simp add: thenk_run uartputc_run)
qed (simp add: run_simps)

lemma uartinit_announces:
  assumes "status \<noteq> 0xFF"
  obtains ws where "uartinit status s =
      Ok (ws, s\<lparr>uart := True, uart_in := tl (uart_in s), uart_out := uart_out s @ map of_char (''xv6...'' @ [CHR 0x0A])\<rparr>)"
    and "delivered (io_regs ws regs) 4 = Some (36, 0)"
proof
  let ?ports = "[Port (0x3f8 + 2) 0, Port (0x3f8 + 3) 0x80, Port 0x3f8 (115200 div 9600), Port (0x3f8 + 1) 0,
    Port (0x3f8 + 3) 3, Port (0x3f8 + 4) 0, Port (0x3f8 + 1) 1]"
  let ?s = "s\<lparr>uart := True, uart_in := tl (uart_in s)\<rparr>"
  have "for_each (''xv6...'' @ [CHR 0x0A]) (\<lambda>c. uartputc (of_char c)) ?s =
      Ok ((), ?s\<lparr>uart_out := uart_out ?s @ map of_char (''xv6...'' @ [CHR 0x0A])\<rparr>)" by (rule uartputcs_run) simp
  then show "uartinit status s = Ok (?ports @ ioapicenable 4 0, s\<lparr>uart := True, uart_in := tl (uart_in s),
      uart_out := uart_out s @ map of_char (''xv6...'' @ [CHR 0x0A])\<rparr>)"
    using assms by (simp only: uartinit_def Let_def if_False thenk_run modk_run ret_def outcome.simps prod.simps) simp
  have "delivered (snd (fold io_step (concat (map (\<lambda>(i, n). ioapicenable i n) [(4, 0)])) (fold io_step ?ports (0, regs)))) 4 = Some (36, 0)"
    by (subst delivered_enable) simp_all
  then show "delivered (io_regs (?ports @ ioapicenable 4 0) regs) 4 = Some (36, 0)" by (simp add: io_regs_def)
qed

subsection \<open>The local controller\<close>

text \<open>The registers as indices of an array of words.\<close>

definition lapicw :: "uint \<Rightarrow> uint \<Rightarrow> uint \<Rightarrow> bus list" where
  "lapicw lapic index v = [Mem (lapic + 4 * index) v]"

fun delivs_wait :: "uint list \<Rightarrow> unit option" where
  "delivs_wait [] = None"
| "delivs_wait (v # vs) = (if v AND 0x1000 \<noteq> 0 then delivs_wait vs else Some ())"

definition lapicinit :: "uint \<Rightarrow> uint \<Rightarrow> uint list \<Rightarrow> bus list option" where
  "lapicinit lapic ver polls =
     (if lapic = 0 then Some []
      else if delivs_wait polls = None then None
      else Some (
        lapicw lapic (0xF0 div 4) (0x100 OR (T_IRQ0 + 31)) @
        lapicw lapic (0x3E0 div 4) 0xB @
        lapicw lapic (0x320 div 4) (0x20000 OR (T_IRQ0 + 0)) @
        lapicw lapic (0x380 div 4) 10000000 @
        lapicw lapic (0x350 div 4) 0x10000 @
        lapicw lapic (0x360 div 4) 0x10000 @
        (if 4 \<le> drop_bit 16 ver AND 0xFF then lapicw lapic (0x340 div 4) 0x10000 else []) @
        lapicw lapic (0x370 div 4) (T_IRQ0 + 19) @
        lapicw lapic (0x280 div 4) 0 @
        lapicw lapic (0x280 div 4) 0 @
        lapicw lapic (0xB0 div 4) 0 @
        lapicw lapic (0x310 div 4) 0 @
        lapicw lapic (0x300 div 4) (0x80000 OR 0x500 OR 0x8000) @
        lapicw lapic (0x80 div 4) 0))"

definition lapicid_read :: "uint \<Rightarrow> uint \<Rightarrow> uint" where
  "lapicid_read lapic idreg = (if lapic = 0 then 0 else drop_bit 24 idreg)"

definition lapiceoi_write :: "uint \<Rightarrow> bus list" where
  "lapiceoi_write lapic = (if lapic \<noteq> 0 then lapicw lapic (0xB0 div 4) 0 else [])"

definition lapicstartap :: "uint \<Rightarrow> byte \<Rightarrow> uint \<Rightarrow> bus list" where
  "lapicstartap lapic dest addr =
     (let wrv = (push_bit 4 0x40 OR 0x67) + 0x80000000;
          icrhi = lapicw lapic (0x310 div 4) (push_bit 24 (ucast dest));
          startup = icrhi @ lapicw lapic (0x300 div 4) (0x600 OR drop_bit 12 addr) in
      [Port 0x70 0xF, Port 0x71 0x0A, Mem16 wrv 0, Mem16 (wrv + 2) (ucast (drop_bit 4 addr))] @
      icrhi @ lapicw lapic (0x300 div 4) (0x500 OR 0x8000 OR 0x4000) @
      lapicw lapic (0x300 div 4) (0x500 OR 0x8000) @
      startup @ startup)"

subsection \<open>The clock\<close>

record rtcdate =
  second :: uint
  minute :: uint
  hour :: uint
  day :: uint
  month :: uint
  year :: uint

text \<open>\<open>clock k reg\<close> is what the \<open>k\<close>-th read of the CMOS returns if it selects \<open>reg\<close>.\<close>

definition fill_rtcdate :: "(nat \<Rightarrow> uint \<Rightarrow> byte) \<Rightarrow> nat \<Rightarrow> rtcdate" where
  "fill_rtcdate clock k = \<lparr>second = ucast (clock k 0), minute = ucast (clock (k + 1) 2), hour = ucast (clock (k + 2) 4),
     day = ucast (clock (k + 3) 7), month = ucast (clock (k + 4) 8), year = ucast (clock (k + 5) 9)\<rparr>"

partial_function (option) cmos_loop :: "(nat \<Rightarrow> uint \<Rightarrow> byte) \<Rightarrow> nat \<Rightarrow> rtcdate option" where
  "cmos_loop clock k =
     (let t1 = fill_rtcdate clock k in
      if clock (k + 6) 0x0A AND 0x80 \<noteq> 0 then cmos_loop clock (k + 7)
      else if t1 = fill_rtcdate clock (k + 7) then Some t1
      else cmos_loop clock (k + 13))"

definition bcd_conv :: "uint \<Rightarrow> uint" where
  "bcd_conv x = drop_bit 4 x * 10 + (x AND 0xF)"

definition cmostime :: "(nat \<Rightarrow> uint \<Rightarrow> byte) \<Rightarrow> rtcdate option" where
  "cmostime clock =
     (let bcd = clock 0 0x0B AND 4 = 0 in
      case cmos_loop clock 1 of None \<Rightarrow> None
      | Some t \<Rightarrow>
        let t = (if bcd then \<lparr>second = bcd_conv (second t), minute = bcd_conv (minute t), hour = bcd_conv (hour t),
            day = bcd_conv (day t), month = bcd_conv (month t), year = bcd_conv (year t)\<rparr> else t)
        in Some (t\<lparr>year := year t + 2000\<rparr>))"

text \<open>
  The date is one that two successive readings agree on while the clock was not being updated; the loop ends if the clock is at
  rest from some reading on.
\<close>

lemma cmos_loop_stable:
  assumes "\<And>i reg. n \<le> i \<Longrightarrow> clock i reg = shown reg" "shown 0x0A AND 0x80 = 0"
  shows "\<exists>i t. k \<le> i \<and> cmos_loop clock k = Some t \<and> t = fill_rtcdate clock i \<and> t = fill_rtcdate clock (i + 7) \<and> clock (i + 6) 0x0A AND 0x80 = 0"
proof (induction "n - k" arbitrary: k rule: less_induct)
  case less
  let ?t = "fill_rtcdate clock k"
  consider "clock (k + 6) 0x0A AND 0x80 \<noteq> 0" | "clock (k + 6) 0x0A AND 0x80 = 0" "?t = fill_rtcdate clock (k + 7)"
    | "clock (k + 6) 0x0A AND 0x80 = 0" "?t \<noteq> fill_rtcdate clock (k + 7)" by blast
  then show ?case
  proof cases
    case 1
    then have "\<not> n \<le> k + 6" using assms by metis
    then have "n - (k + 7) < n - k" by linarith
    from less [OF this] 1 show ?thesis by (subst cmos_loop.simps) (auto simp: Let_def intro: order_trans [of k "k + 7"] dest: add_leD1)
  next
    case 2
    then show ?thesis by (intro exI [of _ k]) (subst cmos_loop.simps, simp)
  next
    case 3
    then have "\<not> n \<le> k" using assms(1) by (auto simp: fill_rtcdate_def)
    then have "n - (k + 13) < n - k" by linarith
    from less [OF this] 3 show ?thesis by (subst cmos_loop.simps) (auto simp: Let_def dest: add_leD1)
  qed
qed

lemma bcd_conv_digits:
  assumes "t < 16" "u < 10"
  shows "bcd_conv (of_nat (16 * t + u)) = of_nat (10 * t + u)"
proof -
  obtain x :: uint where e: "x = of_nat (16 * t + u)" by blast
  have x: "unat x = 16 * t + u" using assms unfolding e by (intro unat_small) simp
  have "unat (drop_bit 4 x) = t" using assms by (simp only: unsigned_drop_bit_eq x) (simp add: drop_bit_eq_div take_bit_nat_eq_self)
  then have "drop_bit 4 x = of_nat t" by (metis of_nat_unat ucast_id)
  moreover have "unat (take_bit 4 x) = u" using assms by (simp only: unsigned_take_bit_eq x) (simp add: take_bit_eq_mod)
  then have "take_bit 4 x = of_nat u" by (metis of_nat_unat ucast_id)
  moreover have "x AND 0xF = take_bit 4 x" by (simp add: take_bit_eq_mask mask_eq_exp_minus_1)
  ultimately have "bcd_conv x = of_nat (10 * t + u)" by (simp add: bcd_conv_def algebra_simps)
  then show ?thesis by (simp only: e)
qed

definition civil :: "bool \<Rightarrow> rtcdate \<Rightarrow> rtcdate" where
  "civil bcd t = (let f = (if bcd then bcd_conv else id) in
     \<lparr>second = f (second t), minute = f (minute t), hour = f (hour t), day = f (day t), month = f (month t), year = f (year t) + 2000\<rparr>)"

lemma cmostime_reads:
  assumes "\<And>i reg. n \<le> i \<Longrightarrow> clock i reg = shown reg" "shown 0x0A AND 0x80 = 0"
  obtains i where "1 \<le> i" "fill_rtcdate clock i = fill_rtcdate clock (i + 7)" "clock (i + 6) 0x0A AND 0x80 = 0"
    "cmostime clock = Some (civil (clock 0 0x0B AND 4 = 0) (fill_rtcdate clock i))"
proof -
  obtain i t where i: "1 \<le> i" "cmos_loop clock 1 = Some t" "t = fill_rtcdate clock i" "t = fill_rtcdate clock (i + 7)"
    "clock (i + 6) 0x0A AND 0x80 = 0" using cmos_loop_stable [of n clock shown 1, OF assms] by blast
  moreover have "cmostime clock = Some (civil (clock 0 0x0B AND 4 = 0) t)"
    using i(2) by (cases t) (simp add: cmostime_def civil_def Let_def)
  ultimately show ?thesis using that by metis
qed

end
