(* ===== verification/Ide.thy ===== *)
theory Ide
  imports Bio Apic
begin

unbundle bit_operations_syntax

text \<open>
  The IDE disk driver (\<open>ide.c\<close>). The queue of requests is a chain of buffers, as in the source. The drive is not part of the
  program: what the status port answers to successive polls and what the data port delivers are functions of everything that
  was written to the drive's ports before, and an argument of the driver. The loop of \<open>idewait\<close> ends when a poll finds the drive
  ready; if none does, it polls for ever, and the operation is \<open>Blocked\<close>. The walk to the end of the queue has fuel for every
  buffer there is, which is enough because the buffers in the queue are distinct.

  Shown: every operation keeps the queue a chain of distinct pending requests of which the first has been started; for a drive
  that behaves as a disk, the interrupts serve the requests in the order in which they were made, each with the effect that the
  memory disk's driver has.
\<close>

subsection \<open>Data\<close>

abbreviation (input) FSSIZE :: nat where "FSSIZE \<equiv> 1000"
abbreviation (input) IDE_BSY :: byte where "IDE_BSY \<equiv> 0x80"
abbreviation (input) IDE_DRDY :: byte where "IDE_DRDY \<equiv> 0x40"
abbreviation (input) IDE_DF :: byte where "IDE_DF \<equiv> 0x20"
abbreviation (input) IDE_ERR :: byte where "IDE_ERR \<equiv> 0x01"
abbreviation (input) IDE_CMD_READ :: byte where "IDE_CMD_READ \<equiv> 0x20"
abbreviation (input) IDE_CMD_WRITE :: byte where "IDE_CMD_WRITE \<equiv> 0x30"

datatype ata = Outb nat byte | Outsl "byte list"

record drive =
  polls :: "ata list \<Rightarrow> byte list"
  datain :: "ata list \<Rightarrow> byte list"

record ide = bcache +
  idequeue :: "nat option"
  qnext :: "nat \<Rightarrow> nat option"
  havedisk1 :: bool
  atas :: "ata list"
  apic_writes :: "bus list"

definition outb :: "nat \<Rightarrow> byte \<Rightarrow> ('z ide_scheme, unit) kop" where
  "outb port v = modk (\<lambda>s. s\<lparr>atas := atas s @ [Outb port v]\<rparr>)"

definition outsl :: "byte list \<Rightarrow> ('z ide_scheme, unit) kop" where
  "outsl bs = modk (\<lambda>s. s\<lparr>atas := atas s @ [Outsl bs]\<rparr>)"

subsection \<open>Operations\<close>

fun poll :: "byte list \<Rightarrow> byte option" where
  "poll [] = None"
| "poll (r # rs) = (if r AND (IDE_BSY OR IDE_DRDY) \<noteq> IDE_DRDY then poll rs else Some r)"

definition idewait :: "drive \<Rightarrow> bool \<Rightarrow> ('z ide_scheme, int) kop" where
  "idewait dv checkerr =
     bindk (getk (\<lambda>s. poll (polls dv (atas s)))) (\<lambda>r.
     case r of None \<Rightarrow> block
     | Some r \<Rightarrow> if checkerr \<and> r AND (IDE_DF OR IDE_ERR) \<noteq> 0 then ret (- 1) else ret 0)"

definition ideinit :: "drive \<Rightarrow> ('z ide_scheme, unit) kop" where
  "ideinit dv =
     thenk (initlock IdeLock) (
     bindk (getk ncpu) (\<lambda>n.
     thenk (modk (\<lambda>s. s\<lparr>apic_writes := apic_writes s @ ioapicenable 14 (of_nat n - 1)\<rparr>)) (
     bindk (idewait dv False) (\<lambda>_.
     thenk (outb 0x1f6 (0xe0 OR push_bit 4 1)) (
     thenk (modk (\<lambda>s. if \<exists>r \<in> set (take 1000 (polls dv (atas s))). r \<noteq> 0 then s\<lparr>havedisk1 := True\<rparr> else s))
       (outb 0x1f6 0xe0))))))"

definition idestart :: "drive \<Rightarrow> nat option \<Rightarrow> ('z ide_scheme, unit) kop" where
  "idestart dv bo =
     (case bo of None \<Rightarrow> panic ''idestart''
      | Some i \<Rightarrow>
        bindk (getk (\<lambda>s. buf s i)) (\<lambda>b.
        if FSSIZE \<le> b_blockno b then panic ''incorrect blockno''
        else let sector = b_blockno b in
          bindk (idewait dv False) (\<lambda>_.
          thenk (outb 0x3f6 0) (
          thenk (outb 0x1f2 1) (
          thenk (outb 0x1f3 (of_nat sector)) (
          thenk (outb 0x1f4 (of_nat (sector div 256))) (
          thenk (outb 0x1f5 (of_nat (sector div 65536))) (
          thenk (outb 0x1f6 (0xe0 OR push_bit 4 (of_nat (b_dev b) AND 1) OR (of_nat (sector div 16777216) AND 0x0f))) (
          if b_dirty b then thenk (outb 0x1f7 IDE_CMD_WRITE) (outsl (b_data b))
          else outb 0x1f7 IDE_CMD_READ)))))))))"

definition ideintr :: "drive \<Rightarrow> ('z ide_scheme, unit) kop" where
  "ideintr dv =
     thenk (acquire IdeLock) (
     bindk (getk idequeue) (\<lambda>q.
     case q of None \<Rightarrow> release IdeLock
     | Some b \<Rightarrow>
       thenk (modk (\<lambda>s. s\<lparr>idequeue := qnext s b\<rparr>)) (
       bindk (getk (\<lambda>s. b_dirty (buf s b))) (\<lambda>d.
       thenk (whenk (\<not> d)
         (bindk (idewait dv True) (\<lambda>r.
          whenk (0 \<le> r) (modk (\<lambda>s. upd_buf b (\<lambda>x. x\<lparr>b_data := datain dv (atas s)\<rparr>) s))))) (
       thenk (modk (upd_buf b (\<lambda>x. x\<lparr>b_valid := True\<rparr>))) (
       thenk (modk (upd_buf b (\<lambda>x. x\<lparr>b_dirty := False\<rparr>))) (
       thenk (wakeup (ChanBuf b)) (
       bindk (getk idequeue) (\<lambda>q.
       thenk (whenk (q \<noteq> None) (idestart dv q))
         (release IdeLock))))))))))"

text \<open>The walk to the last element of a queue that is not empty.\<close>

fun queue_end :: "nat \<Rightarrow> (nat \<Rightarrow> nat option) \<Rightarrow> nat \<Rightarrow> nat option" where
  "queue_end 0 nx b = None"
| "queue_end (Suc k) nx b = (case nx b of None \<Rightarrow> Some b | Some c \<Rightarrow> queue_end k nx c)"

definition enqueue :: "nat \<Rightarrow> ('z ide_scheme, unit) kop" where
  "enqueue b =
     thenk (modk (\<lambda>s. s\<lparr>qnext := (qnext s)(b := None)\<rparr>)) (
     bindk (getk idequeue) (\<lambda>q.
     case q of None \<Rightarrow> modk (\<lambda>s. s\<lparr>idequeue := Some b\<rparr>)
     | Some h \<Rightarrow>
       bindk (getk (\<lambda>s. queue_end (Suc NBUF) (qnext s) h)) (\<lambda>e.
       case e of None \<Rightarrow> block | Some e \<Rightarrow> modk (\<lambda>s. s\<lparr>qnext := (qnext s)(e := Some b)\<rparr>))))"

text \<open>The wait for the request; \<open>iderw_wait\<close> is also what the process does when it wakes up.\<close>

definition iderw_wait :: "nat \<Rightarrow> ('z ide_scheme, unit) kop" where
  "iderw_wait b =
     bindk (getk (\<lambda>s. buf s b)) (\<lambda>x.
     thenk (whenk (\<not> (b_valid x \<and> \<not> b_dirty x)) (sleep (ChanBuf b) IdeLock))
       (release IdeLock))"

definition iderw_disk :: "drive \<Rightarrow> nat \<Rightarrow> ('z ide_scheme, unit) kop" where
  "iderw_disk dv b =
     bindk (holding_buf b) (\<lambda>h.
     if \<not> h then panic ''iderw: buf not locked''
     else bindk (getk (\<lambda>s. buf s b)) (\<lambda>x.
     if b_valid x \<and> \<not> b_dirty x then panic ''iderw: nothing to do''
     else bindk (getk havedisk1) (\<lambda>d1.
     if b_dev x \<noteq> 0 \<and> \<not> d1 then panic ''iderw: ide disk 1 not present''
     else
       thenk (acquire IdeLock) (
       thenk (enqueue b) (
       bindk (getk idequeue) (\<lambda>q.
       thenk (whenk (q = Some b) (idestart dv (Some b)))
         (iderw_wait b)))))))"

subsection \<open>The drive\<close>

text \<open>The registers and the two disks of a controller that does what its specification says: the sector number and the unit are
  taken from four registers, a write command stores the sector that follows it, and after a read command the data port delivers
  the sector.\<close>

record ctl =
  lba0 :: byte
  lba1 :: byte
  lba2 :: byte
  head :: byte
  cmd :: byte
  platter :: "nat \<Rightarrow> nat \<Rightarrow> byte list"

definition lba :: "ctl \<Rightarrow> nat" where
  "lba c = unat (lba0 c) + 256 * unat (lba1 c) + 65536 * unat (lba2 c) + 16777216 * unat (head c AND 0x0f)"

definition unit :: "ctl \<Rightarrow> nat" where
  "unit c = unat (drop_bit 4 (head c) AND 1)"

fun ata_step :: "ata \<Rightarrow> ctl \<Rightarrow> ctl" where
  "ata_step (Outb p v) c =
     (if p = 0x1f3 then c\<lparr>lba0 := v\<rparr> else if p = 0x1f4 then c\<lparr>lba1 := v\<rparr> else if p = 0x1f5 then c\<lparr>lba2 := v\<rparr>
      else if p = 0x1f6 then c\<lparr>head := v\<rparr> else if p = 0x1f7 then c\<lparr>cmd := v\<rparr> else c)"
| "ata_step (Outsl bs) c =
     (if cmd c = IDE_CMD_WRITE then c\<lparr>platter := (platter c)(unit c := (platter c (unit c))(lba c := bs))\<rparr> else c)"

definition ctl_of :: "ctl \<Rightarrow> ata list \<Rightarrow> ctl" where
  "ctl_of c w = fold ata_step w c"

definition drive_ok :: "ctl \<Rightarrow> drive \<Rightarrow> bool" where
  "drive_ok c dv \<longleftrightarrow> (\<forall>w. (\<exists>r. poll (polls dv w) = Some r \<and> r AND (IDE_DF OR IDE_ERR) = 0) \<and>
     (cmd (ctl_of c w) = IDE_CMD_READ \<longrightarrow> datain dv w = platter (ctl_of c w) (unit (ctl_of c w)) (lba (ctl_of c w))))"

text \<open>What \<open>idestart\<close> writes for a buffer.\<close>

definition cmds :: "buf \<Rightarrow> ata list" where
  "cmds x = [Outb 0x3f6 0, Outb 0x1f2 1, Outb 0x1f3 (of_nat (b_blockno x)), Outb 0x1f4 (of_nat (b_blockno x div 256)),
     Outb 0x1f5 (of_nat (b_blockno x div 65536)),
     Outb 0x1f6 (0xe0 OR push_bit 4 (of_nat (b_dev x) AND 1) OR (of_nat (b_blockno x div 16777216) AND 0x0f))] @
     (if b_dirty x then [Outb 0x1f7 IDE_CMD_WRITE, Outsl (b_data x)] else [Outb 0x1f7 IDE_CMD_READ])"

definition store :: "buf \<Rightarrow> (nat \<Rightarrow> nat \<Rightarrow> byte list) \<Rightarrow> nat \<Rightarrow> nat \<Rightarrow> byte list" where
  "store x P = (if b_dirty x then P(b_dev x mod 2 := (P (b_dev x mod 2))(b_blockno x := b_data x)) else P)"

lemma head_bits: "(0xe0 OR push_bit 4 (d AND 1)) AND 0x0f = (0 :: byte)" "drop_bit 4 (0xe0 OR push_bit 4 (d AND 1)) AND 1 = d AND (1 :: byte)"
  by (cases "even d"; simp add: and_one_eq mod2_eq_if)+

lemma ctl_cmds:
  assumes "b_blockno x < 1000"
  shows "unit (ctl_of c (w @ cmds x)) = b_dev x mod 2" "lba (ctl_of c (w @ cmds x)) = b_blockno x"
    "cmd (ctl_of c (w @ cmds x)) = (if b_dirty x then IDE_CMD_WRITE else IDE_CMD_READ)"
    "platter (ctl_of c (w @ cmds x)) = store x (platter (ctl_of c w))"
proof -
  have d: "unat (of_nat (b_dev x) AND (1 :: byte)) = b_dev x mod 2"
    by (simp add: and_one_eq unat_mod unat_of_nat mod_mod_cancel)
  have n: "b_blockno x mod 256 + 256 * (b_blockno x div 256) = b_blockno x" "b_blockno x div 256 < 256" "b_blockno x div 65536 = 0"
      "b_blockno x div 16777216 = 0"
    using assms by (simp_all add: mod_mult_div_eq)
  define h where "h = 0xe0 OR push_bit 4 (of_nat (b_dev x) AND (1 :: byte))"
  have h: "unat (h AND 0x0f) = 0" "unat (drop_bit 4 h AND 1) = b_dev x mod 2" unfolding h_def head_bits d by simp_all
  have c: "cmds x = [Outb 0x3f6 0, Outb 0x1f2 1, Outb 0x1f3 (of_nat (b_blockno x)), Outb 0x1f4 (of_nat (b_blockno x div 256)),
      Outb 0x1f5 0, Outb 0x1f6 h] @ (if b_dirty x then [Outb 0x1f7 IDE_CMD_WRITE, Outsl (b_data x)] else [Outb 0x1f7 IDE_CMD_READ])"
    unfolding cmds_def h_def n(3,4) by simp
  show "unit (ctl_of c (w @ cmds x)) = b_dev x mod 2" "lba (ctl_of c (w @ cmds x)) = b_blockno x"
    "cmd (ctl_of c (w @ cmds x)) = (if b_dirty x then IDE_CMD_WRITE else IDE_CMD_READ)"
    "platter (ctl_of c (w @ cmds x)) = store x (platter (ctl_of c w))"
    using n h unfolding c by (simp_all add: ctl_of_def unit_def lba_def store_def unat_of_nat)
qed

subsection \<open>The queue\<close>

fun linked :: "nat option \<Rightarrow> (nat \<Rightarrow> nat option) \<Rightarrow> nat list \<Rightarrow> bool" where
  "linked q nx [] \<longleftrightarrow> q = None"
| "linked q nx (b # bs) \<longleftrightarrow> q = Some b \<and> linked (nx b) nx bs"

text \<open>The queue is a chain of distinct buffers whose requests are pending, and the last thing the drive was told is the request of
  the first.\<close>

definition ide_ok :: "nat list \<Rightarrow> 'z ide_scheme \<Rightarrow> bool" where
  "ide_ok q s \<longleftrightarrow> linked (idequeue s) (qnext s) q \<and> distinct q \<and>
     (\<forall>b \<in> set q. b < NBUF \<and> b_blockno (buf s b) < FSSIZE \<and> \<not> (b_valid (buf s b) \<and> \<not> b_dirty (buf s b))) \<and>
     (\<forall>b bs. q = b # bs \<longrightarrow> (\<exists>w. atas s = w @ cmds (buf s b)))"

lemma linked_upd_other: "b \<notin> set q \<Longrightarrow> linked h (nx(b := x)) q = linked h nx q"
  by (induction q arbitrary: h) auto

lemma chain_snoc: "linked h nx (q @ [e]) \<Longrightarrow> distinct (q @ [e]) \<Longrightarrow> b \<notin> set (q @ [e]) \<Longrightarrow> linked h (nx(b := None, e := Some b)) (q @ [e, b])"
  by (induction q arbitrary: h) auto

lemma queue_end_chain: "linked (Some h) nx (q @ [e]) \<Longrightarrow> length q < k \<Longrightarrow> queue_end k nx h = Some e"
proof (induction q arbitrary: h k)
  case Nil
  then show ?case by (cases k) auto
next
  case (Cons a q)
  then show ?case by (cases k; cases q) auto
qed

lemma enqueue_run:
  assumes "linked (idequeue s) (qnext s) q" "distinct q" "\<forall>b \<in> set q. b < NBUF" "b \<notin> set q"
  shows "\<exists>h nx. enqueue b s = Ok ((), s\<lparr>idequeue := Some h, qnext := nx\<rparr>) \<and> linked (Some h) nx (q @ [b])"
proof (cases q rule: rev_cases)
  case Nil
  then show ?thesis using assms(1) by (auto simp: enqueue_def run_simps intro!: exI [of _ "(qnext s)(b := None)"])
next
  case (snoc q' e)
  obtain h where h: "idequeue s = Some h" using assms(1) snoc by (cases q') auto
  let ?nx = "(qnext s)(b := None)"
  have c: "linked (Some h) ?nx (q' @ [e])" using linked_upd_other [OF assms(4), of "Some h" "qnext s" None] assms(1) h snoc by simp
  have "card (set q) \<le> card {..<NBUF}" using assms(3) by (intro card_mono) auto
  then have "length q \<le> NBUF" using assms(2) by (simp add: distinct_card)
  then have "queue_end (Suc NBUF) ?nx h = Some e" using queue_end_chain [OF c, of "Suc NBUF"] snoc by simp
  then have "enqueue b s = Ok ((), s\<lparr>idequeue := Some h, qnext := ?nx(e := Some b)\<rparr>)"
    using h by (simp add: enqueue_def run_simps del: queue_end.simps)
  moreover have "linked (Some h) (?nx(e := Some b)) (q @ [b])"
    using chain_snoc [of "Some h" "qnext s" q' e b] assms(1,2,4) h snoc by simp
  ultimately show ?thesis by blast
qed

lemma idestart_run:
  assumes "drive_ok c dv" "b_blockno (buf s b) < FSSIZE"
  shows "idestart dv (Some b) s = Ok ((), s\<lparr>atas := atas s @ cmds (buf s b)\<rparr>)"
proof -
  obtain r where "poll (polls dv (atas s)) = Some r" using assms(1) by (auto simp: drive_ok_def)
  then show ?thesis
    using assms(2) by (simp add: idestart_def run_simps idewait_def Let_def outb_def outsl_def cmds_def)
qed

subsection \<open>The interrupt\<close>

text \<open>The effect of a request on the buffers and on the disks, as the memory disk has it.\<close>

definition served :: "nat \<Rightarrow> (nat \<Rightarrow> buf) \<times> (nat \<Rightarrow> nat \<Rightarrow> byte list) \<Rightarrow> (nat \<Rightarrow> buf) \<times> (nat \<Rightarrow> nat \<Rightarrow> byte list)" where
  "served b = (\<lambda>(B, P). (B(b := (B b)\<lparr>b_data := (if b_dirty (B b) then b_data (B b) else P (b_dev (B b) mod 2) (b_blockno (B b))),
     b_valid := True, b_dirty := False\<rparr>), store (B b) P))"

definition disks :: "ctl \<Rightarrow> 'z ide_scheme \<Rightarrow> nat \<Rightarrow> nat \<Rightarrow> byte list" where
  "disks c s = platter (ctl_of c (atas s))"

lemma enter_ide [simp]:
  "buf (enter lk s) = buf s" "idequeue (enter lk s) = idequeue s" "qnext (enter lk s) = qnext s" "atas (enter lk s) = atas s"
  "havedisk1 (enter lk s) = havedisk1 s"
  by (simp_all add: enter_def cli_on_def)

lemma ideintr_idle:
  assumes "cpu_ok s" "settled s" "free_lock IdeLock s" "ide_ok [] s"
  shows "ideintr dv s = Ok ((), s)"
  using assms acquire_release [of s IdeLock] by (simp add: ideintr_def ide_ok_def run_simps acquire_run)

lemma read_run:
  assumes "drive_ok c dv" "atas s = w @ cmds (buf s b)" "b_blockno (buf s b) < 1000" "atas t = atas s"
  shows "whenk (\<not> b_dirty (buf s b)) (bindk (idewait dv True) (\<lambda>r.
      whenk (0 \<le> r) (modk (\<lambda>s. upd_buf b (\<lambda>x. x\<lparr>b_data := datain dv (atas s)\<rparr>) s)))) t =
    Ok ((), upd_buf b (\<lambda>x. x\<lparr>b_data := (if b_dirty (buf s b) then b_data x else disks c s (b_dev (buf s b) mod 2) (b_blockno (buf s b)))\<rparr>) t)"
proof (cases "b_dirty (buf s b)")
  case True
  then show ?thesis by (simp add: run_simps upd_buf_def)
next
  case False
  obtain r where r: "poll (polls dv (atas s)) = Some r" "r AND (IDE_DF OR IDE_ERR) = 0" using assms(1) by (auto simp: drive_ok_def)
  have "datain dv (atas s) = disks c s (b_dev (buf s b) mod 2) (b_blockno (buf s b))"
    using assms(1) ctl_cmds [OF assms(3), of c w] False unfolding disks_def assms(2) by (simp add: drive_ok_def)
  then show ?thesis using False r assms(4) by (simp add: run_simps idewait_def)
qed

lemma ideintr_run:
  assumes dv: "drive_ok c dv" and s: "cpu_ok s" "settled s" "free_lock IdeLock s" "free_lock PtableLock s" and ok: "ide_ok (b # bs) s"
  defines "B \<equiv> fst (served b (buf s, disks c s))"
  shows "ideintr dv s = Ok ((), s\<lparr>idequeue := qnext s b, buf := B, ptable := wake_all (ChanBuf b) (ptable s),
    atas := atas s @ (case bs of [] \<Rightarrow> [] | b' # _ \<Rightarrow> cmds (B b'))\<rparr>)"
proof -
  let ?e = "enter IdeLock s"
  obtain w where w: "atas s = w @ cmds (buf s b)" using ok by (auto simp: ide_ok_def)
  have q: "idequeue s = Some b" "b_blockno (buf s b) < 1000" "linked (qnext s b) (qnext s) bs" "b \<notin> set bs"
      "\<forall>x \<in> set bs. b_blockno (buf s x) < 1000"
    using ok by (auto simp: ide_ok_def)
  let ?s1 = "?e\<lparr>idequeue := qnext s b\<rparr>"
  let ?s4 = "?e\<lparr>idequeue := qnext s b, buf := B\<rparr>"
  have B: "B = (buf s)(b := (buf s b)\<lparr>b_data := (if b_dirty (buf s b) then b_data (buf s b) else disks c s (b_dev (buf s b) mod 2) (b_blockno (buf s b))),
      b_valid := True, b_dirty := False\<rparr>)"
    by (simp add: B_def served_def)
  have comb: "upd_buf b (\<lambda>x. x\<lparr>b_data := (if b_dirty (buf s b) then b_data x else disks c s (b_dev (buf s b) mod 2) (b_blockno (buf s b))),
      b_valid := True, b_dirty := False\<rparr>) ?s1 = ?s4"
    by (simp add: upd_buf_def B)
  let ?s5 = "?e\<lparr>idequeue := qnext s b, buf := B, ptable := wake_all (ChanBuf b) (ptable s)\<rparr>"
  have "cpu_ok ?s4" "settled ?s4" "free_lock PtableLock ?s4"
    using s(1,4) cpu_ok_enter [OF s(1)] settled_enter [OF s(1)] by (simp_all add: cpu_ok_def settled_def me_def free_lock_def)
  then have wk: "wakeup (ChanBuf b) ?s4 = Ok ((), ?s5)" by (simp add: wakeup_run)
  let ?s6 = "?s5\<lparr>atas := atas s @ (case bs of [] \<Rightarrow> [] | b' # _ \<Rightarrow> cmds (B b'))\<rparr>"
  have st: "whenk (qnext s b \<noteq> None) (idestart dv (qnext s b)) ?s5 = Ok ((), ?s6)"
  proof (cases bs)
    case Nil
    then show ?thesis using q(3) by (simp add: run_simps)
  next
    case (Cons b' bs')
    then have "b_blockno (B b') < 1000" using q(4,5) by (simp add: B)
    then show ?thesis using q(3) Cons idestart_run [OF dv, of ?s5 b'] by (simp add: run_simps)
  qed
  have rl: "release IdeLock ?s6 = Ok ((), ?s6\<lparr>fl_if := fl_if s, cpus := cpus s, locks := locks s\<rparr>)"
    by (rule crit [OF s(1-3)]) simp_all
  have "?s6\<lparr>fl_if := fl_if s, cpus := cpus s, locks := locks s\<rparr> = s\<lparr>idequeue := qnext s b, buf := B,
      ptable := wake_all (ChanBuf b) (ptable s), atas := atas s @ (case bs of [] \<Rightarrow> [] | b' # _ \<Rightarrow> cmds (B b'))\<rparr>"
    by (simp add: enter_def cli_on_def)
  moreover have "ideintr dv s = release IdeLock ?s6"
    unfolding ideintr_def
    by (simp add: thenk_run bindk_run getk_run modk_run acquire_run [OF s(1,3)] q(1) read_run [OF dv w q(2)] comb wk st del: not_None_eq)
  ultimately show ?thesis using rl by simp
qed

lemma store_store: "store x (store x P) = store x P"
  by (simp add: store_def fun_eq_iff)

lemma intr_next:
  fixes c :: ctl and s :: "'z ide_scheme"
  assumes "ide_ok (b # bs) s"
  defines "B \<equiv> fst (served b (buf s, disks c s))"
  assumes t: "idequeue t = qnext s b" "qnext t = qnext s" "buf t = B" "atas t = atas s @ (case bs of [] \<Rightarrow> [] | b' # _ \<Rightarrow> cmds (B b'))"
  shows "ide_ok bs t" "(buf t, disks c s) = served b (buf s, disks c s)"
    "fold served bs (buf t, disks c t) = fold served bs (buf t, disks c s)" "bs = [] \<Longrightarrow> disks c t = disks c s"
proof -
  obtain w where w: "atas s = w @ cmds (buf s b)" using assms(1) by (auto simp: ide_ok_def)
  have q: "b_blockno (buf s b) < 1000" "b \<notin> set bs" "\<forall>x \<in> set bs. b_blockno (buf s x) < 1000" using assms(1) by (auto simp: ide_ok_def)
  have B: "B x = buf s x" if "x \<noteq> b" for x using that by (simp add: B_def served_def)
  have "buf t x = buf s x" if "x \<in> set bs" for x using B [of x] q(2) t(3) that by metis
  then show "ide_ok bs t" using assms(1) t unfolding ide_ok_def by (simp split: list.splits)
  have "store (buf s b) (disks c s) = disks c s" using ctl_cmds(4) [OF q(1), of c w] by (simp add: disks_def w store_store)
  then show "(buf t, disks c s) = served b (buf s, disks c s)" by (simp add: t(3) B_def served_def)
  show "bs = [] \<Longrightarrow> disks c t = disks c s" using t(4) by (simp add: disks_def)
  show "fold served bs (buf t, disks c t) = fold served bs (buf t, disks c s)"
  proof (cases bs)
    case (Cons b' bs')
    then have "disks c t = store (B b') (disks c s)" using ctl_cmds(4) [of "B b'" c "atas s"] q B t(4) by (auto simp: disks_def)
    then have "served b' (buf t, disks c t) = served b' (buf t, disks c s)" by (simp add: served_def t(3) store_store) (simp add: store_def)
    then show ?thesis using Cons by simp
  qed (simp add: disks_def t(4))
qed

text \<open>One interrupt for every request in the queue.\<close>

lemma intrs_run:
  assumes "drive_ok c dv" "cpu_ok s" "settled s" "free_lock IdeLock s" "free_lock PtableLock s" "ide_ok q s"
  shows "\<exists>t. for_each q (\<lambda>_. ideintr dv) s = Ok ((), t) \<and> ide_ok [] t \<and> (buf t, disks c t) = fold served q (buf s, disks c s) \<and>
    ptable t = fold (\<lambda>b. wake_all (ChanBuf b)) q (ptable s)"
  using assms(2-)
proof (induction q arbitrary: s)
  case Nil
  then show ?case by (simp add: run_simps)
next
  case (Cons b bs)
  let ?B = "fst (served b (buf s, disks c s))"
  let ?t = "s\<lparr>idequeue := qnext s b, buf := ?B, ptable := wake_all (ChanBuf b) (ptable s),
    atas := atas s @ (case bs of [] \<Rightarrow> [] | b' # _ \<Rightarrow> cmds (?B b'))\<rparr>"
  have r: "ideintr dv s = Ok ((), ?t)" using ideintr_run [OF assms(1) Cons.prems] by simp
  note N = intr_next [OF Cons.prems(5), of ?t c, simplified]
  have m: "cpu_ok ?t" "settled ?t" "free_lock IdeLock ?t" "free_lock PtableLock ?t"
    using Cons.prems(1-4) by (simp_all add: cpu_ok_def settled_def me_def free_lock_def)
  obtain u where u: "for_each bs (\<lambda>_. ideintr dv) ?t = Ok ((), u)" "ide_ok [] u" "(buf u, disks c u) = fold served bs (buf ?t, disks c ?t)"
      "ptable u = fold (\<lambda>b. wake_all (ChanBuf b)) bs (ptable ?t)"
    using Cons.IH [OF m N(1)] by blast
  have "fold served bs (buf ?t, disks c ?t) = fold served (b # bs) (buf s, disks c s)"
    using N(2,3) by simp
  then show ?case using r u by (simp add: run_simps)
qed

lemma fold_awake: "state (pt p) = RUNNABLE \<Longrightarrow> state (fold (\<lambda>b. wake_all (ChanBuf b)) q pt p) = RUNNABLE"
  by (induction q arbitrary: pt) (simp_all add: wake_all_def wake_def)

lemma fold_wakes:
  "p < NPROC \<Longrightarrow> b \<in> set q \<Longrightarrow> state (pt p) = SLEEPING \<Longrightarrow> chan (pt p) = Some (ChanBuf b) \<Longrightarrow>
   state (fold (\<lambda>b. wake_all (ChanBuf b)) q pt p) = RUNNABLE"
proof (induction q arbitrary: pt)
  case (Cons a q)
  show ?case
  proof (cases "a = b")
    case True
    have "state (wake_all (ChanBuf b) pt p) = RUNNABLE" using Cons.prems by (simp add: wake_all_def wake_def)
    then show ?thesis using True by (simp add: fold_awake)
  next
    case False
    then show ?thesis using Cons by (simp add: wake_all_def wake_def)
  qed
qed simp

subsection \<open>A request\<close>

lemma asleep_ide [simp]:
  "buf (asleep p ch lk s) = buf s" "idequeue (asleep p ch lk s) = idequeue s" "qnext (asleep p ch lk s) = qnext s"
  "atas (asleep p ch lk s) = atas s" "ptable (asleep p ch lk s) p = (ptable s p)\<lparr>chan := Some ch, state := SLEEPING\<rparr>"
  by (simp_all add: asleep_def leave_def cli_off_def)

text \<open>What a process that wants a buffer transferred has to bring.\<close>

definition may_request :: "nat list \<Rightarrow> nat \<Rightarrow> nat \<Rightarrow> 'z ide_scheme \<Rightarrow> bool" where
  "may_request q p b s \<longleftrightarrow> idle s p \<and> ncli (cpus s (me s)) = 0 \<and> mine s p b \<and> \<not> (b_valid (buf s b) \<and> \<not> b_dirty (buf s b)) \<and>
     (b_dev (buf s b) = 0 \<or> havedisk1 s) \<and> b_blockno (buf s b) < FSSIZE \<and> b < NBUF \<and> b \<notin> set q"

lemma iderw_disk_run:
  assumes dv: "drive_ok c dv" and q: "ide_ok q s" and r: "may_request q p b s"
  shows "\<exists>t. iderw_disk dv b s = Blocked t \<and> ide_ok (q @ [b]) t \<and> buf t = buf s \<and>
    ptable t p = (ptable s p)\<lparr>chan := Some (ChanBuf b), state := SLEEPING\<rparr> \<and>
    atas t = atas s @ (if q = [] then cmds (buf s b) else [])"
proof -
  have s: "cpu_ok s" "settled s" "\<And>lk. free_lock lk s" "cpu_proc (cpus s (me s)) = Some p" "ncli (cpus s (me s)) = 0"
    using r by (auto simp: may_request_def idle_def runs_def)
  have b: "\<not> (b_valid (buf s b) \<and> \<not> b_dirty (buf s b))" "b_blockno (buf s b) < 1000" "b \<notin> set q" using r by (auto simp: may_request_def)
  let ?e = "enter IdeLock s"
  obtain h nx where h: "enqueue b ?e = Ok ((), ?e\<lparr>idequeue := Some h, qnext := nx\<rparr>)" "linked (Some h) nx (q @ [b])"
    using enqueue_run [of ?e q b] q b(3) by (auto simp: ide_ok_def)
  have hb: "h = b \<longleftrightarrow> q = []" using h(2) b(3) by (cases q) auto
  define A where "A = atas s @ (if q = [] then cmds (buf s b) else [])"
  let ?u = "?e\<lparr>idequeue := Some h, qnext := nx, atas := A\<rparr>"
  have st: "whenk (Some h = Some b) (idestart dv (Some b)) (?e\<lparr>idequeue := Some h, qnext := nx\<rparr>) = Ok ((), ?u)"
    using idestart_run [OF dv, of "?e\<lparr>idequeue := Some h, qnext := nx\<rparr>" b] b(2) hb by (simp add: run_simps A_def)
  have u: "cpu_ok ?u" "me ?u = me s" "ncli (cpus ?u (me s)) = 1" "held_lock IdeLock ?u" "free_lock PtableLock ?u" "cpu_proc (cpus ?u (me s)) = Some p"
    using cpu_ok_enter [OF s(1), of IdeLock] ncli_enter [of IdeLock s] s(3) [of PtableLock] s(4,5) enter_simps(1) [of IdeLock s]
    by (simp_all add: cpu_ok_def me_def held_lock_def free_lock_def)
  let ?t = "asleep p (ChanBuf b) IdeLock ?u"
  have "sleep_enter (ChanBuf b) IdeLock ?u = Ok ((), ?t)" by (rule sleep_enter_run) (use u in simp_all)
  then have "iderw_wait b ?u = Blocked ?t" using b(1) by (simp add: iderw_wait_def sleep_def run_simps)
  then have "iderw_disk dv b s = Blocked ?t"
    using holding_buf_run [of s p b] r h(1) st b(1) acquire_run [OF s(1,3), of IdeLock] unfolding iderw_disk_def
    by (simp add: may_request_def bindk_run thenk_run getk_run) auto
  moreover have "ide_ok (q @ [b]) ?t"
    using q h(2) b r by (cases q) (auto simp: ide_ok_def may_request_def A_def)
  ultimately show ?thesis by (intro exI [of _ ?t]) (simp add: A_def)
qed

subsection \<open>A concrete state\<close>

text \<open>Disk 1 is full of sevens; buffer 3 is locked by the running process and wants block 5 of it.\<close>

definition demo_ctl :: ctl where
  "demo_ctl = \<lparr>lba0 = 0, lba1 = 0, lba2 = 0, head = 0, cmd = 0, platter = (\<lambda>_ _. replicate BSIZE 7)\<rparr>"

definition demo_drive :: drive where
  "demo_drive = \<lparr>polls = (\<lambda>_. [0x80, 0x40]), datain = (\<lambda>w. let c = ctl_of demo_ctl w in platter c (unit c) (lba c))\<rparr>"

definition demo_ide :: "nat option \<Rightarrow> ata list \<Rightarrow> ide" where
  "demo_ide q w = (demo_bcache zeros FSSIZE \<lparr>idequeue = q, qnext = (\<lambda>_. None), havedisk1 = True, atas = w, apic_writes = []\<rparr>)\<lparr>buf := demo_buf(3 :=
     (demo_buf 3)\<lparr>b_dev := 1, b_blockno := 5, b_lock := \<lparr>sl_locked = True, sl_pid = 1\<rparr>\<rparr>)\<rparr>"

lemma demo_drive_ok: "drive_ok demo_ctl demo_drive"
  by (simp add: drive_ok_def demo_drive_def Let_def)

lemma demo_ide:
  "idle (demo_ide q w) 0" "buf (demo_ide q w) 3 = (demo_buf 3)\<lparr>b_dev := 1, b_blockno := 5, b_lock := \<lparr>sl_locked = True, sl_pid = 1\<rparr>\<rparr>"
  "idequeue (demo_ide q w) = q" "qnext (demo_ide q w) = (\<lambda>_. None)" "havedisk1 (demo_ide q w)" "atas (demo_ide q w) = w"
  "ncli (cpus (demo_ide q w) c) = 0" "ptable (demo_ide q w) = demo_proc"
  using demo_idle [of zeros FSSIZE "\<lparr>idequeue = q, qnext = (\<lambda>_. None), havedisk1 = True, atas = w, apic_writes = []\<rparr>"] idle_cong [of "demo_ide q w" _ 0]
  by (simp_all add: demo_ide_def) (simp_all add: demo_defs)

subsection \<open>Properties\<close>

text \<open>C27. Every request and every interrupt leaves the queue of requests well-formed: a chain of distinct buffers with pending
  requests of which the first is the one the drive works on. A request waits at the end of the queue and its process sleeps
  until the interrupt for it; an interrupt takes the first request off and starts the next.\<close>

theorem ide_queue_ok:
  assumes "drive_ok c dv" "ide_ok q s"
  shows "(may_request q p b s \<longrightarrow> (\<exists>t. iderw_disk dv b s = Blocked t \<and> ide_ok (q @ [b]) t \<and> state (ptable t p) = SLEEPING \<and>
      chan (ptable t p) = Some (ChanBuf b))) \<and>
    (cpu_ok s \<and> settled s \<and> free_lock IdeLock s \<and> free_lock PtableLock s \<longrightarrow>
      (\<exists>t. ideintr dv s = Ok ((), t) \<and> ide_ok (tl q) t))"
proof (intro conjI impI)
  assume "may_request q p b s"
  from iderw_disk_run [OF assms this] show "\<exists>t. iderw_disk dv b s = Blocked t \<and> ide_ok (q @ [b]) t \<and>
    state (ptable t p) = SLEEPING \<and> chan (ptable t p) = Some (ChanBuf b)" by auto
next
  assume m: "cpu_ok s \<and> settled s \<and> free_lock IdeLock s \<and> free_lock PtableLock s"
  show "\<exists>t. ideintr dv s = Ok ((), t) \<and> ide_ok (tl q) t"
  proof (cases q)
    case Nil
    then show ?thesis using ideintr_idle [of s dv] m assms(2) by simp
  next
    case (Cons b bs)
    then have ok: "ide_ok (b # bs) s" using assms(2) by simp
    let ?B = "fst (served b (buf s, disks c s))"
    let ?t = "s\<lparr>idequeue := qnext s b, buf := ?B, ptable := wake_all (ChanBuf b) (ptable s),
      atas := atas s @ (case bs of [] \<Rightarrow> [] | b' # _ \<Rightarrow> cmds (?B b'))\<rparr>"
    have "ide_ok bs ?t" by (rule intr_next(1) [OF ok, where c = c]) simp_all
    then show ?thesis using ideintr_run [OF assms(1) _ _ _ _ ok] m Cons by simp
  qed
qed

theorem ide_queue_ok_witness:
  "\<exists>t. iderw_disk demo_drive 3 (demo_ide None []) = Blocked t \<and> ide_ok [3] t \<and> state (ptable t 0) = SLEEPING"
proof -
  have "ide_ok [] (demo_ide None [])" by (simp add: ide_ok_def demo_ide)
  moreover have "may_request [] 0 3 (demo_ide None [])" by (simp add: may_request_def demo_ide demo_buf_def demo_proc_def)
  ultimately show ?thesis using ide_queue_ok [OF demo_drive_ok, of "[]" "demo_ide None []" 0 3] by auto
qed

text \<open>C7. On a drive that behaves as a disk, one interrupt for each request in the queue serves them all in the order in which they
  were made: the buffers and the disks end up as if the requests had been carried out one after the other as the memory disk
  carries them out, and every process that slept on one of the buffers is runnable.\<close>

theorem ide_serves_fifo:
  assumes "drive_ok c dv" "cpu_ok s" "settled s" "free_lock IdeLock s" "free_lock PtableLock s" "ide_ok q s"
  shows "\<exists>t. for_each q (\<lambda>_. ideintr dv) s = Ok ((), t) \<and> idequeue t = None \<and>
    (buf t, disks c t) = fold served q (buf s, disks c s) \<and>
    (\<forall>p < NPROC. \<forall>b \<in> set q. state (ptable s p) = SLEEPING \<and> chan (ptable s p) = Some (ChanBuf b) \<longrightarrow> state (ptable t p) = RUNNABLE)"
proof -
  obtain t where t: "for_each q (\<lambda>_. ideintr dv) s = Ok ((), t)" "ide_ok [] t" "(buf t, disks c t) = fold served q (buf s, disks c s)"
      "ptable t = fold (\<lambda>b. wake_all (ChanBuf b)) q (ptable s)"
    using intrs_run [OF assms] by blast
  moreover have "state (fold (\<lambda>b. wake_all (ChanBuf b)) q pt p) = RUNNABLE"
    if "p < NPROC" "b \<in> set q" "state (pt p) = SLEEPING" "chan (pt p) = Some (ChanBuf b)" for p b q and pt :: "nat \<Rightarrow> proc"
    using that fold_wakes by blast
  ultimately show ?thesis by (auto simp: ide_ok_def)
qed

theorem ide_serves_fifo_witness:
  "\<exists>t. ideintr demo_drive (demo_ide (Some 3) (cmds (buf (demo_ide None []) 3))) = Ok ((), t) \<and> b_valid (buf t 3) \<and>
    b_data (buf t 3) = replicate BSIZE 7"
proof -
  let ?s = "demo_ide (Some 3) (cmds (buf (demo_ide None []) 3))"
  have b: "\<not> b_dirty (buf ?s 3)" by (simp add: demo_ide demo_buf_def)
  then have p: "platter (ctl_of demo_ctl ([] @ cmds (buf ?s 3))) = (\<lambda>_ _. replicate BSIZE 7)"
    by (subst ctl_cmds(4)) (simp_all add: demo_ide store_def ctl_of_def demo_ctl_def)
  have "ide_ok [3] ?s" by (simp add: ide_ok_def demo_ide demo_buf_def)
  moreover have "cpu_ok ?s" "settled ?s" "free_lock IdeLock ?s" "free_lock PtableLock ?s" using demo_ide(1) by (auto simp: idle_def runs_def)
  ultimately obtain t where t: "for_each [3 :: nat] (\<lambda>_. ideintr demo_drive) ?s = Ok ((), t)"
      "(buf t, disks demo_ctl t) = fold served [3] (buf ?s, disks demo_ctl ?s)"
    using ide_serves_fifo [OF demo_drive_ok, of ?s "[3]"] by blast
  have "ideintr demo_drive ?s = Ok ((), t)" using t(1) by (auto simp: run_simps prod_eq_iff split: outcome.splits)
  moreover have "b_valid (buf t 3)" "b_data (buf t 3) = replicate BSIZE 7" using t(2) b p by (simp_all add: served_def disks_def demo_ide)
  ultimately show ?thesis by blast
qed

end
