(* ===== verification/Mp.thy ===== *)
theory Mp
  imports Machine
begin

text \<open>
  The search for the other processors at start-up (\<open>mp.c\<close>, \<open>mp.h\<close>). The tables of the firmware are bytes of the memory, which is a
  function of the virtual address. A start that panics is an \<open>Inl\<close>; the loop of \<open>mpinit\<close> over the entries of the table may run for
  ever and is \<open>None\<close> then.

  Shown: what \<open>mpsearch\<close> finds is a structure with the right signature and checksum in one of the three places of the
  specification; for every table of known entries \<open>mpinit\<close> returns with the processors of the table in their order, the first
  eight of them, and the last I/O controller; with an entry of an unknown type it never returns.
\<close>

subsection \<open>Searching\<close>

type_synonym ram = "nat \<Rightarrow> byte"

definition P2V :: "nat \<Rightarrow> nat" where
  "P2V a = (a + 0x80000000) mod 4294967296"

definition ram_at :: "ram \<Rightarrow> nat \<Rightarrow> nat \<Rightarrow> byte list" where
  "ram_at m a n = map (\<lambda>i. m (a + i)) [0..<n]"

definition mp_sum :: "ram \<Rightarrow> nat \<Rightarrow> nat \<Rightarrow> byte" where
  "mp_sum m a len = word_of_int (sum_list (map uint (ram_at m a len)))"

definition mp_here :: "ram \<Rightarrow> nat \<Rightarrow> bool" where
  "mp_here m p \<longleftrightarrow> ram_at m p 4 = [95, 77, 80, 95] \<and> mp_sum m p 16 = 0"

definition mpsearch1 :: "ram \<Rightarrow> nat \<Rightarrow> nat \<Rightarrow> nat option" where
  "mpsearch1 m a len = map_option (\<lambda>k. P2V a + 16 * k) (find_slot (\<lambda>k. mp_here m (P2V a + 16 * k)) 0 (len div 16))"

definition mpsearch :: "ram \<Rightarrow> nat option" where
  "mpsearch m =
     (let bda = P2V 0x400; p = (unat (m (bda + 0x0F)) * 256 + unat (m (bda + 0x0E))) * 16 in
      if p \<noteq> 0 then (case mpsearch1 m p 1024 of Some mp \<Rightarrow> Some mp | None \<Rightarrow> mpsearch1 m 0xF0000 0x10000)
      else let p = (unat (m (bda + 0x14)) * 256 + unat (m (bda + 0x13))) * 1024 in
        (case mpsearch1 m ((p + 4294967296 - 1024) mod 4294967296) 1024 of Some mp \<Rightarrow> Some mp | None \<Rightarrow> mpsearch1 m 0xF0000 0x10000))"

definition mpconfig :: "ram \<Rightarrow> (nat \<times> nat) option" where
  "mpconfig m =
     (case mpsearch m of None \<Rightarrow> None
      | Some mp \<Rightarrow>
        let physaddr = dec32 (ram_at m mp 16) 4; conf = P2V physaddr; version = m (conf + 6); len = dec16 (ram_at m conf 6) 4 in
        if physaddr = 0 then None
        else if ram_at m conf 4 \<noteq> [80, 67, 77, 80] then None
        else if version \<noteq> 1 \<and> version \<noteq> 4 then None
        else if mp_sum m conf len \<noteq> 0 then None
        else Some (mp, conf))"

subsection \<open>The table of processors\<close>

abbreviation (input) MPPROC :: byte where "MPPROC \<equiv> 0"
abbreviation (input) MPBUS :: byte where "MPBUS \<equiv> 1"
abbreviation (input) MPIOAPIC :: byte where "MPIOAPIC \<equiv> 2"
abbreviation (input) MPIOINTR :: byte where "MPIOINTR \<equiv> 3"
abbreviation (input) MPLINTR :: byte where "MPLINTR \<equiv> 4"

record mps =
  mp_cpus :: "byte list"
  mp_ioapicid :: byte
  mp_ismp :: bool
  mp_lapic :: nat
  mp_imcr :: bool

partial_function (option) mpinit_loop :: "ram \<Rightarrow> nat \<Rightarrow> nat \<Rightarrow> mps \<Rightarrow> mps option" where
  "mpinit_loop m p e s =
     (if p < e then
        if m p = MPPROC then
          mpinit_loop m (p + 20) e (if length (mp_cpus s) < NCPU then s\<lparr>mp_cpus := mp_cpus s @ [m (p + 1)]\<rparr> else s)
        else if m p = MPIOAPIC then mpinit_loop m (p + 8) e (s\<lparr>mp_ioapicid := m (p + 1)\<rparr>)
        else if m p = MPBUS \<or> m p = MPIOINTR \<or> m p = MPLINTR then mpinit_loop m (p + 8) e s
        else mpinit_loop m p e (s\<lparr>mp_ismp := False\<rparr>)
      else Some s)"

declare mpinit_loop.simps [code]

definition mpinit :: "ram \<Rightarrow> (string + mps) option" where
  "mpinit m =
     (case mpconfig m of None \<Rightarrow> Some (Inl ''Expect to run on an SMP'')
      | Some (mp, conf) \<Rightarrow>
        let s = \<lparr>mp_cpus = [], mp_ioapicid = 0, mp_ismp = True, mp_lapic = dec32 (ram_at m conf 44) 36, mp_imcr = False\<rparr> in
        map_option (\<lambda>s. if \<not> mp_ismp s then Inl ''Didn't find a suitable machine''
            else Inr (if m (mp + 12) \<noteq> 0 then s\<lparr>mp_imcr := True\<rparr> else s))
          (mpinit_loop m (conf + 44) (conf + dec16 (ram_at m conf 6) 4) s))"

subsection \<open>Tables\<close>

datatype mpentry = Processor byte "byte list" | Ioapic byte "byte list" | Other byte "byte list"

fun entry_bytes :: "mpentry \<Rightarrow> byte list" where
  "entry_bytes (Processor i bs) = MPPROC # i # bs"
| "entry_bytes (Ioapic i bs) = MPIOAPIC # i # bs"
| "entry_bytes (Other k bs) = k # bs"

fun entry_ok :: "mpentry \<Rightarrow> bool" where
  "entry_ok (Processor i bs) \<longleftrightarrow> length bs = 18"
| "entry_ok (Ioapic i bs) \<longleftrightarrow> length bs = 6"
| "entry_ok (Other k bs) \<longleftrightarrow> k \<in> {MPBUS, MPIOINTR, MPLINTR} \<and> length bs = 7"

definition processors :: "mpentry list \<Rightarrow> byte list" where
  "processors es = concat (map (\<lambda>e. case e of Processor i _ \<Rightarrow> [i] | _ \<Rightarrow> []) es)"

definition ioapics :: "mpentry list \<Rightarrow> byte list" where
  "ioapics es = concat (map (\<lambda>e. case e of Ioapic i _ \<Rightarrow> [i] | _ \<Rightarrow> []) es)"

lemma ram_append: "ram_at m p (length xs + length ys) = xs @ ys \<Longrightarrow> ram_at m p (length xs) = xs \<and> ram_at m (p + length xs) (length ys) = ys"
proof -
  assume a: "ram_at m p (length xs + length ys) = xs @ ys"
  have "ram_at m p (length xs + length ys) = ram_at m p (length xs) @ ram_at m (p + length xs) (length ys)"
    by (rule nth_equalityI) (auto simp: ram_at_def nth_append)
  moreover have "length (ram_at m p (length xs)) = length xs" by (simp add: ram_at_def)
  ultimately show ?thesis using a by (metis append_eq_append_conv)
qed

lemma ram_nth: "ram_at m p n = xs \<Longrightarrow> i < n \<Longrightarrow> m (p + i) = xs ! i"
  by (auto simp: ram_at_def)

lemma table_Cons:
  "processors (x # es) = (case x of Processor i _ \<Rightarrow> [i] | _ \<Rightarrow> []) @ processors es"
  "ioapics (x # es) = (case x of Ioapic i _ \<Rightarrow> [i] | _ \<Rightarrow> []) @ ioapics es"
  by (simp_all add: processors_def ioapics_def)

lemma mpinit_loop_table:
  assumes "\<forall>x \<in> set es. entry_ok x" "ram_at m p (length (concat (map entry_bytes es))) = concat (map entry_bytes es)"
    and "length (mp_cpus s) \<le> 8" "e = p + length (concat (map entry_bytes es))"
  shows "mpinit_loop m p e s =
    Some (s\<lparr>mp_cpus := take 8 (mp_cpus s @ processors es), mp_ioapicid := last (mp_ioapicid s # ioapics es)\<rparr>)"
  using assms
proof (induction es arbitrary: p s)
  case Nil
  then show ?case by (simp add: mpinit_loop.simps processors_def ioapics_def)
next
  case (Cons x es)
  let ?r = "concat (map entry_bytes es)"
  have r: "ram_at m p (length (entry_bytes x)) = entry_bytes x" "ram_at m (p + length (entry_bytes x)) (length ?r) = ?r"
    using ram_append [of m p "entry_bytes x" ?r] Cons.prems(2) by simp_all
  have b: "m (p + i) = entry_bytes x ! i" if "i < length (entry_bytes x)" for i using ram_nth [OF r(1) that] .
  have e: "e = p + length (entry_bytes x) + length ?r" "\<forall>x \<in> set es. entry_ok x" using Cons.prems(1,4) by simp_all
  note IH = Cons.IH [OF e(2) r(2) _ e(1)]
  show ?case
  proof (cases x)
    case (Processor i bs)
    then have m: "m p = 0" "m (p + 1) = i" "length (entry_bytes x) = 20" using b [of 0] b [of 1] Cons.prems(1) by simp_all
    let ?s = "if length (mp_cpus s) < 8 then s\<lparr>mp_cpus := mp_cpus s @ [i]\<rparr> else s"
    have "mpinit_loop m p e s = mpinit_loop m (p + 20) e ?s"
      using m e by (simp add: mpinit_loop.simps [of m p])
    then show ?thesis using IH [of ?s, unfolded m(3)] Processor Cons.prems(3) by (cases "length (mp_cpus s) < 8") (simp_all add: table_Cons)
  next
    case (Ioapic i bs)
    then have m: "m p = 2" "m (p + 1) = i" "length (entry_bytes x) = 8" using b [of 0] b [of 1] Cons.prems(1) by simp_all
    have "mpinit_loop m p e s = mpinit_loop m (p + 8) e (s\<lparr>mp_ioapicid := i\<rparr>)"
      using m e by (simp add: mpinit_loop.simps [of m p])
    then show ?thesis using IH [of "s\<lparr>mp_ioapicid := i\<rparr>", unfolded m(3)] Cons.prems(3) Ioapic by (simp add: table_Cons)
  next
    case (Other k bs)
    then have m: "m p = k" "k = 1 \<or> k = 3 \<or> k = 4" "length (entry_bytes x) = 8" using b [of 0] Cons.prems(1) by simp_all
    have "mpinit_loop m p e s = mpinit_loop m (p + 8) e s"
      using m e by (auto simp: mpinit_loop.simps [of m p])
    then show ?thesis using IH [of s, unfolded m(3)] Cons.prems(3) Other by (simp add: table_Cons)
  qed
qed

text \<open>An entry of an unknown type is never passed.\<close>

lemma mpinit_loop_stuck:
  assumes "p < e" "m p \<notin> {MPPROC, MPIOAPIC, MPBUS, MPIOINTR, MPLINTR}"
  shows "mpinit_loop m p e s = None"
proof (cases "mpinit_loop m p e s")
  case (Some t)
  have "p < e \<longrightarrow> m p \<in> {MPPROC, MPIOAPIC, MPBUS, MPIOINTR, MPLINTR}"
  proof (rule mpinit_loop.raw_induct [OF _ Some, where P = "\<lambda>m p e s t. p < e \<longrightarrow> m p \<in> {MPPROC, MPIOAPIC, MPBUS, MPIOINTR, MPLINTR}"], goal_cases)
    case (1 f m p e s t)
    show ?case
    proof (intro impI, rule ccontr)
      assume u: "p < e" "m p \<notin> {MPPROC, MPIOAPIC, MPBUS, MPIOINTR, MPLINTR}"
      then have "f m p e (s\<lparr>mp_ismp := False\<rparr>) = Some t" using 1(2) by simp
      from 1(1) [OF this] show False using u by simp
    qed
  qed
  then show ?thesis using assms by simp
qed

lemma mpsearch1_here:
  assumes "mpsearch1 m a len = Some p"
  shows "mp_here m p" "\<exists>k < len div 16. p = P2V a + 16 * k"
proof -
  obtain k where k: "find_slot (\<lambda>k. mp_here m (P2V a + 16 * k)) 0 (len div 16) = Some k" "p = P2V a + 16 * k"
    using assms by (auto simp: mpsearch1_def)
  from find_slot_Some [OF k(1)] show "mp_here m p" "\<exists>k < len div 16. p = P2V a + 16 * k" using k(2) by auto
qed

lemma mpsearch_here:
  assumes "mpsearch m = Some mp"
  shows "mp_here m mp"
proof -
  have "\<exists>a len. mpsearch1 m a len = Some mp"
    using assms unfolding mpsearch_def Let_def by (metis (no_types, lifting) option.case_eq_if option.collapse)
  then show ?thesis using mpsearch1_here by blast
qed

text \<open>A description of the machine in memory: the table lies where the structure that \<open>mpsearch\<close> finds says.\<close>

definition described :: "ram \<Rightarrow> nat \<Rightarrow> nat \<Rightarrow> mpentry list \<Rightarrow> bool" where
  "described m mp conf es \<longleftrightarrow> mpconfig m = Some (mp, conf) \<and> (\<forall>x \<in> set es. entry_ok x) \<and>
     dec16 (ram_at m conf 6) 4 = 44 + length (concat (map entry_bytes es)) \<and>
     ram_at m (conf + 44) (length (concat (map entry_bytes es))) = concat (map entry_bytes es)"

text \<open>A machine with two processors and an I/O controller. The extended data area of the firmware is at \<open>0x9FC00\<close>.\<close>

definition demo_mp :: "byte list" where
  "demo_mp = [95, 77, 80, 95, 0, 16, 0, 0, 1, 4, 144, 0, 0, 0, 0, 0]"

definition demo_table :: "mpentry list" where
  "demo_table = [Processor 3 (replicate 18 0), Processor 5 (replicate 18 0), Other 1 (replicate 7 0), Ioapic 9 (replicate 6 0)]"

definition demo_conf :: "byte list" where
  "demo_conf = [80, 67, 77, 80, 100, 0, 4, 118] @ replicate 28 0 @ [0, 0, 224, 254, 0, 0, 0, 0] @ concat (map entry_bytes demo_table)"

definition demo_ram :: ram where
  "demo_ram a = (if a = P2V 0x40F then 0x9F else if a = P2V 0x40E then 0xC0
     else if P2V 0x9FC00 \<le> a \<and> a < P2V 0x9FC00 + 16 then demo_mp ! (a - P2V 0x9FC00)
     else if P2V 0x1000 \<le> a \<and> a < P2V 0x1000 + 100 then demo_conf ! (a - P2V 0x1000) else 0)"

lemma demo_places: "P2V 0x9FC00 = 0x8009FC00" "P2V 0x1000 = 0x80001000" "P2V 0x40F = 0x8000040F" "P2V 0x40E = 0x8000040E" "P2V 0x400 = 0x80000400"
  by (simp_all add: P2V_def)

lemma demo_ram_at:
  "n \<le> 16 \<Longrightarrow> ram_at demo_ram 0x8009FC00 n = take n demo_mp"
  "k + n \<le> 100 \<Longrightarrow> ram_at demo_ram (0x80001000 + k) n = take n (drop k demo_conf)"
proof -
  have "length demo_mp = 16" "length demo_conf = 100" by (simp_all add: demo_mp_def demo_conf_def demo_table_def)
  then show "n \<le> 16 \<Longrightarrow> ram_at demo_ram 0x8009FC00 n = take n demo_mp"
    "k + n \<le> 100 \<Longrightarrow> ram_at demo_ram (0x80001000 + k) n = take n (drop k demo_conf)"
    unfolding ram_at_def by (auto intro!: nth_equalityI simp: demo_ram_def demo_places)
qed

lemma demo_described: "described demo_ram 0x8009FC00 0x80001000 demo_table"
proof -
  have mp: "ram_at demo_ram 0x8009FC00 4 = [95, 77, 80, 95]" "mp_sum demo_ram 0x8009FC00 16 = 0" "dec32 (ram_at demo_ram 0x8009FC00 16) 4 = 0x1000"
    by (simp_all add: demo_ram_at mp_sum_def demo_mp_def dec32_def)
  have "mpsearch1 demo_ram 0x9FC00 1024 = Some 0x8009FC00"
    using find_slot_eqI [of 0 0 64 "\<lambda>k. mp_here demo_ram (0x8009FC00 + 16 * k)"] mp(1,2) by (simp add: mpsearch1_def demo_places mp_here_def)
  moreover have "demo_ram 0x8000040F = 0x9F" "demo_ram 0x8000040E = 0xC0" by (simp_all add: demo_ram_def demo_places)
  ultimately have s: "mpsearch demo_ram = Some 0x8009FC00" by (simp add: mpsearch_def demo_places Let_def)
  have c: "ram_at demo_ram 0x80001000 4 = [80, 67, 77, 80]" "dec16 (ram_at demo_ram 0x80001000 6) 4 = 100" "mp_sum demo_ram 0x80001000 100 = 0"
      "demo_ram 0x80001006 = 4" "ram_at demo_ram 0x8000102C 56 = concat (map entry_bytes demo_table)"
    using demo_ram_at(2) [of 0] demo_ram_at(2) [of 44 56] demo_ram_at(2) [of 6 1]
    by (simp_all add: demo_conf_def demo_table_def mp_sum_def dec16_def sum_list_replicate) (simp_all add: ram_at_def)
  have "length (concat (map entry_bytes demo_table)) = 56" by (simp add: demo_table_def)
  then show ?thesis using s mp c by (simp add: described_def mpconfig_def demo_places Let_def) (simp add: demo_table_def)
qed

subsection \<open>Properties\<close>

text \<open>C29. If the memory holds a description of the machine with entries of the known types, the start-up code returns with the
  processors of the table in their order, the first eight if there are more, and with the last of its I/O controllers; the
  structure it started from has the signature of the specification and its bytes add up to zero.\<close>

theorem mpinit_processors:
  assumes "described m mp conf es"
  shows "\<exists>s. mpinit m = Some (Inr s) \<and> mp_cpus s = take NCPU (processors es) \<and> mp_ioapicid s = last (0 # ioapics es) \<and> mp_here m mp"
proof -
  have d: "mpconfig m = Some (mp, conf)" "\<forall>x \<in> set es. entry_ok x" "dec16 (ram_at m conf 6) 4 = 44 + length (concat (map entry_bytes es))"
      "ram_at m (conf + 44) (length (concat (map entry_bytes es))) = concat (map entry_bytes es)"
    using assms by (simp_all add: described_def)
  let ?s = "\<lparr>mp_cpus = [], mp_ioapicid = 0, mp_ismp = True, mp_lapic = dec32 (ram_at m conf 44) 36, mp_imcr = False\<rparr>"
  have l: "mpinit_loop m (conf + 44) (conf + dec16 (ram_at m conf 6) 4) ?s =
      Some (?s\<lparr>mp_cpus := take 8 (mp_cpus ?s @ processors es), mp_ioapicid := last (mp_ioapicid ?s # ioapics es)\<rparr>)"
    by (rule mpinit_loop_table [OF d(2,4)]) (simp_all add: d(3))
  have "mpsearch m = Some mp" using d(1) by (auto simp: mpconfig_def Let_def split: option.splits if_splits)
  then have "mp_here m mp" by (rule mpsearch_here)
  then show ?thesis using d(1) l by (simp add: mpinit_def)
qed

theorem mpinit_processors_witness:
  "\<exists>s. mpinit demo_ram = Some (Inr s) \<and> mp_cpus s = [3, 5] \<and> mp_ioapicid s = 9"
proof -
  have "processors demo_table = [3, 5]" "ioapics demo_table = [9]" by (simp_all add: demo_table_def processors_def ioapics_def)
  then show ?thesis using mpinit_processors [OF demo_described] by simp blast
qed

end
