(* ===== verification/Start.thy ===== *)
theory Start
  imports Kalloc Apic
begin

unbundle bit_operations_syntax

text \<open>
  The start of the other processors (\<open>startothers\<close> of \<open>main.c\<close>). The code they begin with is assembler and a range of bytes here;
  whether a processor that was woken reports itself is an argument, and the boot processor waits for ever for one that does not.

  Shown: every other processor is woken once, with the start-up code in its place and a page of its own as its stack, and the
  pages it takes leave the free list.
\<close>

subsection \<open>Operations\<close>

text \<open>The writes to the processors' controllers go to devices; only the warm reset vector is memory.\<close>

fun bus_mem :: "bus \<Rightarrow> mem \<Rightarrow> mem" where
  "bus_mem (Mem a v) m = m"
| "bus_mem (Mem16 a v) m = m(a := ucast v, a + 1 := ucast (drop_bit 8 v))"
| "bus_mem (Port p v) m = m"

text \<open>What a processor that starts finds below the code: its stack, where to go, and its page directory.\<close>

record handoff =
  h_stack :: uint
  h_entry :: uint
  h_pgdir :: uint
  h_writes :: "bus list"

definition handoff_at :: "uint \<Rightarrow> bus list \<Rightarrow> mem \<Rightarrow> handoff" where
  "handoff_at code ws m = \<lparr>h_stack = load32 (code - 4) m, h_entry = load32 (code - 8) m, h_pgdir = load32 (code - 12) m, h_writes = ws\<rparr>"

fun startothers_loop :: "uint \<Rightarrow> uint \<Rightarrow> uint \<Rightarrow> (nat \<Rightarrow> bool) \<Rightarrow> uint \<Rightarrow> nat list \<Rightarrow> ('z kmem_scheme, handoff list) kop" where
  "startothers_loop lapic mpenter entrypgdir started code [] = ret []"
| "startothers_loop lapic mpenter entrypgdir started code (c # cs) =
     bindk mycpu (\<lambda>m.
     if c = m then startothers_loop lapic mpenter entrypgdir started code cs
     else bindk kalloc (\<lambda>stack.
       thenk (modk (\<lambda>s. s\<lparr>pmem := store32 (code - 4) (stack + 4096) (pmem s)\<rparr>)) (
       thenk (modk (\<lambda>s. s\<lparr>pmem := store32 (code - 8) mpenter (pmem s)\<rparr>)) (
       thenk (modk (\<lambda>s. s\<lparr>pmem := store32 (code - 12) (V2P entrypgdir) (pmem s)\<rparr>)) (
       bindk (getk (\<lambda>s. lapicstartap lapic (of_nat (apicid s c)) (V2P code))) (\<lambda>ws.
       thenk (modk (\<lambda>s. s\<lparr>pmem := fold bus_mem ws (pmem s)\<rparr>)) (
       bindk (getk (\<lambda>s. handoff_at code ws (pmem s))) (\<lambda>h.
       if started c
       then bindk (startothers_loop lapic mpenter entrypgdir started code cs) (\<lambda>hs. ret (h # hs))
       else block))))))))"

definition startothers :: "uint \<Rightarrow> uint \<Rightarrow> uint \<Rightarrow> (nat \<Rightarrow> bool) \<Rightarrow> uint \<Rightarrow> nat \<Rightarrow> ('z kmem_scheme, handoff list) kop" where
  "startothers lapic mpenter entrypgdir started entryother len =
     (let code = P2V 0x7000 in
      thenk (modk (\<lambda>s. s\<lparr>pmem := memmove code entryother len (pmem s)\<rparr>)) (
      bindk (getk ncpu) (\<lambda>n. startothers_loop lapic mpenter entrypgdir started code [0..<n])))"

subsection \<open>Lemmas\<close>

text \<open>The processors \<open>cs\<close> started with the pages \<open>xs\<close> as their stacks.\<close>

definition handed :: "uint \<Rightarrow> uint \<Rightarrow> uint \<Rightarrow> (nat \<Rightarrow> nat) \<Rightarrow> nat list \<Rightarrow> uint list \<Rightarrow> handoff list" where
  "handed lapic mpenter entrypgdir ids cs xs = map2 (\<lambda>c x. \<lparr>h_stack = x + 4096, h_entry = mpenter, h_pgdir = V2P entrypgdir,
     h_writes = lapicstartap lapic (of_nat (ids c)) 0x7000\<rparr>) cs xs"

lemma handed_simps [simp]:
  "handed lapic mpenter entrypgdir ids [] xs = []"
  "handed lapic mpenter entrypgdir ids (c # cs) (x # xs) = \<lparr>h_stack = x + 4096, h_entry = mpenter, h_pgdir = V2P entrypgdir,
     h_writes = lapicstartap lapic (of_nat (ids c)) 0x7000\<rparr> # handed lapic mpenter entrypgdir ids cs xs"
  by (simp_all add: handed_def)

lemma handed_pages:
  "length cs \<le> length xs \<Longrightarrow> map h_stack (handed lapic mpenter entrypgdir ids cs xs) = map (\<lambda>x. x + 4096) (take (length cs) xs)"
  "length cs \<le> length xs \<Longrightarrow> length (handed lapic mpenter entrypgdir ids cs xs) = length cs"
  by (induction cs xs rule: list_induct2') simp_all

lemma kinv_low:
  fixes s :: "'z kmem_scheme"
  assumes "kinv s xs" "0x80100000 \<le> kend s" "\<And>a. 0x80100000 \<le> a \<Longrightarrow> m a = pmem s a"
  shows "kinv (s\<lparr>pmem := m\<rparr>) xs"
proof -
  have "m a = pmem s a" if x: "x \<in> set xs" "in_page x a" for x a
  proof (rule assms(3))
    have v: "valid_page s x" using assms(1) x(1) by (simp add: kinv_def)
    then have al: "unat x mod PGSIZE = 0" by (simp add: valid_page_def)
    then have "unat a div PGSIZE = unat x div PGSIZE" using x(2) in_page_div [OF al, of a] by simp
    with al have "unat x \<le> unat a" using mult_div_mod_eq [of PGSIZE "unat a"] mult_div_mod_eq [of PGSIZE "unat x"] by linarith
    moreover have "0x80100000 \<le> x" using v order_trans [OF assms(2)] by (simp add: valid_page_def)
    ultimately show "0x80100000 \<le> a" by (simp add: word_le_nat_alt)
  qed
  then have "\<forall>x\<in>set xs. \<forall>a. in_page x a \<longrightarrow> m a = pmem s a" by blast
  then have "page_list m (freelist s) xs" using assms(1) page_list_frame kinv_def by blast
  then show ?thesis using assms(1) by (simp add: kinv_def valid_page_def)
qed

text \<open>The page below the code, written by one turn of the loop.\<close>

definition primed :: "uint \<Rightarrow> uint \<Rightarrow> uint \<Rightarrow> bus list \<Rightarrow> mem \<Rightarrow> mem" where
  "primed stack entry pd ws m =
     fold bus_mem ws (store32 0x80006FF4 pd (store32 0x80006FF8 entry (store32 0x80006FFC stack m)))"

lemma startap_mem:
  "fold bus_mem (lapicstartap lapic d a) m =
     m(0x80000467 := 0, 0x80000468 := 0, 0x80000469 := ucast (ucast (drop_bit 4 a) :: 16 word), 0x8000046A := ucast (drop_bit 8 (ucast (drop_bit 4 a) :: 16 word)))"
  by (simp add: lapicstartap_def lapicw_def Let_def)

lemma primed_handoff:
  "handoff_at 0x80007000 ws (primed stack entry pd (lapicstartap lapic d a) m) =
     \<lparr>h_stack = stack, h_entry = entry, h_pgdir = pd, h_writes = ws\<rparr>"
proof -
  have "load32 0x80006FFC (primed stack entry pd (lapicstartap lapic d a) m) = load32 0x80006FFC (store32 0x80006FFC stack m)"
    "load32 0x80006FF8 (primed stack entry pd (lapicstartap lapic d a) m) = load32 0x80006FF8 (store32 0x80006FF8 entry m)"
    "load32 0x80006FF4 (primed stack entry pd (lapicstartap lapic d a) m) = load32 0x80006FF4 (store32 0x80006FF4 pd m)"
    by (rule load32_cong; simp add: primed_def startap_mem store32_def)+
  then show ?thesis by (simp add: handoff_at_def)
qed

lemma primed_above:
  assumes "0x80007000 \<le> a"
  shows "primed stack entry pd (lapicstartap lapic d b) m a = m a"
proof -
  have "a \<noteq> c" if "c < 0x80007000" for c using that assms by auto
  then show ?thesis by (simp add: primed_def startap_mem store32_def)
qed

lemma startothers_loop_run:
  fixes s :: "'z kmem_scheme"
  assumes "cpu_ok s" "\<not> fl_if s" "\<not> use_lock s" "kinv s xs" "0x80100000 \<le> kend s"
    and "length (filter (\<lambda>c. c \<noteq> me s) cs) \<le> length xs" "\<And>c. c \<in> set cs \<Longrightarrow> c \<noteq> me s \<Longrightarrow> started c"
  shows "\<exists>m f. startothers_loop lapic mpenter entrypgdir started 0x80007000 cs s =
      Ok (handed lapic mpenter entrypgdir (apicid s) (filter (\<lambda>c. c \<noteq> me s) cs) xs,
          s\<lparr>pmem := m, freelist := f\<rparr>) \<and>
    kinv (s\<lparr>pmem := m, freelist := f\<rparr>) (drop (length (filter (\<lambda>c. c \<noteq> me s) cs)) xs) \<and> (\<forall>a \<ge> 0x80007000. m a = pmem s a)"
  using assms
proof (induction cs arbitrary: s xs)
  case Nil
  then show ?case by (intro exI [of _ "pmem s"] exI [of _ "freelist s"]) (simp add: run_simps)
next
  case (Cons c cs)
  note m = mycpu_run [OF Cons.prems(1,2)]
  show ?case
  proof (cases "c = me s")
    case True
    then show ?thesis using Cons.IH [OF Cons.prems(1-5)] Cons.prems(6,7) by (simp add: run_simps m)
  next
    case False
    then obtain x ys where xs: "xs = x # ys" using Cons.prems(6) by (cases xs) auto
    have "can_alloc 0 s" using Cons.prems(3) by (simp add: can_alloc_def)
    note k = kalloc_pop [OF this Cons.prems(4) [unfolded xs]]
    let ?ws = "lapicstartap lapic (of_nat (apicid s c)) 0x7000"
    let ?m = "primed (x + 4096) mpenter (V2P entrypgdir) ?ws (pmem s)"
    let ?s = "s\<lparr>freelist := load32 x (pmem s), pmem := ?m\<rparr>"
    have "?m a = pmem s a" if "0x80100000 \<le> a" for a
      by (rule primed_above) (rule order_trans [OF _ that], simp)
    then have "kinv ?s ys" using Cons.prems(5) by (intro kinv_low [OF k(2)]) simp_all
    moreover have c: "cpu_ok ?s" "me ?s = me s" using Cons.prems(1) by (simp_all add: cpu_ok_def me_def)
    moreover have "length (filter (\<lambda>c. c \<noteq> me s) cs) \<le> length ys" using Cons.prems(6) False xs by simp
    ultimately obtain m f where t: "startothers_loop lapic mpenter entrypgdir started 0x80007000 cs ?s =
        Ok (handed lapic mpenter entrypgdir (apicid s) (filter (\<lambda>c. c \<noteq> me s) cs) ys,
          ?s\<lparr>pmem := m, freelist := f\<rparr>)"
      "kinv (?s\<lparr>pmem := m, freelist := f\<rparr>) (drop (length (filter (\<lambda>c. c \<noteq> me s) cs)) ys)" "\<forall>a \<ge> 0x80007000. m a = ?m a"
      using Cons.IH [of ?s ys] Cons.prems(2,3,5,7) by auto
    have e: "?s\<lparr>pmem := m, freelist := f\<rparr> = s\<lparr>pmem := m, freelist := f\<rparr>" by simp
    have st: "started c" using Cons.prems(7) False by simp
    have "startothers_loop lapic mpenter entrypgdir started 0x80007000 (c # cs) s =
        bindk (startothers_loop lapic mpenter entrypgdir started 0x80007000 cs) (\<lambda>hs. ret (handoff_at 0x80007000 ?ws ?m # hs)) ?s"
      using False st by (simp add: bindk_run thenk_run getk_run modk_run m k(1) V2P_def primed_def)
    then have "startothers_loop lapic mpenter entrypgdir started 0x80007000 (c # cs) s =
        Ok (handed lapic mpenter entrypgdir (apicid s) (filter (\<lambda>c. c \<noteq> me s) (c # cs)) xs, s\<lparr>pmem := m, freelist := f\<rparr>)"
      using False by (simp add: bindk_run t(1) ret_def primed_handoff xs e)
    moreover have "\<forall>a \<ge> 0x80007000. m a = pmem s a" using t(3) primed_above by simp
    ultimately show ?thesis using t(2) False xs e by (intro exI [of _ m] exI [of _ f]) simp
  qed
qed

text \<open>C26. With enough free pages, and if every processor that is woken reports itself, \<open>startothers\<close> wakes every processor but the
  one it runs on, in their order and each with the start-up sequence for its own controller; each finds the top of a page of its
  own as its stack, taken off the free list, and the start-up code is in its place.
\<close>

theorem startothers_stacks:
  fixes s :: "'z kmem_scheme"
  assumes "cpu_ok s" "\<not> fl_if s" "\<not> use_lock s" "kinv s xs" "0x80100000 \<le> kend s"
    and "n \<le> 4096" "unat entryother + n < 4294967296"
    and "\<forall>c < ncpu s. c = me s \<or> started c" "ncpu s \<le> length xs"
  shows "\<exists>hs t. startothers lapic mpenter entrypgdir started entryother n s = Ok (hs, t) \<and>
    hs = handed lapic mpenter entrypgdir (apicid s) (filter (\<lambda>c. c \<noteq> me s) [0..<ncpu s]) xs \<and>
    kinv t (drop (length hs) xs) \<and> distinct (map h_stack hs) \<and> (\<forall>i < n. pmem t (0x80007000 + of_nat i) = pmem s (entryother + of_nat i))"
proof -
  let ?m = "memmove 0x80007000 entryother n (pmem s)"
  let ?s = "s\<lparr>pmem := ?m\<rparr>"
  let ?hs = "handed lapic mpenter entrypgdir (apicid s) (filter (\<lambda>c. c \<noteq> me s) [0..<ncpu s]) xs"
  have mm: "?m a = (if unat (a - 0x80007000) < n then pmem s (entryother + (a - 0x80007000)) else pmem s a)" for a
    using assms(6,7) by (intro memmove_at) simp_all
  have "kinv ?s xs"
  proof (rule kinv_low [OF assms(4,5)])
    fix a :: uint assume "0x80100000 \<le> a"
    then have "unat (a - 0x80007000) = unat a - unat (0x80007000 :: uint)" "0x80100000 \<le> unat a"
      by (simp_all add: word_le_nat_alt unat_sub)
    then have "\<not> unat (a - 0x80007000) < n" using assms(6) by simp
    then show "?m a = pmem s a" by (simp add: mm)
  qed
  moreover have c: "cpu_ok ?s" "me ?s = me s" using assms(1) by (simp_all add: cpu_ok_def me_def)
  moreover have st: "started c" if "c \<in> set [0..<ncpu s]" "c \<noteq> me ?s" for c using that assms(8) c(2) by auto
  moreover have l: "length (filter (\<lambda>c. c \<noteq> me s) [0..<ncpu s]) \<le> length xs"
    using assms(9) length_filter_le [of "\<lambda>c. c \<noteq> me s" "[0..<ncpu s]"] by simp
  ultimately obtain m f where t: "startothers_loop lapic mpenter entrypgdir started 0x80007000 [0..<ncpu s] ?s =
        Ok (handed lapic mpenter entrypgdir (apicid s) (filter (\<lambda>c. c \<noteq> me s) [0..<ncpu s]) xs,
          ?s\<lparr>pmem := m, freelist := f\<rparr>)"
      "kinv (?s\<lparr>pmem := m, freelist := f\<rparr>) (drop (length (filter (\<lambda>c. c \<noteq> me s) [0..<ncpu s])) xs)" "\<forall>a \<ge> 0x80007000. m a = ?m a"
    using startothers_loop_run [of ?s xs "[0..<ncpu s]" started lapic mpenter entrypgdir] assms(2,3,5) st by auto
  have "m (0x80007000 + of_nat i) = pmem s (entryother + of_nat i)" if "i < n" for i
  proof -
    have u: "unat (of_nat i :: uint) = i" using that assms(6) by (simp add: unat_small)
    have "0x80007000 \<le> (0x80007000 + of_nat i :: uint)"
      using that assms(6) u by (simp add: word_le_nat_alt unat_add_if)
    then show ?thesis using t(3) that u by (simp add: mm)
  qed
  moreover have "distinct (map h_stack ?hs)" using assms(4) l by (simp add: kinv_def handed_pages distinct_map inj_on_def)
  moreover have "startothers lapic mpenter entrypgdir started entryother n s = Ok (?hs, s\<lparr>pmem := m, freelist := f\<rparr>)"
    using t(1) by (simp add: startothers_def P2V_def thenk_run modk_run bindk_run getk_run)
  ultimately show ?thesis using t(2) handed_pages(2) [OF l, of lapic mpenter entrypgdir "apicid s"]
    by (intro exI [of _ ?hs] exI [of _ "s\<lparr>pmem := m, freelist := f\<rparr>"]) simp
qed

text \<open>Two processors, the first of which is running, and two free pages.\<close>

definition demo_start :: kmem where
  "demo_start = (demo_kmem ())\<lparr>fl_if := False, ncpu := 2, use_lock := False\<rparr>"

theorem startothers_stacks_witness:
  "\<exists>t. startothers 0xFEE00000 0x80103000 0x8010A000 (\<lambda>_. True) 0x80109000 64 demo_start =
      Ok ([\<lparr>h_stack = 0x80401000, h_entry = 0x80103000, h_pgdir = 0x10A000, h_writes = lapicstartap 0xFEE00000 1 0x7000\<rparr>], t) \<and>
    kinv t [0x80401000]"
proof -
  let ?s = demo_start and ?xs = "[0x80400000, 0x80401000]"
  have s: "me ?s = 0" "cpu_ok ?s" "\<not> fl_if ?s" "\<not> use_lock ?s" "0x80100000 \<le> kend ?s" "ncpu ?s = 2" "apicid ?s (Suc 0) = 1"
    by (simp_all add: demo_start_def demo_kmem_def demo_console_def demo_machine_def me_def cpu_ok_def find_slot.simps)
  have k: "kinv ?s ?xs" using demo_kmem(3) [of "()"] by (simp add: demo_start_def kinv_def valid_page_def)
  have o: "filter (\<lambda>c. c \<noteq> me ?s) [0..<ncpu ?s] = [1]" by (simp add: s upt_rec numeral_2_eq_2)
  show ?thesis
    using startothers_stacks [OF s(2,3,4) k s(5), where n = 64 and entryother = "0x80109000" and started = "\<lambda>_. True"
      and lapic = "0xFEE00000" and mpenter = "0x80103000" and entrypgdir = "0x8010A000"]
    unfolding o by (auto simp: s V2P_def)
qed

end
