(* ===== verification/Spec2Isabelle.thy ===== *)
theory Spec2Isabelle
  imports Family Grep Utils Dcc Shell Mkfs Scheduler Ide Mp Start
begin

text \<open>
  A verification development for the Ducko.UNIX operating system (an x86 teaching kernel
  in C with its user programs).

  \<^bold>\<open>How the kernel is modelled.\<close> The kernel's global variables are a record, and each component
  extends the record of the components below it, so an operation of a lower component is an
  operation on the whole state. A C function is an element of the kernel monad of
  \<open>Prelude\<close>: it returns a value and a new state, panics, or blocks (it spins on a lock
  or sleeps). Locks, interrupt nesting and the panics that guard them are part of the model.

  \<^bold>\<open>Theories.\<close>
  \<^item> \<open>Prelude\<close>: the monad, weakest preconditions, table search, byte encodings.
  \<^item> \<open>Machine\<close>: processors, interrupt flag, spin locks, sleep and wakeup, sleep locks
    (\<open>spinlock.c\<close>, \<open>sleeplock.c\<close>, parts of \<open>proc.c\<close>).
  \<^item> \<open>Sleeplock\<close>: the contract of a sleep lock, a locale interpreted for buffers.
  \<^item> \<open>Console\<close>: formatted output, the screen and the serial port (\<open>console.c\<close>, \<open>uart.c\<close>).
  \<^item> \<open>KString\<close>: the memory and string routines (\<open>string.c\<close>).
  \<^item> \<open>Kalloc\<close>: the page allocator (\<open>kalloc.c\<close>).
  \<^item> \<open>Vm\<close>: page tables and segments (\<open>vm.c\<close>, \<open>mmu.h\<close>).
  \<^item> \<open>Bio\<close>: the buffer cache and the memory disk (\<open>bio.c\<close>, \<open>memide.c\<close>).
  \<^item> \<open>Log\<close>: the write-ahead log (\<open>log.c\<close>).
\<close>

end
